(* ===== verification/Prelude.thy ===== *)
theory Prelude
  imports Main "HOL-Library.Word" "HOL-Library.Monad_Syntax"
begin

text \<open>
  What every component of the model shares: the fixed-width integers of
  \<^verbatim>\<open>core/include/rewind/rw_types.h\<close>, checked access to C arrays, and checked
  signed 64-bit arithmetic.

  Undefined behaviour is modelled, not assumed away. An operation that indexes memory or
  computes on \<^verbatim>\<open>i64\<close> returns an \<^typ>\<open>'a option\<close>: \<^term>\<open>None\<close> is undefined behaviour
  (an access outside the array, a signed overflow, a call through a null function pointer) or
  a loop that never ends, and \<^term>\<open>Some\<close> is a defined outcome. A theorem that an
  operation yields \<^term>\<open>Some\<close> is therefore a memory-safety and termination theorem.
  A C pair of pointer and length is a list of bytes; a pointer that may be null is an
  \<^typ>\<open>'a option\<close>.
\<close>

unbundle bit_operations_syntax

section \<open>Fixed-width integers\<close>

type_synonym u8 = "8 word"
type_synonym u16 = "16 word"
type_synonym u32 = "32 word"
type_synonym u64 = "64 word"
type_synonym bytes = "u8 list"

text \<open>
  \<^verbatim>\<open>i64\<close> is the mathematical integer with the range of the type: every operation on it
  checks the range of its result.
\<close>

type_synonym i64 = int

definition i64_range :: "int \<Rightarrow> bool" where
  "i64_range v \<longleftrightarrow> - (2 ^ 63) \<le> v \<and> v < 2 ^ 63"

definition i64_chk :: "int \<Rightarrow> i64 option" where
  "i64_chk v = (if i64_range v then Some v else None)"

definition i64_add :: "i64 \<Rightarrow> i64 \<Rightarrow> i64 option" where
  "i64_add a b = i64_chk (a + b)"

definition i64_sub :: "i64 \<Rightarrow> i64 \<Rightarrow> i64 option" where
  "i64_sub a b = i64_chk (a - b)"

definition i64_neg :: "i64 \<Rightarrow> i64 option" where
  "i64_neg a = i64_chk (- a)"

text \<open>Widening an unsigned 32-bit value, and reading the bits of an \<^verbatim>\<open>i64\<close> as unsigned.\<close>

definition i64_of_u32 :: "u32 \<Rightarrow> i64" where
  "i64_of_u32 w = uint w"

definition u64_of_i64 :: "i64 \<Rightarrow> u64" where
  "u64_of_i64 v = word_of_int v"

definition u32_of_i64 :: "i64 \<Rightarrow> u32" where
  "u32_of_i64 v = word_of_int v"

text \<open>The conversion of an out-of-range \<^verbatim>\<open>u64\<close> to \<^verbatim>\<open>i64\<close> is two's complement.\<close>

definition i64_of_u64 :: "u64 \<Rightarrow> i64" where
  "i64_of_u64 w = sint w"

named_theorems i64_defs \<open>the checked signed operations\<close>

lemmas i64_ops [i64_defs] = i64_add_def i64_sub_def i64_neg_def i64_chk_def i64_range_def

lemma i64_chk_Some [simp]: "i64_chk v = Some x \<longleftrightarrow> x = v \<and> i64_range v"
  by (auto simp: i64_chk_def)

lemma i64_range_num:
  "i64_range v \<longleftrightarrow> - 9223372036854775808 \<le> v \<and> v < 9223372036854775808"
  by (simp add: i64_range_def)

lemma uint_u32_bounds: "0 \<le> uint (w :: u32)" "uint (w :: u32) < 4294967296"
  using uint_lt2p [of w] by simp_all

section \<open>Checked array access\<close>

definition rd :: "'a list \<Rightarrow> nat \<Rightarrow> 'a option" where
  "rd xs i = (if i < length xs then Some (xs ! i) else None)"

definition wr :: "'a list \<Rightarrow> nat \<Rightarrow> 'a \<Rightarrow> 'a list option" where
  "wr xs i v = (if i < length xs then Some (xs[i := v]) else None)"

definition slice :: "'a list \<Rightarrow> nat \<Rightarrow> nat \<Rightarrow> 'a list option" where
  "slice xs off len = (if off + len \<le> length xs then Some (take len (drop off xs)) else None)"

text \<open>The loop \<^verbatim>\<open>for (i = 0; i < len; ++i) dst[off + i] = src[i]\<close> over a whole source.\<close>

fun copy_bytes :: "'a list \<Rightarrow> nat \<Rightarrow> 'a list \<Rightarrow> 'a list option" where
  "copy_bytes dst off [] = Some dst"
| "copy_bytes dst off (b # bs) =
     (case wr dst off b of None \<Rightarrow> None | Some dst' \<Rightarrow> copy_bytes dst' (Suc off) bs)"

definition splice :: "'a list \<Rightarrow> nat \<Rightarrow> 'a list \<Rightarrow> 'a list" where
  "splice dst off src = take off dst @ src @ drop (off + length src) dst"

lemma rd_Some [simp]: "i < length xs \<Longrightarrow> rd xs i = Some (xs ! i)"
  by (simp add: rd_def)

lemma slice_Some [simp]:
  "off + len \<le> length xs \<Longrightarrow> slice xs off len = Some (take len (drop off xs))"
  by (simp add: slice_def)

lemma length_splice [simp]:
  "off + length src \<le> length dst \<Longrightarrow> length (splice dst off src) = length dst"
  by (simp add: splice_def)

lemma copy_bytes_Some:
  "off + length src \<le> length dst \<Longrightarrow> copy_bytes dst off src = Some (splice dst off src)"
proof (induction dst off src rule: copy_bytes.induct)
  case (1 dst off)
  then show ?case by (simp add: splice_def)
next
  case (2 dst off b bs)
  then have "copy_bytes (dst[off := b]) (Suc off) bs = Some (splice (dst[off := b]) (Suc off) bs)"
    by (simp add: wr_def)
  moreover have "splice (dst[off := b]) (Suc off) bs = splice dst off (b # bs)"
    using "2.prems" by (simp add: splice_def take_Suc_conv_app_nth upd_conv_take_nth_drop add.commute)
  ultimately show ?case
    using "2.prems" by (simp add: wr_def)
qed

lemma take_splice [simp]:
  "off \<le> length dst \<Longrightarrow> n = off + length src \<Longrightarrow> take n (splice dst off src) = take off dst @ src"
  by (simp add: splice_def)

lemma take_splice_before: "n \<le> off \<Longrightarrow> off \<le> length dst \<Longrightarrow> take n (splice dst off src) = take n dst"
  by (simp add: splice_def min_def)

lemma slice_splice [simp]:
  "off \<le> length dst \<Longrightarrow> n = length src \<Longrightarrow> take n (drop off (splice dst off src)) = src"
  by (simp add: splice_def)

lemma nth_splice:
  "off + length src \<le> length dst \<Longrightarrow> i < length dst \<Longrightarrow>
     splice dst off src ! i =
       (if off \<le> i \<and> i < off + length src then src ! (i - off) else dst ! i)"
  by (auto simp: splice_def nth_append min_def)

section \<open>Words and lists\<close>

lemma unat_of_nat_u32 [simp]: "n < 4294967296 \<Longrightarrow> unat (of_nat n :: u32) = n"
  by (simp add: unat_of_nat take_bit_nat_eq_self_iff)

lemma ucast_of_nat_u32 [simp]:
  "n < 4294967296 \<Longrightarrow> ucast (of_nat n :: u32) = (of_nat n :: 'a :: len word)"
  by (metis of_nat_unat unat_of_nat_u32)

lemma unat_u32_lt: "unat (w :: u32) < 4294967296"
  using unsigned_less [of w, where ?'a = nat] by simp

lemma unat_u64_lt: "unat (w :: u64) < 18446744073709551616"
  using unsigned_less [of w, where ?'a = nat] by simp

lemma not_bit_u32 [simp]: "32 \<le> n \<Longrightarrow> \<not> bit (w :: u32) n"
  using bit_imp_le_length [of w n] by auto

lemma not_bit_u8 [simp]: "8 \<le> n \<Longrightarrow> \<not> bit (w :: u8) n"
  using bit_imp_le_length [of w n] by auto

lemma not_bit_u64 [simp]: "64 \<le> n \<Longrightarrow> \<not> bit (w :: u64) n"
  using bit_imp_le_length [of w n] by auto

lemma unat_add_no_wrap:
  "unat (a :: u32) + unat b < 4294967296 \<Longrightarrow> unat (a + b) = unat a + unat b"
  using unat_add_lem [of a b] by simp

lemma unat_ucast_up: "LENGTH('a) \<le> LENGTH('b) \<Longrightarrow> unat (ucast (w :: 'a :: len word) :: 'b :: len word) = unat w"
  by (simp add: unsigned_ucast_eq take_bit_nat_eq_self_iff)
    (meson less_le_trans one_le_numeral power_increasing unsigned_less)

lemma ucast_u32_u64 [simp]: "ucast (ucast (v :: u32) :: u64) = v"
  by (rule bit_word_eqI) (auto simp: bit_simps)

lemma u64_of_u32_le: "\<not> (ucast (v :: u32) :: u64) > 0xFFFFFFFF"
  using unat_u32_lt [of v] by (simp add: word_less_nat_alt unat_ucast_up)

lemma unat_and_le: "unat (a AND (b :: 'a :: len word)) \<le> unat b"
  by (rule word_and_le1 [THEN word_le_nat_alt [THEN iffD1]])

lemma bind_Some_iff: "Option.bind m f = Some y \<longleftrightarrow> (\<exists>x. m = Some x \<and> f x = Some y)"
  by (cases m) auto

end
