(* ===== verification/Crc32.thy ===== *)
theory Crc32
  imports Prelude
begin

text \<open>
  The block checksum, \<^verbatim>\<open>core/src/crc32.cpp\<close>: CRC-32/ISO-HDLC computed a nibble at a time from
  a table of sixteen words. The reference is the bit-at-a-time definition of the reflected
  polynomial; the lemmas show that the table computes it, that the running interface splits
  anywhere, and which transmission errors the checksum is certain to catch.
\<close>

unbundle bit_operations_syntax

section \<open>The code\<close>

definition kNibbleTable :: "u32 list" where
  "kNibbleTable =
    [0x00000000, 0x1DB71064, 0x3B6E20C8, 0x26D930AC,
     0x76DC4190, 0x6B6B51F4, 0x4DB26158, 0x5005713C,
     0xEDB88320, 0xF00F9344, 0xD6D6A3E8, 0xCB61B38C,
     0x9B64C2B0, 0x86D3D2D4, 0xA00AE278, 0xBDBDF21C]"

definition crc32_init :: u32 where
  "crc32_init = 0xFFFFFFFF"

definition crc32_final :: "u32 \<Rightarrow> u32" where
  "crc32_final crc = crc XOR 0xFFFFFFFF"

text \<open>The second and third line of the loop body of \<^verbatim>\<open>crc32_update\<close>.\<close>

definition crc32_nibble :: "u32 \<Rightarrow> u32" where
  "crc32_nibble crc = drop_bit 4 crc XOR (kNibbleTable ! unat (crc AND 0x0F))"

fun crc32_update :: "u32 \<Rightarrow> bytes \<Rightarrow> u32" where
  "crc32_update crc [] = crc"
| "crc32_update crc (b # bs) = crc32_update (crc32_nibble (crc32_nibble (crc XOR ucast b))) bs"

definition crc32 :: "bytes \<Rightarrow> u32" where
  "crc32 data = crc32_final (crc32_update crc32_init data)"

section \<open>The reference: one bit at a time\<close>

definition crc_bit :: "u32 \<Rightarrow> u32" where
  "crc_bit x = (if bit x 0 then drop_bit 1 x XOR 0xEDB88320 else drop_bit 1 x)"

fun crc32_bitwise :: "u32 \<Rightarrow> bytes \<Rightarrow> u32" where
  "crc32_bitwise crc [] = crc"
| "crc32_bitwise crc (b # bs) = crc32_bitwise ((crc_bit ^^ 8) (crc XOR ucast b)) bs"

lemma crc_bit_xor: "crc_bit (x XOR y) = crc_bit x XOR crc_bit y"
  by (rule bit_word_eqI) (auto simp: crc_bit_def bit_simps)

lemma crc_bit_pow_xor: "(crc_bit ^^ n) (x XOR y) = (crc_bit ^^ n) x XOR (crc_bit ^^ n) y"
  by (induction n) (simp_all add: crc_bit_xor)

lemma crc_bit_pow_drop:
  "(\<forall>i<n. \<not> bit x i) \<Longrightarrow> (crc_bit ^^ n) x = drop_bit n x"
proof (induction n arbitrary: x)
  case 0
  then show ?case by simp
next
  case (Suc n)
  then have "crc_bit x = drop_bit 1 x"
    by (simp add: crc_bit_def)
  moreover have "\<forall>i<n. \<not> bit (drop_bit 1 x) i"
    using Suc.prems by (simp add: bit_simps)
  ultimately show ?case
    using Suc.IH [of "drop_bit 1 x"] by (simp add: funpow_Suc_right del: funpow.simps)
qed

lemma crc_bit_4: "(crc_bit ^^ 4) x = crc_bit (crc_bit (crc_bit (crc_bit x)))"
  by (simp add: numeral_eq_Suc)

lemma table_is_bitwise: "\<forall>n \<in> set [0..<16]. kNibbleTable ! n = (crc_bit ^^ 4) (word_of_nat n)"
  unfolding crc_bit_4 kNibbleTable_def crc_bit_def by code_simp

lemma crc32_nibble_bitwise: "crc32_nibble x = (crc_bit ^^ 4) x"
proof -
  have split: "x = (x AND NOT 15) XOR (x AND 15)"
    by (rule bit_word_eqI) (auto simp: bit_simps)
  have bits: "bit (15 :: u32) i \<longleftrightarrow> i < 4" for i
    using bit_mask_iff [of 4 i, where ?'a = u32] by (auto simp: mask_eq_exp_minus_1)
  have high: "(crc_bit ^^ 4) (x AND NOT 15) = drop_bit 4 x"
  proof -
    have "(crc_bit ^^ 4) (x AND NOT 15) = drop_bit 4 (x AND NOT 15)"
      by (rule crc_bit_pow_drop) (simp only: bit_and_iff bit_not_iff bits, blast)
    also have "\<dots> = drop_bit 4 x"
      by (rule bit_word_eqI) (simp only: bit_drop_bit_eq comp_apply bit_and_iff bit_not_iff bits,
        auto intro: ccontr)
    finally show ?thesis .
  qed
  have "unat (x AND 15) < 16"
    using unat_and_le [of x 15] by simp
  then have low: "(crc_bit ^^ 4) (x AND 15) = kNibbleTable ! unat (x AND 15)"
    using table_is_bitwise [rule_format, of "unat (x AND 15)"] by (simp del: unsigned_and_eq)
  have "(crc_bit ^^ 4) x = (crc_bit ^^ 4) (x AND NOT 15) XOR (crc_bit ^^ 4) (x AND 15)"
    by (subst (1) split) (rule crc_bit_pow_xor)
  then show ?thesis
    by (simp only: high low crc32_nibble_def)
qed

text \<open>The table-driven update computes the bit-at-a-time reference.\<close>

lemma crc32_step_bitwise:
  "crc32_nibble (crc32_nibble x) = (crc_bit ^^ 8) x"
  by (simp add: crc32_nibble_bitwise funpow_add [symmetric, THEN fun_cong, unfolded o_apply])

lemma crc32_update_bitwise: "crc32_update crc bs = crc32_bitwise crc bs"
  by (induction crc bs rule: crc32_update.induct) (simp_all add: crc32_step_bitwise)

section \<open>The running interface\<close>

lemma crc32_update_append [simp]:
  "crc32_update crc (xs @ ys) = crc32_update (crc32_update crc xs) ys"
  by (induction crc xs rule: crc32_update.induct) simp_all

lemma crc32_final_inj: "crc32_final a = crc32_final b \<longleftrightarrow> a = b"
  by (metis crc32_final_def xor.assoc xor_self_eq xor.right_neutral)

lemma xor_right_inj: "x XOR z = y XOR z \<longleftrightarrow> x = (y :: 'a :: len word)"
  by (metis xor.assoc xor_self_eq xor.right_neutral)

section \<open>Which errors it detects\<close>

text \<open>
  One bit step is a bijection of the 32-bit state: the polynomial has its top bit set, so
  the bit shifted out can be read back from the result.
\<close>

lemma crc_bit_inj: "crc_bit x = crc_bit y \<Longrightarrow> x = y"
proof -
  assume eq: "crc_bit x = crc_bit y"
  have top: "bit (crc_bit z) 31 \<longleftrightarrow> bit z 0" for z
    by (simp add: crc_bit_def bit_simps del: drop_bit_Suc)
  with eq have b0: "bit x 0 \<longleftrightarrow> bit y 0" by metis
  with eq have "drop_bit 1 x = drop_bit 1 y"
    by (auto simp: crc_bit_def xor_right_inj split: if_splits)
  then have "bit x (Suc n) \<longleftrightarrow> bit y (Suc n)" for n
    using bit_drop_bit_eq [of 1 x] bit_drop_bit_eq [of 1 y] by (auto dest: fun_cong [where x = n])
  with b0 show "x = y"
    by (metis bit_eqI not0_implies_Suc)
qed

lemma crc_bit_pow_inj: "(crc_bit ^^ n) x = (crc_bit ^^ n) y \<longleftrightarrow> x = y"
  by (induction n) (auto dest: crc_bit_inj)

lemma crc32_update_state_inj: "crc32_update a bs = crc32_update b bs \<longleftrightarrow> a = b"
  by (induction bs arbitrary: a b)
    (simp_all add: crc32_step_bitwise crc_bit_pow_inj xor_right_inj del: funpow.simps)

text \<open>
  Up to four bytes enter the state as one little-endian word, so a change confined to four
  consecutive bytes always changes the state after them.
\<close>

fun le_word :: "bytes \<Rightarrow> u32" where
  "le_word [] = 0"
| "le_word (b # bs) = ucast b XOR push_bit 8 (le_word bs)"

lemma le_word_high: "length bs \<le> k \<Longrightarrow> 8 * k \<le> i \<Longrightarrow> \<not> bit (le_word bs) i"
proof (induction bs arbitrary: k i)
  case (Cons b bs)
  then obtain j where k: "k = Suc j" by (cases k) auto
  have "\<not> bit (le_word bs) (i - 8)"
    using Cons.prems k by (intro Cons.IH [of j]) auto
  moreover have "\<not> bit (ucast b :: u32) i"
    using Cons.prems k bit_imp_le_length [of b i] by (auto simp: bit_simps)
  ultimately show ?case by (simp add: bit_simps)
qed simp

lemma le_word_inj:
  "length xs = length ys \<Longrightarrow> length xs \<le> 4 \<Longrightarrow> le_word xs = le_word ys \<Longrightarrow> xs = ys"
proof (induction xs ys rule: list_induct2)
  case (Cons x xs y ys)
  have bits: "bit (ucast x :: u32) i \<noteq> bit (push_bit 8 (le_word xs)) i \<longleftrightarrow>
      bit (ucast y :: u32) i \<noteq> bit (push_bit 8 (le_word ys)) i" for i
    using Cons.prems(2) by (metis bit_xor_iff le_word.simps(2))
  have "x = y"
  proof (rule bit_word_eqI)
    fix n assume "n < LENGTH(8)"
    then show "bit x n = bit y n" using bits [of n] by (simp add: bit_simps)
  qed
  moreover have "le_word xs = le_word ys"
  proof (rule bit_word_eqI)
    fix n assume n: "n < LENGTH(32)"
    show "bit (le_word xs) n = bit (le_word ys) n"
    proof (cases "n < 24")
      case True
      then show ?thesis using bits [of "n + 8"] \<open>x = y\<close> by (auto simp: bit_simps)
    next
      case False
      then show ?thesis
        using le_word_high [of xs 3 n] le_word_high [of ys 3 n] Cons by simp
    qed
  qed
  ultimately show ?case using Cons by simp
qed simp

lemma crc32_update_le_word:
  "length bs \<le> 4 \<Longrightarrow> crc32_update a bs = (crc_bit ^^ (8 * length bs)) (a XOR le_word bs)"
proof (induction bs arbitrary: a)
  case (Cons b bs)
  have low: "(crc_bit ^^ 8) (push_bit 8 (le_word bs)) = le_word bs"
  proof -
    have "(crc_bit ^^ 8) (push_bit 8 (le_word bs)) = drop_bit 8 (push_bit 8 (le_word bs))"
      by (rule crc_bit_pow_drop) (simp add: bit_simps)
    also have "\<dots> = le_word bs"
      using le_word_high [of bs 3] Cons.prems
      by (intro bit_word_eqI) (auto simp: bit_simps not_less intro: leI)
    finally show ?thesis .
  qed
  have "crc32_update a (b # bs) =
      (crc_bit ^^ (8 * length bs)) ((crc_bit ^^ 8) (a XOR ucast b) XOR le_word bs)"
    using Cons by (simp add: crc32_step_bitwise)
  also have "\<dots> = (crc_bit ^^ (8 * length bs)) ((crc_bit ^^ 8) (a XOR le_word (b # bs)))"
    by (simp add: low crc_bit_pow_xor xor.assoc)
  finally show ?case
    using funpow_add [of "8 * length bs" 8 crc_bit] by (simp add: add.commute del: le_word.simps)
qed simp

lemma crc32_update_burst:
  assumes "length xs = length ys" "length xs \<le> 4" "xs \<noteq> ys"
  shows "crc32_update a xs \<noteq> crc32_update a ys"
proof
  assume "crc32_update a xs = crc32_update a ys"
  then have "a XOR le_word xs = a XOR le_word ys"
    using assms by (simp add: crc32_update_le_word crc_bit_pow_inj)
  then have "le_word xs = le_word ys"
    by (metis xor.left_commute xor_self_eq xor.right_neutral)
  with assms show False using le_word_inj by blast
qed

section \<open>The checksum as an interface\<close>

text \<open>
  What the trace format asks of its checksum. The reader feeds the sequence number and the
  payload separately where the writer fed them together; corruption of a block must show.
\<close>

locale checksum =
  fixes init :: "u32" and update :: "u32 \<Rightarrow> bytes \<Rightarrow> u32" and final :: "u32 \<Rightarrow> u32"
  assumes update_append: "update a (xs @ ys) = update (update a xs) ys"
    and update_state_inj: "update a xs = update b xs \<longleftrightarrow> a = b"
    and final_inj: "final a = final b \<longleftrightarrow> a = b"
    and update_burst: "length xs = length ys \<Longrightarrow> length xs \<le> 4 \<Longrightarrow> xs \<noteq> ys \<Longrightarrow>
      update a xs \<noteq> update a ys"
begin

lemma split_feed: "final (update (update init xs) ys) = final (update init (xs @ ys))"
  by (simp add: update_append)

lemma burst_detected:
  assumes "length xs = length ys" "length xs \<le> 4" "xs \<noteq> ys"
  shows "final (update init (pre @ xs @ post)) \<noteq> final (update init (pre @ ys @ post))"
  using update_burst [OF assms] by (simp add: update_append update_state_inj final_inj)

end

interpretation crc: checksum crc32_init crc32_update crc32_final
  by unfold_locales
    (simp_all add: crc32_update_state_inj crc32_final_inj crc32_update_burst)

section \<open>Properties\<close>

text \<open>
  C13. The nibble table is right: for every input, \<^verbatim>\<open>crc32\<close> equals the checksum computed
  one bit at a time with the reflected polynomial 0xEDB88320.
\<close>

theorem crc32_is_bitwise_reference:
  "crc32 data = crc32_final (crc32_bitwise crc32_init data)"
  by (simp add: crc32_def crc32_update_bitwise)

end
