(* ===== verification/Varint.thy ===== *)
theory Varint
  imports Prelude
begin

text \<open>
  Unsigned LEB128 and ZigZag, \<^verbatim>\<open>core/src/varint.cpp\<close> and the inline functions of
  \<^verbatim>\<open>core/include/rewind/varint.h\<close>. Byte counts never exceed ten (proved below), so they are
  natural numbers. An output pointer is the list of bytes written, or the old and the new
  value of the variable it points at.
\<close>

section \<open>The code\<close>

definition kVarintMaxBytes :: nat where
  "kVarintMaxBytes = 10"

lemma unat_drop_bit_7: "unat (drop_bit 7 (v :: u64)) = unat v div 128"
  using unat_drop_bit_eq [of 7 v] by (simp only: drop_bit_eq_div) simp

lemma drop_bit_7_less: "0x80 \<le> (v :: u64) \<Longrightarrow> unat (drop_bit 7 v) < unat v"
  by (simp add: unat_drop_bit_7 word_le_nat_alt)

function varint_encode :: "u64 \<Rightarrow> bytes" where
  "varint_encode v =
     (if v \<ge> 0x80 then ucast (v OR 0x80) # varint_encode (drop_bit 7 v) else [ucast v])"
  by pat_completeness auto
termination
  by (relation "measure unat") (auto simp: drop_bit_7_less)

function varint_size_loop :: "u64 \<Rightarrow> nat \<Rightarrow> nat" where
  "varint_size_loop v n = (if v \<ge> 0x80 then varint_size_loop (drop_bit 7 v) (n + 1) else n)"
  by pat_completeness auto
termination
  by (relation "measure (\<lambda>(v, n). unat v)") (auto simp: drop_bit_7_less)

definition varint_size :: "u64 \<Rightarrow> nat" where
  "varint_size v = varint_size_loop v 1"

text \<open>
  The decoding loop over the first \<^verbatim>\<open>limit\<close> bytes; \<^verbatim>\<open>out\<close> is the value the result
  variable holds on entry. The result is the number of bytes consumed (0 on failure) and the
  value of that variable on return.
\<close>

fun varint_decode_loop :: "bytes \<Rightarrow> nat \<Rightarrow> u64 \<Rightarrow> nat \<Rightarrow> u64 \<Rightarrow> nat \<times> u64" where
  "varint_decode_loop [] i result shift out = (0, out)"
| "varint_decode_loop (byte # rest) i result shift out =
     (let payload = ucast (byte AND 0x7F) :: u64 in
      if shift = 63 \<and> payload > 1 then (0, out)
      else
        let result' = result OR push_bit shift payload in
        if byte AND 0x80 = 0 then (i + 1, result')
        else varint_decode_loop rest (i + 1) result' (shift + 7) out)"

definition varint_decode :: "bytes \<Rightarrow> u64 \<Rightarrow> nat \<times> u64" where
  "varint_decode inp out =
     (let limit = (if length inp < kVarintMaxBytes then length inp else kVarintMaxBytes)
      in varint_decode_loop (take limit inp) 0 0 0 out)"

definition zigzag_encode :: "i64 \<Rightarrow> u64 option" where
  "zigzag_encode v =
     (if v < 0 then do {
        a \<leftarrow> i64_add v 1;
        b \<leftarrow> i64_neg a;
        Some (push_bit 1 (u64_of_i64 b) OR 1)
      } else Some (push_bit 1 (u64_of_i64 v)))"

definition zigzag_decode :: "u64 \<Rightarrow> i64 option" where
  "zigzag_decode v =
     (if v AND 1 \<noteq> 0 then do {
        a \<leftarrow> i64_neg (i64_of_u64 (drop_bit 1 v));
        i64_sub a 1
      } else Some (i64_of_u64 (drop_bit 1 v)))"

declare varint_encode.simps [simp del] varint_size_loop.simps [simp del]

section \<open>Encoding\<close>

lemma varint_encode_small: "v < 0x80 \<Longrightarrow> varint_encode v = [ucast v]"
  by (subst varint_encode.simps) (auto simp: not_le [symmetric])

lemma varint_encode_large:
  "0x80 \<le> v \<Longrightarrow> varint_encode v = ucast (v OR 0x80) # varint_encode (drop_bit 7 v)"
  by (subst varint_encode.simps) simp

lemma varint_encode_nonempty [simp]: "varint_encode v \<noteq> []"
  by (subst varint_encode.simps) simp

lemma varint_size_loop_add: "varint_size_loop v n + 1 = n + length (varint_encode v)"
proof (induction v n rule: varint_size_loop.induct)
  case (1 v n)
  then show ?case
    by (cases "0x80 \<le> v")
      (simp_all add: varint_size_loop.simps [of v n] varint_encode.simps [of v])
qed

lemma length_varint_encode: "length (varint_encode v) = varint_size v"
  using varint_size_loop_add [of v 1] by (simp add: varint_size_def)

lemma length_varint_encode_le:
  "unat v < 2 ^ (7 * Suc k) \<Longrightarrow> length (varint_encode v) \<le> Suc k"
proof (induction k arbitrary: v)
  case 0
  then show ?case by (simp add: varint_encode_small word_less_nat_alt)
next
  case (Suc k)
  show ?case
  proof (cases "0x80 \<le> v")
    case True
    have "unat (drop_bit 7 v) < 2 ^ (7 * Suc k)"
      using Suc.prems
      by (simp add: unat_drop_bit_7 less_mult_imp_div_less power_add mult.commute)
    with Suc.IH [of "drop_bit 7 v"] True show ?thesis
      by (simp add: varint_encode_large)
  next
    case False
    then show ?thesis by (simp add: varint_encode_small)
  qed
qed

lemma length_varint_encode_bounds: "1 \<le> length (varint_encode v)" "length (varint_encode v) \<le> 10"
proof -
  show "1 \<le> length (varint_encode v)" by (simp add: Suc_le_eq)
  have "unat v < 2 ^ (7 * Suc 9)" using unat_u64_lt [of v] by simp
  from length_varint_encode_le [OF this] show "length (varint_encode v) \<le> 10" by simp
qed

section \<open>Decoding\<close>

text \<open>The number a byte sequence denotes, least significant group first, without any width.\<close>

fun leb_value :: "bytes \<Rightarrow> nat" where
  "leb_value [] = 0"
| "leb_value (b # bs) = unat (b AND 0x7F) + 128 * leb_value bs"

text \<open>A sequence is a complete varint when its last byte, and only that, has bit 7 clear.\<close>

fun leb_complete :: "bytes \<Rightarrow> bool" where
  "leb_complete [] = False"
| "leb_complete [b] = (b AND 0x80 = 0)"
| "leb_complete (b # bs) = (b AND 0x80 \<noteq> 0 \<and> leb_complete bs)"

lemma shift_or_add:
  assumes "unat (r :: u64) < 2 ^ s" "unat p < 2 ^ (64 - s)" "s < 64"
  shows "unat (r OR push_bit s p) = unat r + 2 ^ s * unat p"
proof -
  have "Suc (unat p) * 2 ^ s \<le> 2 ^ (64 - s) * 2 ^ s"
    using assms(2) by (intro mult_le_mono1) simp
  also have "\<dots> = 2 ^ 64"
    using assms(3) by (simp only: power_add [symmetric]) simp
  finally have bound: "unat p * 2 ^ s + 2 ^ s \<le> 2 ^ 64" by simp
  with assms(1) have lt: "unat r + 2 ^ s * unat p < 2 ^ 64"
    by (simp add: mult.commute)
  have "unat (push_bit s p) = take_bit 64 (push_bit s (unat p))"
    using unsigned_push_bit_eq [of s p, where ?'a = nat] by simp
  then have push: "unat (push_bit s p) = 2 ^ s * unat p"
    using lt by (simp add: push_bit_eq_mult take_bit_nat_eq_self mult.commute)
  have "r AND push_bit s p = 0"
  proof (rule bit_word_eqI)
    fix n assume "n < LENGTH(64)"
    show "bit (r AND push_bit s p) n = bit 0 n"
    proof (cases "n < s")
      case False
      have "\<not> bit (unat r) n"
        using assms(1) False by (metis bit_take_bit_iff take_bit_nat_eq_self)
      then show ?thesis by (simp add: bit_simps)
    qed (simp add: bit_simps)
  qed
  then have "r OR push_bit s p = r + push_bit s p"
    by (simp add: disjunctive_add_eq_or)
  then show ?thesis
    using unat_add_lem [of r "push_bit s p"] lt push by simp
qed

lemma unat_payload: "unat (ucast (b AND 0x7F :: u8) :: u64) = unat (b AND 0x7F)"
  by (rule unat_ucast_up) simp

text \<open>
  The loop started in the middle: the bytes read so far denote \<^verbatim>\<open>result\<close>, and
  \<^verbatim>\<open>shift\<close> is seven times their number.
\<close>

lemma payload_le: "unat (b AND 0x7F :: u8) < 128"
  using unat_and_le [of b "0x7F"] by simp

lemma payload_acc:
  assumes "r < (2 :: nat) ^ s" "p < 128" shows "r + 2 ^ s * p < 2 ^ (s + 7)"
proof -
  have "r + 2 ^ s * p \<le> r + 2 ^ s * 127"
    using assms(2) by (intro add_left_mono mult_le_mono2) simp
  also have "\<dots> < 2 ^ s + 2 ^ s * 127" using assms(1) by simp
  also have "\<dots> = 2 ^ (s + 7)" by (simp add: power_add)
  finally show ?thesis .
qed

lemma varint_decode_take: "varint_decode inp out = varint_decode_loop (take 10 inp) 0 0 0 out"
  by (simp add: varint_decode_def kVarintMaxBytes_def Let_def)

lemma decode_loop_complete:
  assumes "leb_complete bs" "unat result < 2 ^ shift" "shift = 7 * i" "i + length bs \<le> 10"
    "unat result + 2 ^ shift * leb_value bs < 2 ^ 64"
  shows "\<exists>w. varint_decode_loop (bs @ rest) i result shift out = (i + length bs, w) \<and>
    unat w = unat result + 2 ^ shift * leb_value bs"
  using assms
proof (induction bs arbitrary: i result shift)
  case Nil
  then show ?case by simp
next
  case (Cons b bs)
  define p where "p = (ucast (b AND 0x7F) :: u64)"
  have p: "unat p = unat (b AND 0x7F)" by (simp add: p_def unat_payload)
  have i: "i \<le> 9" "shift \<le> 63" using Cons.prems by auto
  have "2 ^ shift * unat p \<le> 2 ^ shift * leb_value (b # bs)"
    by (simp add: p)
  with Cons.prems(5) have "2 ^ shift * unat p < 2 ^ 64" by linarith
  then have small: "unat p < 2 ^ (64 - shift)"
  proof -
    have "(2 :: nat) ^ 64 = 2 ^ shift * 2 ^ (64 - shift)"
      using i by (simp only: power_add [symmetric]) simp
    with \<open>2 ^ shift * unat p < 2 ^ 64\<close> have "2 ^ shift * unat p < 2 ^ shift * 2 ^ (64 - shift)"
      by linarith
    then show ?thesis by simp
  qed
  have r': "unat (result OR push_bit shift p) = unat result + 2 ^ shift * unat p"
    using shift_or_add [of result shift p] Cons.prems(2) small i by simp
  have ok: "\<not> (shift = 63 \<and> p > 1)"
    using small by (auto simp: word_less_nat_alt)
  show ?case
  proof (cases bs)
    case Nil
    with Cons.prems(1) r' ok p show ?thesis by (simp add: Let_def p_def [symmetric])
  next
    case (Cons c cs)
    have cont: "b AND 0x80 \<noteq> 0" "leb_complete bs"
      using Cons.prems(1) Cons by simp_all
    have lt: "unat (result OR push_bit shift p) < 2 ^ (shift + 7)"
      using payload_acc [OF Cons.prems(2) payload_le [of b]] by (simp add: r' p)
    have val: "unat (result OR push_bit shift p) + 2 ^ (shift + 7) * leb_value bs
        = unat result + 2 ^ shift * leb_value (b # bs)"
      by (simp add: r' p power_add algebra_simps)
    show ?thesis
      using Cons.IH [of "result OR push_bit shift p" "shift + 7" "i + 1"] cont lt val ok Cons.prems
      by (simp add: Let_def p_def [symmetric])
  qed
qed

lemma decode_loop_sound:
  assumes "varint_decode_loop bs i result shift out = (k, x)" "k \<noteq> 0"
    "unat result < 2 ^ shift" "shift = 7 * i" "i + length bs \<le> 10"
  shows "\<exists>n. k = i + n \<and> n \<le> length bs \<and> leb_complete (take n bs) \<and>
    unat x = unat result + 2 ^ shift * leb_value (take n bs)"
  using assms
proof (induction bs i result shift out rule: varint_decode_loop.induct)
  case (1 i result shift out)
  then show ?case by simp
next
  case (2 b bs i result shift out)
  define p where "p = (ucast (b AND 0x7F) :: u64)"
  have p: "unat p = unat (b AND 0x7F)" by (simp add: p_def unat_payload)
  have ok: "\<not> (shift = 63 \<and> p > 1)"
    using "2.prems"(1,2) by (auto simp: Let_def p_def split: if_splits)
  have i: "i \<le> 9" using "2.prems" by simp
  have small: "unat p < 2 ^ (64 - shift)"
  proof (cases "i = 9")
    case True
    with ok "2.prems"(4) show ?thesis by (simp add: word_less_nat_alt)
  next
    case False
    with i "2.prems"(4) have "(2 :: nat) ^ 7 \<le> 2 ^ (64 - shift)"
      by (intro power_increasing) auto
    with payload_le [of b] p show ?thesis by simp
  qed
  have r': "unat (result OR push_bit shift p) = unat result + 2 ^ shift * unat p"
    using shift_or_add [of result shift p] "2.prems"(3,4) small i by simp
  show ?case
  proof (cases "b AND 0x80 = 0")
    case True
    then show ?thesis
      using "2.prems"(1) ok r' p by (intro exI [of _ 1]) (auto simp: Let_def p_def)
  next
    case False
    have lt: "unat (result OR push_bit shift p) < 2 ^ (shift + 7)"
      using payload_acc [OF "2.prems"(3) payload_le [of b]] by (simp add: r' p)
    have "varint_decode_loop bs (i + 1) (result OR push_bit shift p) (shift + 7) out = (k, x)"
      using "2.prems"(1) ok False by (auto simp: Let_def p_def split: if_splits)
    with "2.IH" [OF p_def _ refl False] ok lt "2.prems" obtain n where
      n: "k = Suc (i + n)" "n \<le> length bs" "leb_complete (take n bs)"
        "unat x = unat (result OR push_bit shift p) + 2 ^ (shift + 7) * leb_value (take n bs)"
      by (auto simp: p_def)
    from n(3) False have "leb_complete (take (Suc n) (b # bs))"
      by (cases "take n bs") auto
    with n r' p show ?thesis
      by (intro exI [of _ "Suc n"]) (simp add: power_add algebra_simps)
  qed
qed

lemma decode_loop_fail:
  "varint_decode_loop bs i result shift out = (0, x) \<Longrightarrow> x = out"
  by (induction bs i result shift out rule: varint_decode_loop.induct)
    (auto simp: Let_def split: if_splits)

lemma varint_decode_complete:
  assumes "leb_complete bs" "length bs \<le> 10" "leb_value bs < 2 ^ 64"
  shows "varint_decode (bs @ rest) out = (length bs, word_of_nat (leb_value bs))"
proof -
  have "varint_decode (bs @ rest) out
      = varint_decode_loop (bs @ take (10 - length bs) rest) 0 0 0 out"
    using assms(2) by (simp add: varint_decode_take)
  moreover obtain w where "varint_decode_loop (bs @ take (10 - length bs) rest) 0 0 0 out
      = (length bs, w)" "unat w = leb_value bs"
    using decode_loop_complete [OF assms(1), of 0 0 0 "take (10 - length bs) rest" out] assms
    by auto
  ultimately show ?thesis by (metis of_nat_unat ucast_id)
qed

lemma varint_decode_sound:
  assumes "varint_decode inp out = (n, x)" "n \<noteq> 0"
  shows "n \<le> length inp" "n \<le> 10" "leb_complete (take n inp)" "unat x = leb_value (take n inp)"
proof -
  have "varint_decode_loop (take 10 inp) 0 0 0 out = (n, x)"
    using assms(1) by (simp add: varint_decode_take)
  from decode_loop_sound [OF this assms(2)] obtain "n \<le> length inp" "n \<le> 10"
    "leb_complete (take n (take 10 inp))" "unat x = leb_value (take n (take 10 inp))"
    by auto
  then show "n \<le> length inp" "n \<le> 10" "leb_complete (take n inp)" "unat x = leb_value (take n inp)"
    by (simp_all add: min_absorb1)
qed

lemma varint_decode_fail: "varint_decode inp out = (0, x) \<Longrightarrow> x = out"
  by (auto simp: varint_decode_def Let_def dest: decode_loop_fail)

lemma ucast_low7: "unat ((ucast (v :: u64) :: u8) AND 0x7F) = unat v mod 128"
proof -
  have "(ucast v :: u8) AND 0x7F = take_bit 7 (ucast v)"
    by (simp add: take_bit_eq_mask mask_eq_exp_minus_1)
  then have "unat ((ucast v :: u8) AND 0x7F) = unat (take_bit 7 (ucast v) :: u8)" by simp
  also have "\<dots> = take_bit 7 (unat (ucast v :: u8))" by (rule unsigned_take_bit_eq)
  also have "\<dots> = take_bit 7 (unat v)" by (simp add: unsigned_ucast_eq)
  finally show ?thesis by (simp add: take_bit_eq_mod)
qed

lemma cont_byte:
  "(ucast ((v :: u64) OR 0x80) :: u8) AND 0x80 \<noteq> 0"
  "(ucast ((v :: u64) OR 0x80) :: u8) AND 0x7F = ucast v AND 0x7F"
proof -
  have "bit ((ucast (v OR 0x80) :: u8) AND 0x80) 7" by (simp add: bit_simps)
  then show "(ucast (v OR 0x80) :: u8) AND 0x80 \<noteq> 0" by force
  show "(ucast (v OR 0x80) :: u8) AND 0x7F = ucast v AND 0x7F"
    by (rule bit_word_eqI) (auto simp: bit_simps numeral_eq_Suc less_Suc_eq)
qed

lemma last_byte: "(v :: u64) < 0x80 \<Longrightarrow> (ucast v :: u8) AND 0x80 = 0"
proof (rule bit_word_eqI)
  fix n assume "v < 0x80" "n < LENGTH(8)"
  then have "\<not> bit (unat v) 7"
    by (simp add: bit_iff_odd word_less_nat_alt)
  then have "\<not> bit v 7" by (simp add: bit_unsigned_iff)
  moreover have "bit (0x80 :: u8) n \<longleftrightarrow> n = 7"
    using bit_exp_iff [of 7 n, where ?'a = u8] by auto
  ultimately show "bit ((ucast v :: u8) AND 0x80) n = bit 0 n"
    by (cases "n = 7") (auto simp: bit_and_iff bit_unsigned_iff)
qed

lemma leb_complete_Cons: "b AND 0x80 \<noteq> 0 \<Longrightarrow> leb_complete bs \<Longrightarrow> leb_complete (b # bs)"
  by (cases bs) auto

lemma leb_encode:
  "leb_complete (varint_encode v) \<and> leb_value (varint_encode v) = unat v"
proof (induction v rule: varint_encode.induct)
  case (1 v)
  show ?case
  proof (cases "0x80 \<le> v")
    case True
    with "1.IH" show ?thesis
      by (simp add: varint_encode_large leb_complete_Cons cont_byte ucast_low7 unat_drop_bit_7)
  next
    case False
    then have "unat v < 128" by (simp add: word_le_nat_alt)
    with False show ?thesis
      by (simp add: varint_encode_small last_byte ucast_low7)
  qed
qed

text \<open>Encoding is right for every value, and decoding undoes it whatever follows.\<close>

lemma varint_decode_encode:
  "varint_decode (varint_encode v @ rest) out = (length (varint_encode v), v)"
  using varint_decode_complete [of "varint_encode v" rest out] leb_encode [of v]
    length_varint_encode_bounds [of v] unat_u64_lt [of v]
  by simp

text \<open>A decoded value never needs fewer bytes than its encoding has.\<close>

lemma leb_value_bound: "leb_value bs < 2 ^ (7 * length bs)"
proof (induction bs)
  case (Cons b bs)
  have "unat (b AND 0x7F) + 2 ^ 7 * leb_value bs < 128 + 128 * (2 ^ (7 * length bs) - 1)"
    using Cons payload_le [of b] by (intro add_less_le_mono) auto
  then show ?case by (simp add: power_add algebra_simps)
qed simp

lemma varint_decode_min_length:
  assumes "varint_decode inp out = (n, x)" "n \<noteq> 0"
  shows "length (varint_encode x) \<le> n"
proof -
  obtain k where k: "n = Suc k" using assms(2) by (cases n) auto
  have "unat x < 2 ^ (7 * Suc k)"
    using varint_decode_sound [OF assms] leb_value_bound [of "take n inp"] k by simp
  then show ?thesis using length_varint_encode_le k by blast
qed

section \<open>ZigZag\<close>

lemma zigzag_encode_eq:
  assumes "i64_range v"
  shows "zigzag_encode v = Some (word_of_int (if v < 0 then - 2 * v - 1 else 2 * v))"
proof (cases "v < 0")
  case True
  have "push_bit 1 w OR 1 = 2 * w + 1" for w :: u64
    by (simp add: push_bit_eq_mult or_one_eq mult.commute)
  then have "push_bit 1 (word_of_int (- (v + 1)) :: u64) OR 1 = 2 * word_of_int (- (v + 1)) + 1" .
  also have "\<dots> = word_of_int (- 2 * v - 1)" by simp
  finally have "push_bit 1 (word_of_int (- (v + 1)) :: u64) OR 1 = word_of_int (- 2 * v - 1)" .
  with True assms show ?thesis
    by (auto simp: zigzag_encode_def u64_of_i64_def i64_defs)
next
  case False
  then show ?thesis by (simp add: zigzag_encode_def u64_of_i64_def push_bit_eq_mult)
qed

lemma half_u64E:
  obtains h where "0 \<le> h" "h < 9223372036854775808" "uint (u :: u64) div 2 = h"
    "uint u = 2 * h + (if odd (uint u) then 1 else 0)"
  using uint_lt2p [of u] by (auto intro!: that [of "uint u div 2"])

lemma zigzag_decode_eq:
  "zigzag_decode u = Some (if odd (uint u) then - (uint u div 2) - 1 else uint u div 2)"
proof -
  obtain h where h: "0 \<le> h" "h < 9223372036854775808" "uint u div 2 = h"
    by (rule half_u64E)
  have "take_bit 64 (uint u) = uint u"
    using uint_lt2p [of u] by (simp add: take_bit_int_eq_self_iff)
  then have "uint (drop_bit (Suc 0) u) = h"
    using unsigned_drop_bit_eq [of "Suc 0" u, where ?'a = int] h(3)
    by (simp only: drop_bit_eq_div) simp
  then have half: "sint (drop_bit (Suc 0) u) = h"
    using h by (simp add: sint_uint signed_take_bit_int_eq_self)
  have "u AND 1 \<noteq> 0 \<longleftrightarrow> odd (uint u)"
    by (metis and_one_eq bit_0 bit_uint_iff even_iff_mod_2_eq_zero len_gt_0)
  then show ?thesis
    using h by (auto simp: zigzag_decode_def i64_of_u64_def half i64_defs)
qed

lemma zigzag_decode_total: "\<exists>v. zigzag_decode u = Some v \<and> i64_range v"
  by (rule half_u64E [of u]) (auto simp: zigzag_decode_eq i64_range_def)

lemma uint_zigzag:
  "i64_range v \<Longrightarrow> uint (word_of_int (if v < 0 then - 2 * v - 1 else 2 * v) :: u64)
     = (if v < 0 then - 2 * v - 1 else 2 * v)"
  by (auto simp: i64_range_def uint_word_of_int)

lemma zigzag_decode_encode:
  assumes "i64_range v" "zigzag_encode v = Some u"
  shows "zigzag_decode u = Some v"
  using assms uint_zigzag [OF assms(1)]
  by (auto simp: zigzag_encode_eq zigzag_decode_eq split: if_splits)

lemma zigzag_encode_decode:
  assumes "zigzag_decode u = Some v"
  shows "zigzag_encode v = Some u"
proof -
  have v: "v = (if odd (uint u) then - (uint u div 2) - 1 else uint u div 2)"
    using assms by (simp add: zigzag_decode_eq)
  have r: "i64_range v" using zigzag_decode_total [of u] assms by auto
  have eq: "(if v < 0 then - 2 * v - 1 else 2 * v) = uint u"
    unfolding v by (rule half_u64E [of u]) (auto split: if_splits)
  show ?thesis by (simp only: zigzag_encode_eq [OF r] eq word_of_int_uint)
qed

section \<open>Prefix codecs as an interface\<close>

text \<open>
  A decoder that finds the end of an encoding by itself, whatever bytes follow, and reports
  how many it used. The event format is a sequence of such fields.
\<close>

locale prefix_codec =
  fixes enc :: "'a \<Rightarrow> bytes" and dec :: "bytes \<Rightarrow> ('a \<times> nat) option" and maxlen :: nat
  assumes dec_enc: "dec (enc x @ rest) = Some (x, length (enc x))"
    and enc_nonempty: "enc x \<noteq> []"
    and enc_bound: "length (enc x) \<le> maxlen"
begin

lemma prefix_free: "enc x @ r = enc y @ s \<longleftrightarrow> x = y \<and> r = s"
  by (metis dec_enc fst_conv option.inject same_append_eq)

lemma enc_inj: "enc x = enc y \<longleftrightarrow> x = y"
  using prefix_free [of x "[]" y "[]"] by simp

lemma concat_inj: "concat (map enc xs) = concat (map enc ys) \<longleftrightarrow> xs = ys"
proof (induction xs arbitrary: ys)
  case Nil
  then show ?case by (cases ys) (auto simp: enc_nonempty)
next
  case (Cons x xs)
  show ?case
  proof (cases ys)
    case Nil
    then show ?thesis by (simp add: enc_nonempty)
  next
    case (Cons y zs)
    then show ?thesis using prefix_free Cons.IH by auto
  qed
qed

lemma concat_length: "length (concat (map enc xs)) \<le> maxlen * length xs"
  by (induction xs) (auto intro: add_mono enc_bound)

end

text \<open>The reading of the two results of \<^const>\<open>varint_decode\<close> as an option.\<close>

definition varint_parse :: "bytes \<Rightarrow> (u64 \<times> nat) option" where
  "varint_parse inp = (let (n, v) = varint_decode inp 0 in if n = 0 then None else Some (v, n))"

interpretation leb: prefix_codec varint_encode varint_parse kVarintMaxBytes
  by unfold_locales
    (use length_varint_encode_bounds in
      \<open>simp_all add: varint_parse_def varint_decode_encode kVarintMaxBytes_def\<close>)

section \<open>Properties\<close>

text \<open>
  C14. Round trip: decoding the encoding of any 64-bit value, followed by any bytes, returns
  that value and exactly the length of the encoding, which is what \<^verbatim>\<open>varint_size\<close> announces
  and lies between 1 and ten bytes.
\<close>

theorem varint_roundtrip:
  "varint_decode (varint_encode v @ rest) out = (varint_size v, v) \<and>
   length (varint_encode v) = varint_size v \<and> 1 \<le> varint_size v \<and> varint_size v \<le> kVarintMaxBytes"
  using varint_decode_encode [of v rest out] length_varint_encode_bounds [of v]
  by (simp add: length_varint_encode kVarintMaxBytes_def)

text \<open>
  C15. The decoder accepts exactly the complete encodings of numbers that fit: on any input it
  either consumes a complete varint of at most ten bytes whose value is below \<^verbatim>\<open>2^64\<close>,
  and returns that value untruncated, or there is no such prefix and it returns 0 and leaves
  the output variable untouched.
\<close>

theorem varint_decode_exact:
  "case varint_decode inp out of (n, x) \<Rightarrow>
     (if \<exists>k \<le> min 10 (length inp). leb_complete (take k inp) \<and> leb_value (take k inp) < 2 ^ 64
      then n \<noteq> 0 \<and> n \<le> length inp \<and> n \<le> kVarintMaxBytes \<and> leb_complete (take n inp) \<and>
        unat x = leb_value (take n inp)
      else n = 0 \<and> x = out)"
proof -
  obtain n x where d: "varint_decode inp out = (n, x)" by fastforce
  show ?thesis
  proof (cases "\<exists>k \<le> min 10 (length inp). leb_complete (take k inp) \<and> leb_value (take k inp) < 2 ^ 64")
    case True
    then obtain k where k: "k \<le> 10" "k \<le> length inp" "leb_complete (take k inp)"
      "leb_value (take k inp) < 2 ^ 64" by auto
    then have "varint_decode (take k inp @ drop k inp) out = (k, word_of_nat (leb_value (take k inp)))"
      using varint_decode_complete [of "take k inp" "drop k inp" out]
      by (simp add: min_absorb2 del: append_take_drop_id)
    moreover have "k \<noteq> 0" using k(3) by (cases k) auto
    ultimately have "n \<noteq> 0" using d by simp
    with varint_decode_sound [OF d] True d show ?thesis by (simp add: kVarintMaxBytes_def)
  next
    case False
    have "n = 0"
    proof (rule ccontr)
      assume "n \<noteq> 0"
      from varint_decode_sound [OF d this] False show False
        using unat_u64_lt [of x] by auto
    qed
    with varint_decode_fail [of inp out x] d False show ?thesis by auto
  qed
qed

text \<open>
  C16. ZigZag is a bijection between the signed and the unsigned 64-bit values, computed
  without signed overflow in either direction, the smallest value included.
\<close>

theorem zigzag_bijection:
  "(i64_range v \<longrightarrow> (\<exists>u. zigzag_encode v = Some u \<and> zigzag_decode u = Some v)) \<and>
   (\<exists>w. zigzag_decode u = Some w \<and> i64_range w \<and> zigzag_encode w = Some u)"
  using zigzag_decode_encode [of v] zigzag_encode_eq [of v] zigzag_decode_total [of u]
    zigzag_encode_decode [of u] by auto

theorem zigzag_bijection_witness:
  "zigzag_encode (- (2 ^ 63)) = Some 0xFFFFFFFFFFFFFFFF \<and>
   zigzag_decode 0xFFFFFFFFFFFFFFFF = Some (- (2 ^ 63))"
proof -
  have r: "i64_range (- (2 ^ 63))" by (simp add: i64_range_def)
  have e: "zigzag_encode (- (2 ^ 63)) = Some 0xFFFFFFFFFFFFFFFF" by code_simp
  show ?thesis
    using zigzag_bijection [of "- (2 ^ 63)" 0] r e by auto
qed

text \<open>
  C17. What ZigZag is for: an address delta of up to 63 bytes either way costs one byte.
\<close>

theorem zigzag_small_is_one_byte:
  assumes "- 64 \<le> v" "v < 64"
  shows "\<exists>u. zigzag_encode v = Some u \<and> length (varint_encode u) = 1"
proof -
  have r: "i64_range v" using assms by (simp add: i64_range_def)
  let ?u = "word_of_int (if v < 0 then - 2 * v - 1 else 2 * v) :: u64"
  have "uint ?u < 128" using assms by (subst uint_zigzag [OF r]) auto
  then have "?u < 0x80" by (simp add: word_less_alt)
  then show ?thesis by (simp add: zigzag_encode_eq [OF r] varint_encode_small del: of_int_diff)
qed

theorem zigzag_small_is_one_byte_witness:
  "\<exists>u. zigzag_encode (- 4) = Some u \<and> length (varint_encode u) = 1"
  by (rule zigzag_small_is_one_byte) simp_all

end
