(* ===== verification/Ring_Buffer.thy ===== *)
theory Ring_Buffer
  imports Prelude
begin

text \<open>
  The single-producer single-consumer byte ring, \<^verbatim>\<open>core/src/ring_buffer.cpp\<close>. The indices are
  free-running 32-bit counters masked on use; the model keeps them as words, so their
  wrap-around is the code's. The abstraction is the list of bytes waiting; the refinement
  lemmas say that push appends, peek shows a prefix, and consume drops, whatever the indices.
\<close>

section \<open>The code\<close>

record ring_buffer =
  rb_store :: "bytes option"
  rb_cap :: u32
  rb_mask :: u32
  rb_head :: u32
  rb_tail :: u32
  rb_drops :: u32
  rb_bytes_dropped :: u64
  rb_high_water :: u32

definition is_power_of_two :: "u32 \<Rightarrow> bool" where
  "is_power_of_two v \<longleftrightarrow> v \<noteq> 0 \<and> v AND (v - 1) = 0"

definition rb_new :: ring_buffer where
  "rb_new = \<lparr>rb_store = None, rb_cap = 0, rb_mask = 0, rb_head = 0, rb_tail = 0,
     rb_drops = 0, rb_bytes_dropped = 0, rb_high_water = 0\<rparr>"

definition rb_valid :: "ring_buffer \<Rightarrow> bool" where
  "rb_valid rb \<longleftrightarrow> rb_store rb \<noteq> None"

definition rb_init :: "bytes option \<Rightarrow> u32 \<Rightarrow> ring_buffer \<Rightarrow> bool \<times> ring_buffer" where
  "rb_init storage capacity rb =
     (if storage = None \<or> capacity < 2 \<or> capacity > 0x80000000 \<or> \<not> is_power_of_two capacity
      then (False, rb\<lparr>rb_store := None, rb_cap := 0, rb_mask := 0\<rparr>)
      else (True, rb\<lparr>rb_store := storage, rb_cap := capacity, rb_mask := capacity - 1,
        rb_head := 0, rb_tail := 0, rb_drops := 0, rb_bytes_dropped := 0, rb_high_water := 0\<rparr>))"

definition rb_reset :: "ring_buffer \<Rightarrow> ring_buffer" where
  "rb_reset rb = rb\<lparr>rb_head := 0, rb_tail := 0, rb_drops := 0, rb_bytes_dropped := 0,
     rb_high_water := 0\<rparr>"

definition rb_used :: "ring_buffer \<Rightarrow> u32" where
  "rb_used rb = rb_head rb - rb_tail rb"

definition rb_space :: "ring_buffer \<Rightarrow> u32" where
  "rb_space rb = rb_cap rb - rb_used rb"

text \<open>The copy in \<^verbatim>\<open>push\<close>: up to the end of the storage, and the rest from its start.\<close>

definition rb_write :: "ring_buffer \<Rightarrow> bytes \<Rightarrow> u32 \<Rightarrow> bytes option" where
  "rb_write rb src len = do {
     st \<leftarrow> rb_store rb;
     let offset = rb_head rb AND rb_mask rb;
     let first = (if rb_cap rb - offset > len then len else rb_cap rb - offset);
     part1 \<leftarrow> slice src 0 (unat first);
     st \<leftarrow> copy_bytes st (unat offset) part1;
     if len > first then do {
       part2 \<leftarrow> slice src (unat first) (unat (len - first));
       copy_bytes st 0 part2
     } else Some st
   }"

definition rb_push :: "bytes option \<Rightarrow> u32 \<Rightarrow> ring_buffer \<Rightarrow> (bool \<times> ring_buffer) option" where
  "rb_push data len rb =
     (if \<not> rb_valid rb then Some (False, rb)
      else if len = 0 then Some (True, rb)
      else case data of
        None \<Rightarrow> Some (False, rb)
      | Some src \<Rightarrow>
          if len > rb_space rb then
            Some (False, rb\<lparr>rb_drops := rb_drops rb + 1,
              rb_bytes_dropped := rb_bytes_dropped rb + ucast len\<rparr>)
          else do {
            st \<leftarrow> rb_write rb src len;
            let rb' = rb\<lparr>rb_store := Some st, rb_head := rb_head rb + len\<rparr>;
            Some (True, if rb_used rb' > rb_high_water rb'
              then rb'\<lparr>rb_high_water := rb_used rb'\<rparr> else rb')
          })"

text \<open>
  \<^verbatim>\<open>peek\<close> reports a length and stores a pointer into the ring, here the bytes it points at
  (\<^term>\<open>None\<close> is the null pointer). The argument says whether \<^verbatim>\<open>out\<close> is a non-null pointer.
\<close>

definition rb_peek :: "bool \<Rightarrow> ring_buffer \<Rightarrow> (u32 \<times> bytes option) option" where
  "rb_peek out rb =
     (if \<not> out then Some (0, None)
      else
        let filled = rb_used rb in
        if \<not> rb_valid rb \<or> filled = 0 then Some (0, None)
        else
          let offset = rb_tail rb AND rb_mask rb;
              contiguous = (if rb_cap rb - offset > filled then filled else rb_cap rb - offset)
          in do {
            st \<leftarrow> rb_store rb;
            view \<leftarrow> slice st (unat offset) (unat contiguous);
            Some (contiguous, Some view)
          })"

definition rb_consume :: "u32 \<Rightarrow> ring_buffer \<Rightarrow> bool \<times> ring_buffer" where
  "rb_consume len rb =
     (if len > rb_used rb then (False, rb)
      else (True, rb\<lparr>rb_tail := rb_tail rb + len\<rparr>))"

section \<open>Invariant and abstraction\<close>

definition rb_inv :: "ring_buffer \<Rightarrow> bool" where
  "rb_inv rb \<longleftrightarrow> (case rb_store rb of
      None \<Rightarrow> True
    | Some st \<Rightarrow> (\<exists>k. 1 \<le> k \<and> k \<le> 31 \<and> rb_cap rb = 2 ^ k) \<and> rb_mask rb = rb_cap rb - 1 \<and>
        unat (rb_cap rb) \<le> length st \<and> rb_used rb \<le> rb_cap rb \<and>
        rb_used rb \<le> rb_high_water rb \<and> rb_high_water rb \<le> rb_cap rb)"

definition rb_contents :: "ring_buffer \<Rightarrow> bytes" where
  "rb_contents rb = (case rb_store rb of
      None \<Rightarrow> []
    | Some st \<Rightarrow> map (\<lambda>i. st ! ((unat (rb_tail rb) + i) mod unat (rb_cap rb))) [0..<unat (rb_used rb)])"

lemma power_two_bits: "is_power_of_two c \<Longrightarrow> \<exists>k. c = 2 ^ k"
proof -
  assume p: "is_power_of_two c"
  then have "1 \<le> unat c" by (simp add: is_power_of_two_def unat_gt_0 Suc_le_eq)
  then obtain k where k: "2 ^ k \<le> unat c" "unat c < 2 ^ (k + 1)"
    using ex_power_ivl1 [of 2 "unat c"] by auto
  have top: "bit n k" if "2 ^ k \<le> n" "n < 2 ^ (k + 1)" for n :: nat
  proof -
    have "n div 2 ^ k = 1" using that by (intro div_nat_eqI) auto
    then show ?thesis by (simp add: bit_iff_odd)
  qed
  have "unat c = 2 ^ k"
  proof (rule ccontr)
    assume "unat c \<noteq> 2 ^ k"
    with k have "2 ^ k \<le> unat c - 1" "unat c - 1 < 2 ^ (k + 1)" by auto
    then have "bit (unat c) k" "bit (unat c - 1) k" using k top by auto
    moreover have "unat (c - 1) = unat c - 1"
      using \<open>1 \<le> unat c\<close> by (simp add: unat_sub word_le_nat_alt)
    ultimately have "bit (c AND (c - 1)) k"
      by (metis bit_and_iff bit_unsigned_iff)
    with p show False by (simp add: is_power_of_two_def)
  qed
  then have "c = 2 ^ k" by (metis of_nat_unat of_nat_power of_nat_numeral ucast_id)
  then show ?thesis ..
qed

lemma unat_pow2: "k \<le> 31 \<Longrightarrow> unat (2 ^ k :: u32) = 2 ^ k"
  using unsigned_push_bit_eq [of k "1 :: u32", where ?'a = nat]
  by (simp add: push_bit_eq_mult take_bit_nat_eq_self)

lemma capacity_pow2:
  "(\<exists>k. 1 \<le> k \<and> k \<le> 31 \<and> c = 2 ^ k) \<longleftrightarrow> 2 \<le> c \<and> c \<le> 0x80000000 \<and> is_power_of_two c"
proof
  assume "\<exists>k. 1 \<le> k \<and> k \<le> 31 \<and> c = 2 ^ k"
  then obtain k where k: "1 \<le> k" "k \<le> 31" "c = 2 ^ k" by blast
  have "(2 :: nat) ^ 1 \<le> 2 ^ k" "(2 :: nat) ^ k \<le> 2 ^ 31"
    using k by (intro power_increasing; simp)+
  then have "2 \<le> c" "c \<le> 0x80000000" using k unat_pow2 by (simp_all add: word_le_nat_alt)
  moreover have "c AND (c - 1) = 0"
    unfolding k(3) mask_eq_exp_minus_1 [symmetric]
    by (rule bit_word_eqI) (auto simp: bit_simps)
  ultimately show "2 \<le> c \<and> c \<le> 0x80000000 \<and> is_power_of_two c"
    by (auto simp: is_power_of_two_def)
next
  assume c: "2 \<le> c \<and> c \<le> 0x80000000 \<and> is_power_of_two c"
  then obtain k where k: "c = 2 ^ k" using power_two_bits by blast
  have "k \<noteq> 0" using c k by (cases k) (auto simp: word_le_nat_alt)
  moreover have "\<not> 32 \<le> k"
    using c k exp_eq_zero_iff [of k, where ?'a = 32] by (auto simp: is_power_of_two_def)
  ultimately show "\<exists>k. 1 \<le> k \<and> k \<le> 31 \<and> c = 2 ^ k" using k by (intro exI [of _ k]) auto
qed

lemma unat_and_mask: "k \<le> 31 \<Longrightarrow> unat ((w :: u32) AND (2 ^ k - 1)) = unat w mod 2 ^ k"
  by (metis mask_eq_exp_minus_1 take_bit_eq_mask take_bit_eq_mod unsigned_take_bit_eq)

text \<open>Modular distance from a cell to the write index.\<close>

lemma mod_distance:
  assumes "u \<le> c" "0 < (c :: nat)"
  shows "((t + i) mod c + c - (t + u) mod c) mod c = (i + c - u) mod c"
proof -
  have "int (((t + i) mod c + c - (t + u) mod c) mod c)
      = (int ((t + i) mod c) + int c - int ((t + u) mod c)) mod int c"
    using mod_less_divisor [OF assms(2), of "t + u"]
    by (simp add: zmod_int of_nat_diff less_imp_le trans_le_add2)
  also have "\<dots> = (int (t + i) mod int c + int c - int (t + u)) mod int c"
    by (simp only: zmod_int mod_diff_right_eq)
  also have "\<dots> = (int (t + i) + (int c - int (t + u))) mod int c"
    using mod_add_left_eq [of "int (t + i)" "int c" "int c - int (t + u)"]
    by (simp only: add_diff_eq)
  also have "\<dots> = int ((i + c - u) mod c)"
    using assms by (simp add: zmod_int of_nat_diff trans_le_add2 add_diff_eq)
  finally show ?thesis by simp
qed

section \<open>What the copy does to the storage\<close>

lemma nth_wrapped_copy:
  assumes oc: "o' < c" and cl: "c \<le> length st" and n: "n \<le> c" "n \<le> length src" and f: "f = min n (c - o')"
    and j: "j < c"
  shows "(if f < n then splice (splice st o' (take f src)) 0 (drop f (take n src)) else splice st o' (take f src)) ! j =
    (let m = (j + c - o') mod c in if m < n then src ! m else st ! j)"
proof -
  define m where "m = (j + c - o') mod c"
  have m: "m = (if o' \<le> j then j - o' else j + c - o')" using j oc by (auto simp: m_def mod_if)
  let ?st1 = "splice st o' (take f src)"
  have len1: "length ?st1 = length st" using f oc cl n by simp
  have cell1: "?st1 ! j = (if o' \<le> j \<and> j < o' + f then src ! (j - o') else st ! j)"
    using j f oc cl n by (subst nth_splice) (auto intro!: nth_take)
  have "(if f < n then splice ?st1 0 (drop f (take n src)) else ?st1) ! j = (if m < n then src ! m else st ! j)"
  proof (cases "f < n \<and> j < n - f")
    case True
    then have "splice ?st1 0 (drop f (take n src)) ! j = src ! (f + j)"
      using len1 n cl j by (simp add: nth_splice) (rule nth_take, linarith)
    moreover have "m = f + j" "f + j < n" using True f m n oc by auto
    ultimately show ?thesis using True by simp
  next
    case False
    then have "(if f < n then splice ?st1 0 (drop f (take n src)) else ?st1) ! j = ?st1 ! j"
      using len1 n cl j by (auto simp: nth_splice)
    then show ?thesis using cell1 False f m n j oc by auto
  qed
  then show ?thesis by (simp add: m_def Let_def)
qed

lemma rb_write_cells:
  assumes st: "rb_store rb = Some st" and inv: "rb_inv rb"
    and len: "unat len \<le> length src" "len \<le> rb_space rb"
  shows "\<exists>st'. rb_write rb src len = Some st' \<and> length st' = length st \<and>
    (\<forall>j < unat (rb_cap rb). st' ! j =
      (let m = (j + unat (rb_cap rb) - unat (rb_head rb) mod unat (rb_cap rb)) mod unat (rb_cap rb)
       in if m < unat len then src ! m else st ! j))"
proof -
  obtain k where k: "1 \<le> k" "k \<le> 31" "rb_cap rb = 2 ^ k" and mask: "rb_mask rb = rb_cap rb - 1"
    and cl: "unat (rb_cap rb) \<le> length st" and uc: "rb_used rb \<le> rb_cap rb"
    using inv st by (auto simp: rb_inv_def)
  define c where "c = unat (rb_cap rb)"
  define o' where "o' = unat (rb_head rb) mod c"
  have c: "c = 2 ^ k" using k unat_pow2 c_def by simp
  then have oc: "o' < c" by (simp add: o'_def)
  have off: "unat (rb_head rb AND rb_mask rb) = o'"
    using k mask c by (simp add: unat_and_mask o'_def)
  have room: "unat (rb_cap rb - (rb_head rb AND rb_mask rb)) = c - o'"
    using off oc by (simp add: unat_sub_if' c_def)
  have lc: "unat len \<le> c"
    using len(2) uc by (simp add: rb_space_def word_le_nat_alt unat_sub_if' c_def)
  define f where "f = (if rb_cap rb - (rb_head rb AND rb_mask rb) > len then len
    else rb_cap rb - (rb_head rb AND rb_mask rb))"
  have f: "unat f = min (unat len) (c - o')"
    using room by (auto simp: f_def word_less_nat_alt)
  have f_le: "f \<le> len" using f by (simp add: word_le_nat_alt)
  define st1 where "st1 = splice st o' (take (unat f) src)"
  have fs: "unat f \<le> length src" using f len(1) by simp
  have copy1: "copy_bytes st o' (take (unat f) src) = Some st1"
    using f oc cl fs by (simp add: copy_bytes_Some st1_def c_def)
  have len1: "length st1 = length st"
    using f oc cl fs by (simp add: st1_def c_def)
  define p2 where "p2 = take (unat (len - f)) (drop (unat f) src)"
  have lf: "unat (len - f) = unat len - unat f"
    using f_le by (simp add: unat_sub_if' word_le_nat_alt)
  have len2: "length p2 = unat len - unat f"
    using len(1) f by (simp add: p2_def lf)
  define st' where "st' = (if f < len then splice st1 0 p2 else st1)"
  have copy2: "f < len \<Longrightarrow> copy_bytes st1 0 p2 = Some st'"
    using len2 lc cl len1 by (simp add: copy_bytes_Some st'_def c_def)
  have "rb_write rb src len = Some st'"
    using st copy1 copy2 fs len(1) lf
    by (auto simp: rb_write_def Let_def off f_def [symmetric] p2_def st'_def)
  moreover have "length st' = length st"
    using len1 len2 lc cl by (simp add: st'_def c_def)
  moreover have "st' ! j = (let m = (j + c - o') mod c in if m < unat len then src ! m else st ! j)"
    if j: "j < c" for j
  proof -
    have "st' = (if min (unat len) (c - o') < unat len
        then splice (splice st o' (take (min (unat len) (c - o')) src)) 0 (drop (min (unat len) (c - o')) (take (unat len) src))
        else splice st o' (take (min (unat len) (c - o')) src))"
      by (auto simp: st'_def st1_def p2_def lf f drop_take word_less_nat_alt)
    then show ?thesis using nth_wrapped_copy [OF oc _ lc len(1) refl j, of st] cl by (simp add: c_def Let_def)
  qed
  ultimately show ?thesis by (auto simp: c_def o'_def)
qed

section \<open>Each operation against the list of waiting bytes\<close>

lemma rb_inv_used:
  assumes "rb_inv rb" "rb_store rb = Some st"
  shows "unat (rb_used rb) \<le> unat (rb_cap rb)" "0 < unat (rb_cap rb)"
    "unat (rb_space rb) = unat (rb_cap rb) - unat (rb_used rb)" "unat (rb_cap rb) \<le> 2147483648"
proof -
  obtain k where k: "1 \<le> k" "k \<le> 31" "rb_cap rb = 2 ^ k" and u: "rb_used rb \<le> rb_cap rb"
    using assms by (auto simp: rb_inv_def)
  show "unat (rb_used rb) \<le> unat (rb_cap rb)" using u by (simp add: word_le_nat_alt)
  show "0 < unat (rb_cap rb)" using k unat_pow2 by simp
  show "unat (rb_space rb) = unat (rb_cap rb) - unat (rb_used rb)"
    using u by (simp add: rb_space_def unat_sub_if' word_le_nat_alt)
  have "(2 :: nat) ^ k \<le> 2 ^ 31" using k by (intro power_increasing) auto
  then show "unat (rb_cap rb) \<le> 2147483648" using k unat_pow2 by simp
qed

lemma length_rb_contents: "rb_store rb = Some st \<Longrightarrow> length (rb_contents rb) = unat (rb_used rb)"
  by (simp add: rb_contents_def)

text \<open>The write index is the read index plus the occupancy, modulo any power-of-two capacity.\<close>

lemma rb_head_mod:
  assumes "rb_inv rb" "rb_store rb = Some st"
  shows "unat (rb_head rb) mod unat (rb_cap rb)
    = (unat (rb_tail rb) + unat (rb_used rb)) mod unat (rb_cap rb)"
proof -
  obtain k where k: "k \<le> 31" "rb_cap rb = 2 ^ k" using assms by (auto simp: rb_inv_def)
  have "rb_head rb = rb_tail rb + rb_used rb" by (simp add: rb_used_def)
  then have "unat (rb_head rb) = (unat (rb_tail rb) + unat (rb_used rb)) mod 2 ^ 32"
    by (simp add: unat_word_ariths)
  moreover have "(2 :: nat) ^ k dvd 2 ^ 32" using k by (intro le_imp_power_dvd) simp
  ultimately show ?thesis using k unat_pow2 by (simp add: mod_mod_cancel)
qed

text \<open>Reading back from the old tail gives the old bytes and then the new ones.\<close>

lemma rb_contents_written:
  assumes inv: "rb_inv rb" and st: "rb_store rb = Some st"
    and rb': "rb_store rb' = Some st'" "rb_cap rb' = rb_cap rb" "rb_tail rb' = rb_tail rb"
      "rb_used rb' = rb_used rb + len"
    and used: "unat (rb_used rb + len) = unat (rb_used rb) + unat len"
      "unat (rb_used rb) + unat len \<le> unat (rb_cap rb)" and len: "unat len \<le> length src"
    and cells: "\<And>j. j < unat (rb_cap rb) \<Longrightarrow> st' ! j =
      (let m = (j + unat (rb_cap rb) - unat (rb_head rb) mod unat (rb_cap rb)) mod unat (rb_cap rb)
       in if m < unat len then src ! m else st ! j)"
  shows "rb_contents rb' = rb_contents rb @ take (unat len) src"
proof (rule nth_equalityI)
  let ?c = "unat (rb_cap rb)" and ?t = "unat (rb_tail rb)" and ?u = "unat (rb_used rb)"
  note u_le = rb_inv_used [OF inv st]
  show "length (rb_contents rb') = length (rb_contents rb @ take (unat len) src)"
    using len st used(1) by (simp add: rb_contents_def rb')
  fix i assume "i < length (rb_contents rb')"
  then have i: "i < ?u + unat len" by (simp add: rb_contents_def rb' used(1))
  have m: "((?t + i) mod ?c + ?c - unat (rb_head rb) mod ?c) mod ?c = (i + ?c - ?u) mod ?c"
    using mod_distance [OF u_le(1,2), of ?t i] rb_head_mod [OF inv st] by simp
  have "rb_contents rb' ! i = st' ! ((?t + i) mod ?c)"
    using i by (simp add: rb_contents_def rb' used(1))
  also have "\<dots> = (let m = (i + ?c - ?u) mod ?c in if m < unat len then src ! m else st ! ((?t + i) mod ?c))"
    using cells [of "(?t + i) mod ?c"] m u_le(2) by simp
  also have "\<dots> = (if i < ?u then st ! ((?t + i) mod ?c) else src ! (i - ?u))"
  proof (cases "i < ?u")
    case True
    then have "(i + ?c - ?u) mod ?c = i + ?c - ?u" using u_le by simp
    moreover have "\<not> i + ?c - ?u < unat len" using used(2) by linarith
    ultimately show ?thesis using True by (simp add: Let_def)
  next
    case False
    then have "(i + ?c - ?u) mod ?c = i - ?u" using i used(2) u_le by (simp add: mod_if)
    moreover have "i - ?u < unat len" using False i by linarith
    ultimately show ?thesis using False by (simp add: Let_def)
  qed
  also have "\<dots> = (rb_contents rb @ take (unat len) src) ! i"
    using st i by (auto simp: nth_append rb_contents_def)
  finally show "rb_contents rb' ! i = (rb_contents rb @ take (unat len) src) ! i" .
qed

lemma rb_push_accept:
  assumes inv: "rb_inv rb" and st: "rb_store rb = Some st"
    and len: "len \<noteq> 0" "unat len \<le> length src" "len \<le> rb_space rb"
  shows "\<exists>rb'. rb_push (Some src) len rb = Some (True, rb') \<and> rb_inv rb' \<and> rb_valid rb' \<and>
    rb_contents rb' = rb_contents rb @ take (unat len) src \<and> rb_cap rb' = rb_cap rb \<and>
    rb_tail rb' = rb_tail rb \<and> rb_drops rb' = rb_drops rb \<and>
    rb_bytes_dropped rb' = rb_bytes_dropped rb \<and>
    rb_high_water rb' = max (rb_high_water rb) (rb_used rb + len)"
proof -
  define c where "c = unat (rb_cap rb)"
  define u where "u = unat (rb_used rb)"
  note u_le = rb_inv_used [OF inv st, folded c_def u_def]
  obtain st' where st': "rb_write rb src len = Some st'" "length st' = length st"
    and cells: "\<And>j. j < c \<Longrightarrow> st' ! j =
      (let m = (j + c - unat (rb_head rb) mod c) mod c in if m < unat len then src ! m else st ! j)"
    using rb_write_cells [OF st inv len(2,3)] by (auto simp: c_def)
  have ul: "u + unat len \<le> c" using len(3) u_le by (simp add: word_le_nat_alt)
  then have used': "unat (rb_used rb + len) = u + unat len"
    using u_le(4) unfolding u_def by (intro unat_add_no_wrap) simp
  define rb1 where "rb1 = rb\<lparr>rb_store := Some st', rb_head := rb_head rb + len\<rparr>"
  have ru1: "rb_used rb1 = rb_used rb + len" by (simp add: rb1_def rb_used_def)
  define rb' where "rb' = (if rb_used rb1 > rb_high_water rb1
    then rb1\<lparr>rb_high_water := rb_used rb1\<rparr> else rb1)"
  have fields: "rb_store rb' = Some st'" "rb_cap rb' = rb_cap rb" "rb_tail rb' = rb_tail rb"
    "rb_mask rb' = rb_mask rb" "rb_head rb' = rb_head rb + len" "rb_drops rb' = rb_drops rb"
    "rb_bytes_dropped rb' = rb_bytes_dropped rb"
    by (auto simp: rb'_def rb1_def)
  have hw: "rb_high_water rb' = max (rb_high_water rb) (rb_used rb + len)"
    by (auto simp: rb'_def ru1 max_def not_le) (auto simp: rb1_def)
  have ru: "rb_used rb' = rb_used rb + len"
    by (simp add: rb_used_def fields)
  have push: "rb_push (Some src) len rb = Some (True, rb')"
    using st len st'(1)
    by (auto simp: rb_push_def rb_valid_def Let_def rb'_def rb1_def)
  have "rb_used rb + len \<le> rb_cap rb" using ul used' by (simp add: word_le_nat_alt c_def)
  then have inv': "rb_inv rb'"
    using inv st by (auto simp: rb_inv_def fields st'(2) ru hw le_max_iff_disj)
  have "rb_contents rb' = rb_contents rb @ take (unat len) src"
    by (rule rb_contents_written [OF inv st fields(1-3) ru])
      (use cells ul used' len(2) in \<open>auto simp: c_def u_def\<close>)
  with push inv' fields hw show ?thesis by (auto simp: rb_valid_def)
qed

lemma rb_push_reject:
  assumes "rb_valid rb" "len > rb_space rb" "len \<noteq> 0"
  shows "rb_push (Some src) len rb = Some (False, rb\<lparr>rb_drops := rb_drops rb + 1,
    rb_bytes_dropped := rb_bytes_dropped rb + ucast len\<rparr>)"
  using assms by (simp add: rb_push_def)

lemma rb_drop_counters [simp]:
  "rb_inv (rb\<lparr>rb_drops := d, rb_bytes_dropped := b\<rparr>) = rb_inv rb"
  "rb_contents (rb\<lparr>rb_drops := d, rb_bytes_dropped := b\<rparr>) = rb_contents rb"
  "rb_valid (rb\<lparr>rb_drops := d, rb_bytes_dropped := b\<rparr>) = rb_valid rb"
  by (auto simp: rb_inv_def rb_contents_def rb_valid_def rb_used_def split: option.splits)

lemma rb_peek_law:
  assumes inv: "rb_inv rb" and st: "rb_store rb = Some st"
  shows "\<exists>n v. rb_peek True rb = Some (n, v) \<and> (n = 0 \<longleftrightarrow> rb_contents rb = []) \<and>
    unat n \<le> length (rb_contents rb) \<and>
    (n \<noteq> 0 \<longrightarrow> v = Some (take (unat n) (rb_contents rb)))"
proof (cases "rb_used rb = 0")
  case True
  then show ?thesis using st by (simp add: rb_peek_def Let_def rb_contents_def)
next
  case False
  define c where "c = unat (rb_cap rb)"
  define t where "t = unat (rb_tail rb)"
  note u_le = rb_inv_used [OF inv st, folded c_def]
  obtain k where k: "1 \<le> k" "k \<le> 31" "rb_cap rb = 2 ^ k" and mask: "rb_mask rb = rb_cap rb - 1"
    and cl: "c \<le> length st" using inv st by (auto simp: rb_inv_def c_def)
  have off: "unat (rb_tail rb AND rb_mask rb) = t mod c"
    using k mask unat_pow2 by (simp add: unat_and_mask c_def t_def)
  have tc: "t mod c < c" using u_le(2) by simp
  have room: "unat (rb_cap rb - (rb_tail rb AND rb_mask rb)) = c - t mod c"
    using off tc by (simp add: unat_sub_if' c_def)
  define n where "n = (if rb_cap rb - (rb_tail rb AND rb_mask rb) > rb_used rb then rb_used rb
    else rb_cap rb - (rb_tail rb AND rb_mask rb))"
  have n: "unat n = min (unat (rb_used rb)) (c - t mod c)"
    using room by (auto simp: n_def word_less_nat_alt)
  have "rb_peek True rb = Some (n, Some (take (unat n) (drop (t mod c) st)))"
    using False st off n cl tc
    by (simp add: rb_peek_def Let_def n_def [symmetric] rb_valid_def)
  moreover have "take (unat n) (drop (t mod c) st) = take (unat n) (rb_contents rb)"
  proof (rule nth_equalityI)
    show "length (take (unat n) (drop (t mod c) st)) = length (take (unat n) (rb_contents rb))"
      using n cl st by (auto simp: length_rb_contents)
    fix i assume "i < length (take (unat n) (drop (t mod c) st))"
    then have i: "i < unat (rb_used rb)" "i < c - t mod c" using n by auto
    have "(t + i) mod c = t mod c + i"
      using i(2) by (metis add.commute less_diff_conv mod_add_left_eq mod_less)
    then show "take (unat n) (drop (t mod c) st) ! i = take (unat n) (rb_contents rb) ! i"
      using i n cl st by (simp add: rb_contents_def t_def c_def)
  qed
  moreover have "n \<noteq> 0"
    using n False tc by (metis diff_is_0_eq leD min_def unat_0 unat_eq_zero)
  moreover have "rb_contents rb \<noteq> []" "unat n \<le> length (rb_contents rb)"
    using length_rb_contents [OF st] False n by (auto simp: unat_eq_zero)
  ultimately show ?thesis by auto
qed

lemma rb_consume_law:
  assumes inv: "rb_inv rb" and st: "rb_store rb = Some st" and n: "n \<le> rb_used rb"
  shows "\<exists>rb'. rb_consume n rb = (True, rb') \<and> rb_inv rb' \<and> rb_valid rb' \<and>
    rb_contents rb' = drop (unat n) (rb_contents rb) \<and> rb_cap rb' = rb_cap rb \<and>
    rb_drops rb' = rb_drops rb \<and> rb_bytes_dropped rb' = rb_bytes_dropped rb \<and>
    rb_high_water rb' = rb_high_water rb"
proof -
  define c where "c = unat (rb_cap rb)"
  define rb' where "rb' = rb\<lparr>rb_tail := rb_tail rb + n\<rparr>"
  obtain k where k: "k \<le> 31" "rb_cap rb = 2 ^ k" using inv st by (auto simp: rb_inv_def)
  have used: "rb_used rb' = rb_used rb - n" by (simp add: rb'_def rb_used_def)
  have un: "unat (rb_used rb - n) = unat (rb_used rb) - unat n"
    using n by (simp add: unat_sub_if' word_le_nat_alt)
  have cd: "c dvd 2 ^ 32"
    using k unat_pow2 le_imp_power_dvd [of k 32 "2 :: nat"] by (simp add: c_def)
  have tail: "(unat (rb_tail rb + n) + i) mod c = (unat (rb_tail rb) + (unat n + i)) mod c" for i
    using cd by (simp add: unat_word_ariths mod_mod_cancel add.assoc
      mod_add_left_eq [of "_ mod 2 ^ 32", symmetric]) (metis mod_add_left_eq mod_mod_cancel cd add.assoc)
  have "rb_contents rb' = drop (unat n) (rb_contents rb)"
    using st tail by (intro nth_equalityI) (auto simp: rb_contents_def rb'_def used [unfolded rb'_def] un c_def [symmetric])
  moreover have "rb_used rb' \<le> rb_cap rb" "rb_used rb' \<le> rb_high_water rb"
    using inv st un used by (auto simp: rb_inv_def word_le_nat_alt)
  then have "rb_inv rb'" using inv st by (auto simp: rb_inv_def rb'_def)
  ultimately show ?thesis using n st by (auto simp: rb_consume_def rb'_def rb_valid_def)
qed

section \<open>The queue as an interface\<close>

text \<open>
  What a drain loop relies on: pushes append or change nothing, the view is a prefix of what
  is waiting and is empty only when nothing is, and consuming removes exactly that many bytes.
\<close>

locale byte_fifo =
  fixes push :: "bytes \<Rightarrow> 'q \<Rightarrow> (bool \<times> 'q) option"
    and peek :: "'q \<Rightarrow> (u32 \<times> bytes option) option"
    and consume :: "u32 \<Rightarrow> 'q \<Rightarrow> bool \<times> 'q"
    and contents :: "'q \<Rightarrow> bytes" and inv :: "'q \<Rightarrow> bool"
  assumes push_law: "inv q \<Longrightarrow> length bs < 4294967296 \<Longrightarrow>
      \<exists>ok q'. push bs q = Some (ok, q') \<and> inv q' \<and>
        contents q' = (if ok then contents q @ bs else contents q)"
    and peek_law: "inv q \<Longrightarrow> \<exists>n v. peek q = Some (n, v) \<and> (n = 0 \<longleftrightarrow> contents q = []) \<and>
      unat n \<le> length (contents q) \<and> (n \<noteq> 0 \<longrightarrow> v = Some (take (unat n) (contents q)))"
    and consume_law: "inv q \<Longrightarrow> unat n \<le> length (contents q) \<Longrightarrow>
      \<exists>q'. consume n q = (True, q') \<and> inv q' \<and> contents q' = drop (unat n) (contents q)"
begin

lemma peek_Some:
  assumes "inv q" "peek q = Some (n, v)"
  shows "(n = 0) = (contents q = [])" "unat n \<le> length (contents q)"
    "n \<noteq> 0 \<Longrightarrow> v = Some (take (unat n) (contents q))"
  using peek_law [OF assms(1)] assms(2) by auto

lemma peek_not_None: "inv q \<Longrightarrow> \<exists>n v. peek q = Some (n, v)"
  using peek_law by blast

text \<open>Peeking and then releasing part of the view hands out exactly the front of the queue.\<close>

lemma drain_step:
  assumes "inv q" "peek q = Some (n, v)" "k \<le> n" "n \<noteq> 0"
  shows "\<exists>q' w. consume k q = (True, q') \<and> inv q' \<and> v = Some w \<and> length w = unat n \<and>
    contents q = take (unat k) w @ contents q'"
proof -
  note p = peek_Some [OF assms(1,2)]
  have kn: "unat k \<le> unat n" using assms(3) by (simp add: word_le_nat_alt)
  then obtain q' where "consume k q = (True, q')" "inv q'" "contents q' = drop (unat k) (contents q)"
    using consume_law [OF assms(1), of k] p(2) by auto
  with p assms(4) kn show ?thesis by (auto simp: min_def)
qed

end

definition rb_ready :: "ring_buffer \<Rightarrow> bool" where
  "rb_ready rb \<longleftrightarrow> rb_inv rb \<and> rb_valid rb"

definition rb_push_list :: "bytes \<Rightarrow> ring_buffer \<Rightarrow> (bool \<times> ring_buffer) option" where
  "rb_push_list bs = rb_push (Some bs) (of_nat (length bs))"

lemma rb_readyE:
  assumes "rb_ready rb" obtains st where "rb_inv rb" "rb_store rb = Some st"
  using assms by (auto simp: rb_ready_def rb_valid_def)

lemma rb_push_list_cases:
  assumes "rb_ready rb" "length bs < 4294967296"
  shows "\<exists>ok rb'. rb_push_list bs rb = Some (ok, rb') \<and> rb_ready rb' \<and> rb_cap rb' = rb_cap rb \<and>
    (ok \<longleftrightarrow> length (rb_contents rb) + length bs \<le> unat (rb_cap rb)) \<and>
    rb_contents rb' = (if ok then rb_contents rb @ bs else rb_contents rb) \<and>
    rb_drops rb' = (if ok then rb_drops rb else rb_drops rb + 1) \<and>
    rb_bytes_dropped rb' = (if ok then rb_bytes_dropped rb
      else rb_bytes_dropped rb + of_nat (length bs)) \<and>
    unat (rb_high_water rb') =
      (if ok then max (unat (rb_high_water rb)) (length (rb_contents rb')) else unat (rb_high_water rb))"
proof -
  obtain st where inv: "rb_inv rb" and st: "rb_store rb = Some st" using assms(1) by (rule rb_readyE)
  note u = rb_inv_used [OF inv st] and lc = length_rb_contents [OF st]
  have n: "unat (of_nat (length bs) :: u32) = length bs" using assms(2) by simp
  have hw: "rb_used rb \<le> rb_high_water rb" using inv st by (simp add: rb_inv_def)
  have fit: "of_nat (length bs) \<le> rb_space rb \<longleftrightarrow> length (rb_contents rb) + length bs \<le> unat (rb_cap rb)"
    using u n lc by (simp add: word_le_nat_alt) arith
  consider "bs = []" | "bs \<noteq> []" "of_nat (length bs) \<le> rb_space rb"
    | "bs \<noteq> []" "of_nat (length bs) > rb_space rb" by fastforce
  then show ?thesis
  proof cases
    case 1
    then show ?thesis
      using assms(1) u lc hw
      by (auto simp: rb_push_list_def rb_push_def rb_ready_def word_le_nat_alt)
  next
    case 2
    then have nz: "(of_nat (length bs) :: u32) \<noteq> 0" using n by (metis length_0_conv unat_0)
    obtain rb' where rb': "rb_push (Some bs) (of_nat (length bs)) rb = Some (True, rb')" "rb_inv rb'"
      "rb_valid rb'" "rb_contents rb' = rb_contents rb @ bs" "rb_cap rb' = rb_cap rb"
      "rb_drops rb' = rb_drops rb" "rb_bytes_dropped rb' = rb_bytes_dropped rb"
      "rb_high_water rb' = max (rb_high_water rb) (rb_used rb + of_nat (length bs))"
      using rb_push_accept [OF inv st nz, of bs] n 2(2) by auto
    have "unat (rb_used rb + of_nat (length bs)) = unat (rb_used rb) + length bs"
      using u n fit 2(2) lc by (subst unat_add_no_wrap) auto
    then have "unat (rb_high_water rb') = max (unat (rb_high_water rb)) (length (rb_contents rb'))"
      using rb'(4,8) lc by (auto simp: max_def word_le_nat_alt)
    with rb' fit 2 show ?thesis by (auto simp: rb_push_list_def rb_ready_def)
  next
    case 3
    then have nz: "(of_nat (length bs) :: u32) \<noteq> 0" using n by (metis length_0_conv unat_0)
    have "rb_push_list bs rb = Some (False, rb\<lparr>rb_drops := rb_drops rb + 1,
        rb_bytes_dropped := rb_bytes_dropped rb + of_nat (length bs)\<rparr>)"
      using rb_push_reject [OF _ 3(2) nz, of bs] st assms(2)
      by (simp add: rb_push_list_def rb_valid_def)
    with assms(1) fit 3 show ?thesis by (auto simp: rb_ready_def not_le [symmetric])
  qed
qed

interpretation ring: byte_fifo rb_push_list "rb_peek True" rb_consume rb_contents rb_ready
proof unfold_locales
  fix q and bs :: bytes assume "rb_ready q" "length bs < (4294967296 :: nat)"
  then show "\<exists>ok q'. rb_push_list bs q = Some (ok, q') \<and> rb_ready q' \<and>
      rb_contents q' = (if ok then rb_contents q @ bs else rb_contents q)"
    using rb_push_list_cases by blast
next
  fix q assume "rb_ready q"
  then show "\<exists>n v. rb_peek True q = Some (n, v) \<and> (n = 0 \<longleftrightarrow> rb_contents q = []) \<and>
      unat n \<le> length (rb_contents q) \<and> (n \<noteq> 0 \<longrightarrow> v = Some (take (unat n) (rb_contents q)))"
    using rb_peek_law by (auto elim!: rb_readyE)
next
  fix q and n :: u32 assume r: "rb_ready q" and n: "unat n \<le> length (rb_contents q)"
  from r obtain st where "rb_inv q" "rb_store q = Some st" by (rule rb_readyE)
  with n rb_consume_law [of q st n]
  show "\<exists>q'. rb_consume n q = (True, q') \<and> rb_ready q' \<and> rb_contents q' = drop (unat n) (rb_contents q)"
    by (auto simp: length_rb_contents word_le_nat_alt rb_ready_def)
qed

lemma rb_init_ready:
  assumes "2 \<le> capacity" "capacity \<le> 0x80000000" "is_power_of_two capacity" "unat capacity \<le> length st"
  shows "\<exists>rb'. rb_init (Some st) capacity rb = (True, rb') \<and> rb_ready rb' \<and> rb_contents rb' = [] \<and>
    rb_cap rb' = capacity \<and> rb_drops rb' = 0"
proof -
  have "\<exists>k. 1 \<le> k \<and> k \<le> 31 \<and> capacity = 2 ^ k" using capacity_pow2 assms(1-3) by blast
  with assms show ?thesis
    by (auto simp: rb_init_def rb_ready_def rb_inv_def rb_valid_def rb_used_def rb_contents_def)
qed

section \<open>The specification: a bounded queue of bytes\<close>

record byte_queue =
  bq_bytes :: bytes
  bq_cap :: nat

definition bq_push :: "bytes \<Rightarrow> byte_queue \<Rightarrow> bool \<times> byte_queue" where
  "bq_push bs q =
     (if length (bq_bytes q) + length bs \<le> bq_cap q
      then (True, q\<lparr>bq_bytes := bq_bytes q @ bs\<rparr>) else (False, q))"

definition bq_consume :: "nat \<Rightarrow> byte_queue \<Rightarrow> bool \<times> byte_queue" where
  "bq_consume n q =
     (if n \<le> length (bq_bytes q) then (True, q\<lparr>bq_bytes := drop n (bq_bytes q)\<rparr>) else (False, q))"

definition rb_abs :: "ring_buffer \<Rightarrow> byte_queue" where
  "rb_abs rb = \<lparr>bq_bytes = rb_contents rb, bq_cap = unat (rb_cap rb)\<rparr>"

section \<open>Traffic\<close>

text \<open>
  A whole life of the buffer: pushes, and drains that look at the view and release at most
  a budget of it. The result collects the bytes accepted and the bytes handed out.
\<close>

datatype ring_op = Push bytes | Drain u32

fun rb_traffic :: "ring_op list \<Rightarrow> ring_buffer \<Rightarrow> (bytes \<times> bytes \<times> ring_buffer) option" where
  "rb_traffic [] rb = Some ([], [], rb)"
| "rb_traffic (Push bs # ops) rb = do {
     (ok, rb1) \<leftarrow> rb_push_list bs rb;
     (acc, out, rb2) \<leftarrow> rb_traffic ops rb1;
     Some (if ok then bs @ acc else acc, out, rb2)
   }"
| "rb_traffic (Drain budget # ops) rb = do {
     (n, view) \<leftarrow> rb_peek True rb;
     let k = min budget n;
     (acc, out, rb2) \<leftarrow> rb_traffic ops (snd (rb_consume k rb));
     Some (acc, (case view of None \<Rightarrow> [] | Some w \<Rightarrow> take (unat k) w) @ out, rb2)
   }"

fun ring_op_ok :: "ring_op \<Rightarrow> bool" where
  "ring_op_ok (Push bs) = (length bs < 4294967296)"
| "ring_op_ok (Drain _) = True"

section \<open>Properties\<close>

text \<open>
  C18. Configuration: \<^verbatim>\<open>init\<close> succeeds exactly for non-null storage and a power of two between
  2 and \<^verbatim>\<open>2^31\<close>; then the buffer is empty and ready. Otherwise it is left unusable:
  every push is refused and the reader sees nothing.
\<close>

theorem rb_init_correct:
  assumes "\<And>st. storage = Some st \<Longrightarrow> unat capacity \<le> length st"
  shows "case rb_init storage capacity rb of (ok, rb') \<Rightarrow>
    (ok \<longleftrightarrow> storage \<noteq> None \<and> (\<exists>k. 1 \<le> k \<and> k \<le> 31 \<and> capacity = 2 ^ k)) \<and>
    (if ok then rb_ready rb' \<and> rb_contents rb' = [] \<and> rb_cap rb' = capacity
     else rb_push (Some bs) len rb' = Some (False, rb') \<and> rb_peek True rb' = Some (0, None))"
proof -
  have pow: "(\<exists>k. 1 \<le> k \<and> k \<le> 31 \<and> capacity = 2 ^ k) \<longleftrightarrow>
      2 \<le> capacity \<and> capacity \<le> 0x80000000 \<and> is_power_of_two capacity"
    by (rule capacity_pow2)
  then show ?thesis
    using assms
    by (auto simp: rb_init_def rb_ready_def rb_inv_def rb_valid_def rb_used_def rb_contents_def
      rb_push_def rb_peek_def)
qed

theorem rb_init_correct_witness:
  "case rb_init (Some [1, 2, 3, 4, 5, 6, 7, 8]) 8 rb_new of (ok, rb') \<Rightarrow>
    (ok \<longleftrightarrow> Some [1, 2, 3, 4, 5, 6, 7, 8 :: u8] \<noteq> None \<and> (\<exists>k. 1 \<le> k \<and> k \<le> 31 \<and> (8 :: u32) = 2 ^ k)) \<and>
    (if ok then rb_ready rb' \<and> rb_contents rb' = [] \<and> rb_cap rb' = 8
     else rb_push (Some [7]) 1 rb' = Some (False, rb') \<and> rb_peek True rb' = Some (0, None))"
  by (rule rb_init_correct) auto

text \<open>
  C11. Refinement of \<^verbatim>\<open>push\<close>: on a ready buffer it never touches memory outside the storage,
  and it is the push of a bounded queue, all of the bytes or none of them; a refusal only
  counts the drop and its bytes.
\<close>

theorem rb_push_refines:
  assumes "rb_ready rb" "length bs < 4294967296"
  shows "\<exists>ok rb'. rb_push (Some bs) (of_nat (length bs)) rb = Some (ok, rb') \<and> rb_ready rb' \<and>
    (ok, rb_abs rb') = bq_push bs (rb_abs rb) \<and>
    (ok \<longrightarrow> rb_drops rb' = rb_drops rb \<and> rb_bytes_dropped rb' = rb_bytes_dropped rb) \<and>
    (\<not> ok \<longrightarrow> rb_drops rb' = rb_drops rb + 1 \<and>
      rb_bytes_dropped rb' = rb_bytes_dropped rb + of_nat (length bs))"
  using rb_push_list_cases [OF assms]
  by (auto simp: rb_push_list_def rb_abs_def bq_push_def)

theorem rb_push_refines_witness:
  "\<exists>ok rb'. rb_push (Some [7, 8, 9]) 3
       (snd (rb_init (Some [0, 0, 0, 0]) 4 rb_new)) = Some (ok, rb') \<and> rb_ready rb'"
proof -
  have "rb_ready (snd (rb_init (Some [0, 0, 0, 0]) 4 rb_new))"
    by (auto simp: rb_init_def rb_new_def rb_ready_def rb_inv_def rb_valid_def rb_used_def
      is_power_of_two_def intro!: exI [of _ 2])
  from rb_push_refines [OF this, of "[7, 8, 9]"] show ?thesis by auto
qed



text \<open>
  C10. First in, first out, across any number of index wrap-arounds: whatever sequence of
  pushes and partial drains runs, no access leaves the storage, and the bytes waiting at the
  start followed by those accepted are the bytes handed out followed by those still waiting.
\<close>

theorem rb_traffic_fifo:
  assumes "rb_ready rb" "list_all ring_op_ok ops"
  shows "\<exists>acc out rb'. rb_traffic ops rb = Some (acc, out, rb') \<and> rb_ready rb' \<and>
    rb_contents rb @ acc = out @ rb_contents rb'"
  using assms
proof (induction ops arbitrary: rb)
  case Nil
  then show ?case by simp
next
  case (Cons op ops)
  show ?case
  proof (cases op)
    case (Push bs)
    with Cons.prems ring.push_law [of rb bs] obtain ok rb1 where p: "rb_push_list bs rb = Some (ok, rb1)"
      "rb_ready rb1" "rb_contents rb1 = (if ok then rb_contents rb @ bs else rb_contents rb)" by auto
    with Cons.IH [of rb1] Cons.prems Push show ?thesis by auto
  next
    case (Drain budget)
    obtain n v where pk: "rb_peek True rb = Some (n, v)"
      using ring.peek_not_None Cons.prems(1) by blast
    show ?thesis
    proof (cases "n = 0")
      case True
      then have "snd (rb_consume (min budget n) rb) = rb"
        by (simp add: rb_consume_def min_def)
      moreover have "(case v of None \<Rightarrow> [] | Some w \<Rightarrow> take (unat (min budget n)) w) = []"
        using True by (auto simp: min_def split: option.split)
      ultimately show ?thesis using Cons.IH [of rb] Cons.prems Drain pk by auto
    next
      case False
      from ring.drain_step [OF Cons.prems(1) pk _ False, of "min budget n"]
      obtain rb1 w where "rb_consume (min budget n) rb = (True, rb1)" "rb_ready rb1" "v = Some w"
        "rb_contents rb = take (unat (min budget n)) w @ rb_contents rb1" by auto
      with Cons.IH [of rb1] Cons.prems Drain pk show ?thesis by auto
    qed
  qed
qed

theorem rb_traffic_fifo_witness:
  "\<exists>acc out rb'. rb_traffic [Push [1, 2, 3], Drain 2, Push [4, 5], Drain 9]
       (snd (rb_init (Some [0, 0, 0, 0]) 4 rb_new)) = Some (acc, out, rb') \<and>
     acc = out @ rb_contents rb'"
proof -
  have r: "rb_ready (snd (rb_init (Some [0, 0, 0, 0]) 4 rb_new))"
    by (auto simp: rb_init_def rb_new_def rb_ready_def rb_inv_def rb_valid_def rb_used_def
      is_power_of_two_def intro!: exI [of _ 2])
  have e: "rb_contents (snd (rb_init (Some [0, 0, 0, 0]) 4 rb_new)) = []"
    by (simp add: rb_init_def rb_new_def rb_contents_def rb_used_def is_power_of_two_def)
  show ?thesis using rb_traffic_fifo [OF r, of "[Push [1, 2, 3], Drain 2, Push [4, 5], Drain 9]"] e
    by auto
qed

end
