(* ===== verification/Trace.thy ===== *)
theory Trace
  imports Prelude Crc32 Varint
begin

text \<open>
  The trace format, \<^verbatim>\<open>core/include/rewind/trace.h\<close>: its constants, header and events, and
  little-endian access to bytes; then the format as the header comment describes it, as
  functions from events to bytes, which is what the writer is proved to emit and the reader
  to invert.
\<close>

section \<open>Constants and records\<close>

definition kTraceMagic :: u32 where "kTraceMagic = 0x444E5752"
definition kTraceVersion :: u16 where "kTraceVersion = 3"
definition kTraceMinVersion :: u16 where "kTraceMinVersion = 2"
definition kTraceHeaderSize :: u32 where "kTraceHeaderSize = 32"
definition kBlockOverhead :: u32 where "kBlockOverhead = 12"
definition kFlagRecordWrites :: u16 where "kFlagRecordWrites = 1"
definition kMaxEventBytes :: nat where "kMaxEventBytes = 1 + 3 * kVarintMaxBytes"

datatype event_type = EV_MMIO_READ | EV_MMIO_WRITE | EV_IRQ_ENTER | EV_STOP | EV_IRQ_AT

fun ev_code :: "event_type \<Rightarrow> u8" where
  "ev_code EV_MMIO_READ = 1"
| "ev_code EV_MMIO_WRITE = 2"
| "ev_code EV_IRQ_ENTER = 3"
| "ev_code EV_STOP = 4"
| "ev_code EV_IRQ_AT = 5"

record trace_header =
  h_magic :: u32
  h_version :: u16
  h_flags :: u16
  h_build_id :: u64
  h_seed :: u64

record event =
  ev_type :: u8
  ev_ts :: u64
  ev_addr :: u32
  ev_value :: u32

section \<open>Little-endian bytes\<close>

definition put_u16_le :: "u16 \<Rightarrow> bytes" where
  "put_u16_le v = [ucast (v AND 0xFF), ucast (drop_bit 8 v AND 0xFF)]"

definition put_u32_le :: "u32 \<Rightarrow> bytes" where
  "put_u32_le v = [ucast (v AND 0xFF), ucast (drop_bit 8 v AND 0xFF),
     ucast (drop_bit 16 v AND 0xFF), ucast (drop_bit 24 v AND 0xFF)]"

definition put_u64_le :: "u64 \<Rightarrow> bytes" where
  "put_u64_le v = put_u32_le (ucast (v AND 0xFFFFFFFF)) @
     put_u32_le (ucast (drop_bit 32 v AND 0xFFFFFFFF))"

definition get_u16_le :: "bytes \<Rightarrow> nat \<Rightarrow> u16 option" where
  "get_u16_le p off = do {
     b0 \<leftarrow> rd p off;
     b1 \<leftarrow> rd p (off + 1);
     Some (ucast b0 OR push_bit 8 (ucast b1))
   }"

definition get_u32_le :: "bytes \<Rightarrow> nat \<Rightarrow> u32 option" where
  "get_u32_le p off = do {
     b0 \<leftarrow> rd p off;
     b1 \<leftarrow> rd p (off + 1);
     b2 \<leftarrow> rd p (off + 2);
     b3 \<leftarrow> rd p (off + 3);
     Some (ucast b0 OR push_bit 8 (ucast b1) OR push_bit 16 (ucast b2) OR push_bit 24 (ucast b3))
   }"

definition get_u64_le :: "bytes \<Rightarrow> nat \<Rightarrow> u64 option" where
  "get_u64_le p off = do {
     lo \<leftarrow> get_u32_le p off;
     hi \<leftarrow> get_u32_le p (off + 4);
     Some (ucast lo OR push_bit 32 (ucast hi))
   }"

lemma length_put_le [simp]:
  "length (put_u16_le a) = 2" "length (put_u32_le b) = 4" "length (put_u64_le c) = 8"
  by (simp_all add: put_u16_le_def put_u32_le_def put_u64_le_def)

text \<open>A read that stays in the buffer is defined, whatever the bytes are.\<close>

lemma get_le_defined:
  "off + 2 \<le> length p \<Longrightarrow> \<exists>v. get_u16_le p off = Some v"
  "off + 4 \<le> length p \<Longrightarrow> \<exists>w. get_u32_le p off = Some w"
  "off + 8 \<le> length p \<Longrightarrow> \<exists>x. get_u64_le p off = Some x"
  by (simp_all add: get_u16_le_def get_u32_le_def get_u64_le_def)

lemma mask_literals:
  "(0xFF :: 'a :: len word) = mask 8" "(0xFFFFFFFF :: 'a :: len word) = mask 32"
  by (simp_all add: mask_eq_exp_minus_1)

lemma u16_bytes:
  "ucast (ucast (v AND 0xFF) :: u8) OR push_bit 8 (ucast (ucast (drop_bit 8 v AND 0xFF) :: u8))
    = (v :: u16)"
  by (rule bit_word_eqI) (auto simp: bit_simps mask_literals)

lemma u32_bytes:
  "ucast (ucast (v AND 0xFF) :: u8) OR push_bit 8 (ucast (ucast (drop_bit 8 v AND 0xFF) :: u8))
    OR push_bit 16 (ucast (ucast (drop_bit 16 v AND 0xFF) :: u8))
    OR push_bit 24 (ucast (ucast (drop_bit 24 v AND 0xFF) :: u8)) = (v :: u32)"
  (is "?l = v")
proof (rule bit_word_eqI)
  fix n assume n: "n < LENGTH(32)"
  then consider "n < 8" | "8 \<le> n" "n < 16" | "16 \<le> n" "n < 24" | "24 \<le> n" "n < 32"
    by fastforce
  then show "bit ?l n = bit v n"
    by cases (simp_all add: bit_simps mask_literals le_add_diff_inverse less_diff_conv2)
qed

lemma u64_words:
  "ucast (ucast (v AND 0xFFFFFFFF) :: u32)
    OR push_bit 32 (ucast (ucast (drop_bit 32 v AND 0xFFFFFFFF) :: u32)) = (v :: u64)"
  by (rule bit_word_eqI) (auto simp: bit_simps mask_literals)

lemma rd_drop: "rd (drop i xs) j = rd xs (i + j)"
  by (auto simp: rd_def)

lemma get_le_drop:
  "get_u16_le xs i = get_u16_le (drop i xs) 0"
  "get_u32_le xs i = get_u32_le (drop i xs) 0"
  "get_u64_le xs i = get_u64_le (drop i xs) 0"
  by (simp_all add: get_u16_le_def get_u32_le_def get_u64_le_def rd_drop ac_simps)

lemma get_le_Cons:
  "get_u16_le (a # b # r) 0 = Some (ucast a OR push_bit 8 (ucast b))"
  "get_u32_le (a # b # c # d # r) 0 =
     Some (ucast a OR push_bit 8 (ucast b) OR push_bit 16 (ucast c) OR push_bit 24 (ucast d))"
  by (simp_all add: get_u16_le_def get_u32_le_def rd_def)

lemma get_put_u16: "get_u16_le (xs @ put_u16_le v @ ys) (length xs) = Some v"
  by (subst get_le_drop) (simp add: put_u16_le_def get_le_Cons u16_bytes)

lemma get_put_u32: "get_u32_le (xs @ put_u32_le v @ ys) (length xs) = Some v"
  using u32_bytes [of v] by (subst get_le_drop) (simp add: put_u32_le_def get_le_Cons)

lemma get_put_u64: "get_u64_le (xs @ put_u64_le v @ ys) (length xs) = Some v"
proof -
  obtain lo hi where w: "put_u64_le v = put_u32_le lo @ put_u32_le hi"
    "ucast lo OR push_bit 32 (ucast hi) = v"
    using u64_words [of v] by (simp add: put_u64_le_def)
  show ?thesis
    using get_put_u32 [of xs lo "put_u32_le hi @ ys"] get_put_u32 [of "xs @ put_u32_le lo" hi ys]
    by (simp add: get_u64_le_def w)
qed

text \<open>The same facts at an offset known only by its value.\<close>

lemma get_put_at:
  "off = length xs \<Longrightarrow> get_u16_le (xs @ put_u16_le a @ ys) off = Some a"
  "off = length xs \<Longrightarrow> get_u32_le (xs @ put_u32_le b @ ys) off = Some b"
  "off = length xs \<Longrightarrow> get_u64_le (xs @ put_u64_le c @ ys) off = Some c"
  by (simp_all add: get_put_u16 get_put_u32 get_put_u64)

lemma put_u32_inj: "put_u32_le a = put_u32_le b \<longleftrightarrow> a = b"
  by (metis get_put_u32 option.inject)

text \<open>Any four bytes are the bytes of some word.\<close>

lemma put_u32_bytes:
  "put_u32_le (ucast a OR push_bit 8 (ucast b) OR push_bit 16 (ucast c) OR push_bit 24 (ucast d)) = [a, b, c, d]"
proof -
  have "ucast ((ucast a OR push_bit 8 (ucast b) OR push_bit 16 (ucast c) OR push_bit 24 (ucast d)) AND 0xFF :: u32) = a"
    "ucast (drop_bit 8 (ucast a OR push_bit 8 (ucast b) OR push_bit 16 (ucast c) OR push_bit 24 (ucast d)) AND 0xFF :: u32) = b"
    "ucast (drop_bit 16 (ucast a OR push_bit 8 (ucast b) OR push_bit 16 (ucast c) OR push_bit 24 (ucast d)) AND 0xFF :: u32) = c"
    "ucast (drop_bit 24 (ucast a OR push_bit 8 (ucast b) OR push_bit 16 (ucast c) OR push_bit 24 (ucast d)) AND 0xFF :: u32) = d"
    by ((intro conjI)?; rule bit_word_eqI; simp add: bit_simps mask_literals;
      auto simp: less_diff_conv2)+
  then show ?thesis by (simp add: put_u32_le_def)
qed

lemma four_bytes:
  assumes "4 \<le> length bs"
  obtains v where "bs = put_u32_le v @ drop 4 bs"
proof -
  obtain a b c d r where "bs = a # b # c # d # r"
    using assms by (auto simp: numeral_eq_Suc Suc_le_length_iff)
  then show thesis
    by (intro that) (simp add: put_u32_bytes [symmetric])
qed

section \<open>The format: events to bytes\<close>

text \<open>
  The encoder's memory between events is the previous timestamp and the previous MMIO
  address; an interrupt or stop leaves the address alone.
\<close>

type_synonym predictor = "u64 \<times> u32"

definition is_mmio :: "event \<Rightarrow> bool" where
  "is_mmio e \<longleftrightarrow> ev_type e = ev_code EV_MMIO_READ \<or> ev_type e = ev_code EV_MMIO_WRITE"

definition is_irq :: "event \<Rightarrow> bool" where
  "is_irq e \<longleftrightarrow> ev_type e = ev_code EV_IRQ_ENTER \<or> ev_type e = ev_code EV_IRQ_AT"

definition next_pred :: "predictor \<Rightarrow> event \<Rightarrow> predictor" where
  "next_pred p e = (ev_ts e, if is_mmio e then ev_addr e else snd p)"

definition addr_delta :: "u32 \<Rightarrow> u32 \<Rightarrow> i64" where
  "addr_delta prev addr = uint addr - uint prev"

definition enc_event :: "predictor \<Rightarrow> event \<Rightarrow> bytes" where
  "enc_event p e = ev_type e # varint_encode (ev_ts e - fst p) @
     (if is_mmio e then
        varint_encode (the (zigzag_encode (addr_delta (snd p) (ev_addr e)))) @
        varint_encode (ucast (ev_value e))
      else if ev_type e = ev_code EV_IRQ_ENTER then varint_encode (ucast (ev_addr e))
      else if ev_type e = ev_code EV_IRQ_AT then
        varint_encode (ucast (ev_addr e)) @ varint_encode (ucast (ev_value e))
      else [])"

fun enc_events :: "predictor \<Rightarrow> event list \<Rightarrow> bytes" where
  "enc_events p [] = []"
| "enc_events p (e # es) = enc_event p e @ enc_events (next_pred p e) es"

definition preds :: "predictor \<Rightarrow> event list \<Rightarrow> predictor" where
  "preds p es = foldl next_pred p es"

text \<open>The events the format can carry: a known type, and zero in the fields it has no room for.\<close>

definition ev_ok :: "event \<Rightarrow> bool" where
  "ev_ok e \<longleftrightarrow> is_mmio e \<or> ev_type e = ev_code EV_IRQ_AT \<or>
     (ev_type e = ev_code EV_IRQ_ENTER \<and> ev_value e = 0) \<or>
     (ev_type e = ev_code EV_STOP \<and> ev_addr e = 0 \<and> ev_value e = 0)"

definition frame :: "u32 \<Rightarrow> bytes \<Rightarrow> bytes" where
  "frame seq payload = put_u32_le (of_nat (length payload)) @ put_u32_le seq @ payload @
     put_u32_le (crc32 (put_u32_le seq @ payload))"

definition header_bytes :: "u64 \<Rightarrow> u64 \<Rightarrow> u16 \<Rightarrow> bytes" where
  "header_bytes build_id seed flags = put_u32_le kTraceMagic @ put_u16_le kTraceVersion @
     put_u16_le flags @ put_u64_le build_id @ put_u64_le seed @ replicate 8 0"

text \<open>
  A recording is the sequence of its blocks, each with the events in it and whether the sink
  took it. A refused block uses up its sequence number and leaves nothing behind.
\<close>

type_synonym history = "(event list \<times> bool) list"

definition hist_events :: "history \<Rightarrow> event list" where
  "hist_events h = concat (map fst h)"

fun frames_of :: "nat \<Rightarrow> predictor \<Rightarrow> history \<Rightarrow> bytes" where
  "frames_of n p [] = []"
| "frames_of n p ((es, taken) # h) =
     (if taken then frame (of_nat n) (enc_events p es) else []) @
     frames_of (Suc n) (preds p es) h"

lemma length_frame [simp]: "length (frame seq payload) = length payload + 12"
  by (simp add: frame_def)

lemma length_header_bytes [simp]: "length (header_bytes b s f) = 32"
  by (simp add: header_bytes_def)

lemma preds_simps [simp]:
  "preds p [] = p" "preds p (e # es) = preds (next_pred p e) es"
  "preds p (es @ fs) = preds (preds p es) fs"
  by (simp_all add: preds_def)

lemma hist_events_simps [simp]:
  "hist_events [] = []" "hist_events (b # h) = fst b @ hist_events h"
  "hist_events (h @ k) = hist_events h @ hist_events k"
  by (simp_all add: hist_events_def)

lemma enc_events_append: "enc_events p (es @ fs) = enc_events p es @ enc_events (preds p es) fs"
  by (induction p es rule: enc_events.induct) simp_all

lemma frames_of_append:
  "frames_of n p (h @ k) = frames_of n p h @ frames_of (n + length h) (preds p (hist_events h)) k"
  by (induction n p h rule: frames_of.induct) simp_all

lemma enc_event_nonempty [simp]: "enc_event p e \<noteq> []"
  by (simp add: enc_event_def)

lemma enc_events_eq_Nil [simp]: "enc_events p es = [] \<longleftrightarrow> es = []"
  by (cases es) simp_all

lemma length_enc_event: "length (enc_event p e) \<le> kMaxEventBytes"
proof -
  note b = length_varint_encode_bounds(2)
  show ?thesis
    using b [of "ev_ts e - fst p"] b [of "the (zigzag_encode (addr_delta (snd p) (ev_addr e)))"]
      b [of "ucast (ev_value e)"] b [of "ucast (ev_addr e)"]
    by (simp add: enc_event_def kMaxEventBytes_def kVarintMaxBytes_def)
qed

lemma addr_delta_range: "i64_range (addr_delta a b)"
proof -
  have "0 \<le> x \<Longrightarrow> x < 4294967296 \<Longrightarrow> 0 \<le> y \<Longrightarrow> y < 4294967296 \<Longrightarrow> i64_range (y - x)" for x y
    by (simp add: i64_range_def)
  then show ?thesis using uint_u32_bounds by (simp add: addr_delta_def)
qed

end
