(* ===== verification/Trace_Writer.thy ===== *)
theory Trace_Writer
  imports Trace
begin

text \<open>
  The writer, \<^verbatim>\<open>core/src/trace_writer.cpp\<close>: events are staged into the caller's block buffer
  and each finished block goes to the sink in one call.

  A function pointer is a value of a type of code addresses, \<^verbatim>\<open>'k\<close> here, and the code
  it designates is an argument of the model: \<^verbatim>\<open>sinks k\<close> is the sink function at address
  \<^verbatim>\<open>k\<close> applied to its context pointer. A sink may read and change everything outside the
  writer, which is the state \<^verbatim>\<open>'s\<close>. The writer never reads its own context pointer, so
  the pair of sink and context is one address.
\<close>

section \<open>State\<close>

record 'k trace_writer =
  tw_sink :: "'k option"
  tw_buf :: "bytes option"
  tw_cap :: u32
  tw_used :: u32
  tw_last_ts :: u64
  tw_last_addr :: u32
  tw_block_seq :: u32
  tw_blocks_lost :: u32
  tw_events :: u32
  tw_bytes :: u64
  tw_flags :: u16
  tw_ok :: bool
  tw_started :: bool
  tw_finished :: bool
  tw_err :: "string option"

type_synonym ('k, 's) sinks = "'k \<Rightarrow> bytes \<Rightarrow> 's \<Rightarrow> (bool \<times> 's) option"

definition kMinBlockBuffer :: u32 where
  "kMinBlockBuffer = 64"

definition tw_new :: "'k trace_writer" where
  "tw_new = \<lparr>tw_sink = None, tw_buf = None, tw_cap = 0, tw_used = 0, tw_last_ts = 0,
     tw_last_addr = 0, tw_block_seq = 0, tw_blocks_lost = 0, tw_events = 0, tw_bytes = 0,
     tw_flags = 0, tw_ok = False, tw_started = False, tw_finished = False, tw_err = None\<rparr>"

section \<open>Operations\<close>

definition tw_payload_cap :: "'k trace_writer \<Rightarrow> u32" where
  "tw_payload_cap tw = tw_cap tw - kBlockOverhead"

definition tw_fail :: "string \<Rightarrow> 'k trace_writer \<Rightarrow> 'k trace_writer" where
  "tw_fail why tw =
     tw\<lparr>tw_err := (if tw_err tw = None then Some why else tw_err tw), tw_ok := False\<rparr>"

definition tw_error :: "'k trace_writer \<Rightarrow> string" where
  "tw_error tw = (case tw_err tw of None \<Rightarrow> '''' | Some why \<Rightarrow> why)"

definition tw_emit ::
  "('k, 's) sinks \<Rightarrow> bytes \<Rightarrow> 'k trace_writer \<Rightarrow> 's \<Rightarrow> (bool \<times> 'k trace_writer \<times> 's) option" where
  "tw_emit sinks data tw s = do {
     k \<leftarrow> tw_sink tw;
     (taken, s') \<leftarrow> sinks k data s;
     if \<not> taken then Some (False, tw_fail ''sink rejected data'' tw, s')
     else Some (True, tw\<lparr>tw_bytes := tw_bytes tw + of_nat (length data)\<rparr>, s')
   }"

definition tw_begin ::
  "('k, 's) sinks \<Rightarrow> 'k option \<Rightarrow> bytes option \<Rightarrow> u32 \<Rightarrow> u64 \<Rightarrow> u64 \<Rightarrow> u16 \<Rightarrow>
   'k trace_writer \<Rightarrow> 's \<Rightarrow> (bool \<times> 'k trace_writer \<times> 's) option" where
  "tw_begin sinks sink buffer buf_len build_id seed flags tw s =
     (if tw_started tw then Some (False, tw_fail ''begin() called twice'' tw, s)
      else if sink = None \<or> buffer = None then Some (False, tw_fail ''null sink or buffer'' tw, s)
      else if buf_len < kMinBlockBuffer then
        Some (False, tw_fail ''block buffer smaller than kMinBlockBuffer'' tw, s)
      else
        let tw' = tw\<lparr>tw_sink := sink, tw_buf := buffer, tw_cap := buf_len, tw_used := 0,
              tw_last_ts := 0, tw_last_addr := 0, tw_block_seq := 0, tw_blocks_lost := 0,
              tw_events := 0, tw_bytes := 0, tw_flags := flags, tw_ok := True,
              tw_started := True\<rparr>;
            header = replicate (unat kTraceHeaderSize) 0
        in do {
          header \<leftarrow> copy_bytes header 0 (put_u32_le kTraceMagic);
          header \<leftarrow> copy_bytes header 4 (put_u16_le kTraceVersion);
          header \<leftarrow> copy_bytes header 6 (put_u16_le flags);
          header \<leftarrow> copy_bytes header 8 (put_u64_le build_id);
          header \<leftarrow> copy_bytes header 16 (put_u64_le seed);
          tw_emit sinks header tw' s
        })"

definition tw_flush_block ::
  "('k, 's) sinks \<Rightarrow> 'k trace_writer \<Rightarrow> 's \<Rightarrow> ('k trace_writer \<times> 's) option" where
  "tw_flush_block sinks tw s =
     (if tw_used tw = 0 then Some (tw, s)
      else do {
        buf \<leftarrow> tw_buf tw;
        buf \<leftarrow> copy_bytes buf 0 (put_u32_le (tw_used tw));
        buf \<leftarrow> copy_bytes buf 4 (put_u32_le (tw_block_seq tw));
        body \<leftarrow> slice buf 4 (unat (4 + tw_used tw));
        let crc = crc32 body;
        buf \<leftarrow> copy_bytes buf (8 + unat (tw_used tw)) (put_u32_le crc);
        let total = kBlockOverhead + tw_used tw;
        block \<leftarrow> slice buf 0 (unat total);
        k \<leftarrow> tw_sink tw;
        (taken, s') \<leftarrow> sinks k block s;
        let tw' = (if taken then tw\<lparr>tw_bytes := tw_bytes tw + ucast total\<rparr>
                   else tw\<lparr>tw_blocks_lost := tw_blocks_lost tw + 1\<rparr>);
        Some (tw'\<lparr>tw_buf := Some buf, tw_block_seq := tw_block_seq tw' + 1, tw_used := 0\<rparr>, s')
      })"

definition tw_stage ::
  "('k, 's) sinks \<Rightarrow> bytes \<Rightarrow> 'k trace_writer \<Rightarrow> 's \<Rightarrow> (bool \<times> 'k trace_writer \<times> 's) option" where
  "tw_stage sinks bs tw s = (let n = of_nat (length bs) in do {
     (tw1, s1) \<leftarrow> (if tw_used tw + n > tw_payload_cap tw then tw_flush_block sinks tw s
                  else Some (tw, s));
     buf \<leftarrow> tw_buf tw1;
     buf \<leftarrow> copy_bytes buf (unat (8 + tw_used tw1)) bs;
     Some (True, tw1\<lparr>tw_buf := Some buf, tw_used := tw_used tw1 + n,
       tw_events := tw_events tw1 + 1\<rparr>, s1)
   })"

text \<open>The local array \<^verbatim>\<open>scratch\<close> holds \<^verbatim>\<open>kMaxEventBytes\<close>; filling it beyond that is undefined.\<close>

definition scratch_chk :: "bytes \<Rightarrow> bytes option" where
  "scratch_chk bs = (if length bs \<le> kMaxEventBytes then Some bs else None)"

definition tw_write_mmio ::
  "('k, 's) sinks \<Rightarrow> u8 \<Rightarrow> u64 \<Rightarrow> u32 \<Rightarrow> u32 \<Rightarrow> 'k trace_writer \<Rightarrow> 's \<Rightarrow>
   (bool \<times> 'k trace_writer \<times> 's) option" where
  "tw_write_mmio sinks type ts addr val tw s =
     (if \<not> tw_ok tw \<or> \<not> tw_started tw \<or> tw_finished tw then Some (False, tw, s)
      else if ts < tw_last_ts tw then Some (False, tw_fail ''non-monotonic timestamp'' tw, s)
      else do {
        delta_addr \<leftarrow> i64_sub (i64_of_u32 addr) (i64_of_u32 (tw_last_addr tw));
        zz \<leftarrow> zigzag_encode delta_addr;
        scratch \<leftarrow> scratch_chk (type # varint_encode (ts - tw_last_ts tw) @
          varint_encode zz @ varint_encode (ucast val));
        (staged, tw1, s1) \<leftarrow> tw_stage sinks scratch tw s;
        if \<not> staged then Some (False, tw1, s1)
        else Some (True, tw1\<lparr>tw_last_ts := ts, tw_last_addr := addr\<rparr>, s1)
      })"

definition opt_varint :: "u32 option \<Rightarrow> bytes" where
  "opt_varint a = (case a of None \<Rightarrow> [] | Some v \<Rightarrow> varint_encode (ucast v))"

definition tw_write_plain ::
  "('k, 's) sinks \<Rightarrow> u8 \<Rightarrow> u64 \<Rightarrow> u32 option \<Rightarrow> u32 option \<Rightarrow> 'k trace_writer \<Rightarrow> 's \<Rightarrow>
   (bool \<times> 'k trace_writer \<times> 's) option" where
  "tw_write_plain sinks type ts arg arg2 tw s =
     (if \<not> tw_ok tw \<or> \<not> tw_started tw \<or> tw_finished tw then Some (False, tw, s)
      else if ts < tw_last_ts tw then Some (False, tw_fail ''non-monotonic timestamp'' tw, s)
      else do {
        scratch \<leftarrow> scratch_chk (type # varint_encode (ts - tw_last_ts tw) @
          opt_varint arg @ opt_varint arg2);
        (staged, tw1, s1) \<leftarrow> tw_stage sinks scratch tw s;
        if \<not> staged then Some (False, tw1, s1)
        else Some (True, tw1\<lparr>tw_last_ts := ts\<rparr>, s1)
      })"

definition tw_mmio_read ::
  "('k, 's) sinks \<Rightarrow> u64 \<Rightarrow> u32 \<Rightarrow> u32 \<Rightarrow> 'k trace_writer \<Rightarrow> 's \<Rightarrow>
   (bool \<times> 'k trace_writer \<times> 's) option" where
  "tw_mmio_read sinks ts addr val tw s = tw_write_mmio sinks (ev_code EV_MMIO_READ) ts addr val tw s"

definition tw_mmio_write ::
  "('k, 's) sinks \<Rightarrow> u64 \<Rightarrow> u32 \<Rightarrow> u32 \<Rightarrow> 'k trace_writer \<Rightarrow> 's \<Rightarrow>
   (bool \<times> 'k trace_writer \<times> 's) option" where
  "tw_mmio_write sinks ts addr val tw s =
     (if tw_flags tw AND kFlagRecordWrites = 0 then Some (tw_ok tw, tw, s)
      else tw_write_mmio sinks (ev_code EV_MMIO_WRITE) ts addr val tw s)"

definition tw_irq_enter ::
  "('k, 's) sinks \<Rightarrow> u64 \<Rightarrow> u32 \<Rightarrow> 'k trace_writer \<Rightarrow> 's \<Rightarrow>
   (bool \<times> 'k trace_writer \<times> 's) option" where
  "tw_irq_enter sinks ts vector tw s =
     tw_write_plain sinks (ev_code EV_IRQ_ENTER) ts (Some vector) None tw s"

definition tw_irq_enter_at ::
  "('k, 's) sinks \<Rightarrow> u64 \<Rightarrow> u32 \<Rightarrow> u32 \<Rightarrow> 'k trace_writer \<Rightarrow> 's \<Rightarrow>
   (bool \<times> 'k trace_writer \<times> 's) option" where
  "tw_irq_enter_at sinks ts vector return_pc tw s =
     tw_write_plain sinks (ev_code EV_IRQ_AT) ts (Some vector) (Some return_pc) tw s"

definition tw_finish ::
  "('k, 's) sinks \<Rightarrow> u64 \<Rightarrow> 'k trace_writer \<Rightarrow> 's \<Rightarrow> (bool \<times> 'k trace_writer \<times> 's) option" where
  "tw_finish sinks ts tw s =
     (if \<not> tw_started tw \<or> tw_finished tw then Some (False, tw, s)
      else do {
        (tw1, s1) \<leftarrow> (if tw_ok tw then do {
            (_, tw1, s1) \<leftarrow> tw_write_plain sinks (ev_code EV_STOP) ts None None tw s;
            Some (tw1, s1)
          } else Some (tw, s));
        (tw2, s2) \<leftarrow> (if tw_ok tw1 then tw_flush_block sinks tw1 s1 else Some (tw1, s1));
        (tw3, s3) \<leftarrow> (if tw_ok tw2 then do {
            (_, tw3, s3) \<leftarrow> tw_emit sinks (put_u32_le 0) tw2 s2;
            Some (tw3, s3)
          } else Some (tw2, s2));
        Some (tw_ok tw3, tw3\<lparr>tw_finished := True\<rparr>, s3)
      })"

section \<open>The sink as an interface\<close>

text \<open>
  What the writer asks of a sink: it takes a chunk whole or not at all. \<^verbatim>\<open>emitted\<close> is
  the byte stream the sink has taken so far; a sink that is not \<^verbatim>\<open>lossy\<close> takes everything.
\<close>

locale block_sink =
  fixes sinks :: "('k, 's) sinks" and k :: 'k
    and emitted :: "'s \<Rightarrow> bytes" and sink_inv :: "'s \<Rightarrow> bool" and lossy :: bool
  assumes sink_law: "sink_inv s \<Longrightarrow> length data < 4294967296 \<Longrightarrow>
    \<exists>taken s'. sinks k data s = Some (taken, s') \<and> (taken \<or> lossy) \<and> sink_inv s' \<and>
      emitted s' = emitted s @ (if taken then data else [])"

section \<open>The writer's invariant\<close>

text \<open>
  \<^verbatim>\<open>tw_rel k lossy hist cur tw\<close>: the writer is armed with sink \<^verbatim>\<open>k\<close>, has cut the blocks
  \<^verbatim>\<open>hist\<close>, and holds the events \<^verbatim>\<open>cur\<close> in its buffer, encoded against everything
  recorded before them; a sink that is not \<^verbatim>\<open>lossy\<close> took them all. The bound on the capacity is the code's: past it \<^verbatim>\<open>used_ + n\<close> can wrap.
\<close>

definition tw_rel :: "'k \<Rightarrow> bool \<Rightarrow> history \<Rightarrow> event list \<Rightarrow> 'k trace_writer \<Rightarrow> bool" where
  "tw_rel k lossy hist cur tw \<longleftrightarrow>
     tw_sink tw = Some k \<and> tw_started tw \<and> kMinBlockBuffer \<le> tw_cap tw \<and>
     unat (tw_cap tw) < 4294967277 \<and>
     (\<exists>buf. tw_buf tw = Some buf \<and> unat (tw_cap tw) \<le> length buf \<and>
       unat (tw_used tw) + 12 \<le> unat (tw_cap tw) \<and>
       take (unat (tw_used tw)) (drop 8 buf) = enc_events (preds (0, 0) (hist_events hist)) cur) \<and>
     unat (tw_used tw) = length (enc_events (preds (0, 0) (hist_events hist)) cur) \<and>
     (tw_last_ts tw, tw_last_addr tw) = preds (0, 0) (hist_events hist @ cur) \<and>
     tw_block_seq tw = of_nat (length hist) \<and>
     tw_blocks_lost tw = of_nat (length (filter (\<lambda>b. \<not> snd b) hist)) \<and>
     tw_events tw = of_nat (length (hist_events hist @ cur)) \<and>
     (\<forall>b \<in> set hist. fst b \<noteq> [] \<and> (snd b \<or> lossy))"

definition hist_bytes :: "history \<Rightarrow> bytes" where
  "hist_bytes hist = frames_of 0 (0, 0) hist"

lemma hist_bytes_append1:
  "hist_bytes (hist @ [(es, taken)]) = hist_bytes hist @
     (if taken then frame (of_nat (length hist)) (enc_events (preds (0, 0) (hist_events hist)) es) else [])"
  by (simp add: hist_bytes_def frames_of_append)

text \<open>What an operation that only stages or flushes leaves alone.\<close>

definition tw_same :: "'k trace_writer \<Rightarrow> 'k trace_writer \<Rightarrow> bool" where
  "tw_same tw tw' \<longleftrightarrow> tw_ok tw' = tw_ok tw \<and> tw_finished tw' = tw_finished tw \<and>
     tw_flags tw' = tw_flags tw \<and> tw_err tw' = tw_err tw"

definition sink_at :: "('s \<Rightarrow> bytes) \<Rightarrow> ('s \<Rightarrow> bool) \<Rightarrow> bytes \<Rightarrow> 's \<Rightarrow> bool" where
  "sink_at emitted sink_inv bs s \<longleftrightarrow> sink_inv s \<and> emitted s = bs"

text \<open>How recording one event moves the log: it joins the block in the buffer, or cuts it.\<close>

inductive log_step :: "history \<times> event list \<Rightarrow> event \<Rightarrow> history \<times> event list \<Rightarrow> bool" where
  join: "log_step (hist, cur) e (hist, cur @ [e])"
| cut: "cur \<noteq> [] \<Longrightarrow> log_step (hist, cur) e (hist @ [(cur, taken)], [e])"

inductive_cases log_stepE: "log_step (hist, cur) e (hist', cur')"

definition log_events :: "history \<times> event list \<Rightarrow> event list" where
  "log_events l = hist_events (fst l) @ snd l"

lemma log_step_events: "log_step l e l' \<Longrightarrow> log_events l' = log_events l @ [e]"
  by (auto simp: log_events_def elim: log_step.cases)

section \<open>Cutting a block\<close>

lemma tw_flush_frame:
  assumes rel: "tw_rel k lossy hist cur tw" and cur: "cur \<noteq> []"
  defines "p \<equiv> enc_events (preds (0, 0) (hist_events hist)) cur"
  shows "\<exists>buf. length buf = length (the (tw_buf tw)) \<and>
    tw_flush_block sinks tw s = (case sinks k (frame (of_nat (length hist)) p) s of
        None \<Rightarrow> None
      | Some (taken, s') \<Rightarrow>
          let tw' = (if taken then tw\<lparr>tw_bytes := tw_bytes tw + ucast (kBlockOverhead + tw_used tw)\<rparr>
                   else tw\<lparr>tw_blocks_lost := tw_blocks_lost tw + 1\<rparr>) in
          Some (tw'\<lparr>tw_buf := Some buf, tw_block_seq := tw_block_seq tw' + 1, tw_used := 0\<rparr>, s'))"
proof -
  let ?n = "length p"
  obtain buf where buf: "tw_buf tw = Some buf" "unat (tw_cap tw) \<le> length buf"
    "?n + 12 \<le> unat (tw_cap tw)" "take ?n (drop 8 buf) = p" and used: "unat (tw_used tw) = ?n"
    using rel by (auto simp: tw_rel_def p_def)
  have seq: "tw_block_seq tw = of_nat (length hist)" and k: "tw_sink tw = Some k"
    using rel by (auto simp: tw_rel_def)
  have cap: "unat (tw_cap tw) < 4294967296" by (rule unat_u32_lt)
  have used_word: "tw_used tw = of_nat ?n"
    by (simp flip: used)
  have used0: "tw_used tw \<noteq> 0"
    using used cur by (auto simp: p_def)
  have sums: "unat (4 + tw_used tw) = 4 + ?n" "unat (kBlockOverhead + tw_used tw) = 12 + ?n"
    using unat_add_no_wrap [of 4 "tw_used tw"] unat_add_no_wrap [of 12 "tw_used tw"] used buf(3) cap
    by (simp_all add: kBlockOverhead_def)
  define rest where "rest = drop (8 + ?n) buf"
  have tail: "drop 8 buf = p @ rest"
    using buf(4) by (metis append_take_drop_id drop_drop add.commute rest_def)
  have rest: "4 \<le> length rest" using buf(2,3) by (simp add: rest_def)
  define hd where "hd = put_u32_le (tw_used tw) @ put_u32_le (tw_block_seq tw)"
  have b1: "copy_bytes buf 0 (put_u32_le (tw_used tw)) =
      Some (put_u32_le (tw_used tw) @ drop 4 buf)"
    using buf(2,3) by (subst copy_bytes_Some) (simp_all add: splice_def)
  have b2: "copy_bytes (put_u32_le (tw_used tw) @ drop 4 buf) 4 (put_u32_le (tw_block_seq tw)) =
      Some (hd @ p @ rest)"
    using buf(2,3) by (subst copy_bytes_Some) (simp_all add: splice_def hd_def tail)
  have sl: "slice (hd @ p @ rest) 4 (4 + ?n) = Some (put_u32_le (tw_block_seq tw) @ p)"
    by (subst slice_Some) (simp_all add: hd_def)
  let ?crc = "crc32 (put_u32_le (tw_block_seq tw) @ p)"
  define out where "out = hd @ p @ put_u32_le ?crc @ drop 4 rest"
  have b3: "copy_bytes (hd @ p @ rest) (8 + ?n) (put_u32_le ?crc) = Some out"
    using rest by (subst copy_bytes_Some) (simp_all add: splice_def hd_def out_def)
  have fr: "slice out 0 (12 + ?n) = Some (frame (of_nat (length hist)) p)"
    by (subst slice_Some) (simp_all add: out_def hd_def frame_def used_word seq)
  have len: "length out = length (the (tw_buf tw))"
    using buf rest by (simp add: out_def hd_def rest_def)
  show ?thesis
    by (rule exI [of _ out])
      (simp add: tw_flush_block_def used0 buf(1) b1 b2 sums sl b3 used fr k len Let_def
        split: option.splits)
qed

lemma tw_rel_used0: "tw_rel k lossy hist cur tw \<Longrightarrow> tw_used tw = 0 \<longleftrightarrow> cur = []"
  by (auto simp: tw_rel_def unat_eq_0 [symmetric])

lemma tw_rel_payload_cap:
  assumes "tw_rel k lossy hist cur tw" "length bs \<le> kMaxEventBytes"
  shows "tw_used tw + of_nat (length bs) > tw_payload_cap tw \<longleftrightarrow>
    unat (tw_used tw) + length bs + 12 > unat (tw_cap tw)"
proof -
  have n: "length bs \<le> 31"
    using assms(2) by (simp add: kMaxEventBytes_def kVarintMaxBytes_def)
  have u: "unat (tw_used tw) + 12 \<le> unat (tw_cap tw)" "unat (tw_cap tw) < 4294967277"
    using assms(1) by (auto simp: tw_rel_def)
  then have "unat (tw_used tw + of_nat (length bs)) = unat (tw_used tw) + length bs"
    using n by (subst unat_add_no_wrap) simp_all
  moreover have "unat (tw_payload_cap tw) = unat (tw_cap tw) - 12"
    using u by (simp add: tw_payload_cap_def kBlockOverhead_def unat_sub word_le_nat_alt)
  ultimately show ?thesis using u by (simp add: word_less_nat_alt) linarith
qed

context block_sink
begin

lemma flush_rel:
  assumes rel: "tw_rel k lossy hist cur tw" and cur: "cur \<noteq> []"
    and s: "sink_at emitted sink_inv (bs0 @ hist_bytes hist) s"
  shows "\<exists>taken tw' s'. tw_flush_block sinks tw s = Some (tw', s') \<and> tw_same tw tw' \<and>
    tw_rel k lossy (hist @ [(cur, taken)]) [] tw' \<and>
    sink_at emitted sink_inv (bs0 @ hist_bytes (hist @ [(cur, taken)])) s'"
proof -
  let ?p = "enc_events (preds (0, 0) (hist_events hist)) cur"
  let ?block = "frame (of_nat (length hist)) ?p"
  have "unat (tw_used tw) + 12 \<le> unat (tw_cap tw)" "unat (tw_cap tw) < 4294967296"
    "unat (tw_used tw) = length ?p"
    using rel unat_u32_lt by (auto simp: tw_rel_def)
  then have "length ?block < 4294967296" by simp
  then obtain taken s' where s': "sinks k ?block s = Some (taken, s')" "sink_inv s'" "taken \<or> lossy"
    "emitted s' = emitted s @ (if taken then ?block else [])"
    using sink_law [of s ?block] s by (auto simp: sink_at_def)
  obtain buf where buf: "length buf = length (the (tw_buf tw))" and
    fl: "tw_flush_block sinks tw s = (let tw' =
          (if taken then tw\<lparr>tw_bytes := tw_bytes tw + ucast (kBlockOverhead + tw_used tw)\<rparr>
           else tw\<lparr>tw_blocks_lost := tw_blocks_lost tw + 1\<rparr>) in
          Some (tw'\<lparr>tw_buf := Some buf, tw_block_seq := tw_block_seq tw' + 1, tw_used := 0\<rparr>, s'))"
    using tw_flush_frame [OF rel cur, of sinks s] s'(1) by auto
  show ?thesis
    using rel cur s s' buf unfolding fl
    by (intro exI [of _ taken])
      (auto simp: Let_def tw_rel_def tw_same_def sink_at_def hist_bytes_append1 kMinBlockBuffer_def
        word_le_nat_alt)
qed

lemma put_rel:
  assumes rel: "tw_rel k lossy hist cur tw" and fits: "unat (tw_used tw) + length bs + 12 \<le> unat (tw_cap tw)"
    and p: "preds (0, 0) (hist_events hist @ cur) = p" "bs = enc_event p e" "(ts, addr) = next_pred p e"
  shows "\<exists>buf. copy_bytes (the (tw_buf tw)) (unat (8 + tw_used tw)) bs = Some buf \<and>
    tw_rel k lossy hist (cur @ [e]) (tw\<lparr>tw_buf := Some buf, tw_used := tw_used tw + of_nat (length bs),
      tw_events := tw_events tw + 1, tw_last_ts := ts, tw_last_addr := addr\<rparr>)"
proof -
  let ?p = "enc_events (preds (0, 0) (hist_events hist)) cur" and ?buf = "the (tw_buf tw)"
  have b: "tw_buf tw = Some ?buf" "unat (tw_cap tw) \<le> length ?buf" "take (length ?p) (drop 8 ?buf) = ?p"
    "unat (tw_used tw) = length ?p" "unat (tw_cap tw) < 4294967277"
    using rel by (auto simp: tw_rel_def)
  have w: "unat (8 + tw_used tw) = 8 + length ?p"
    "unat (tw_used tw + of_nat (length bs)) = length ?p + length bs"
    using fits b(4,5) by (simp_all add: unat_add_no_wrap)
  have "copy_bytes ?buf (8 + length ?p) bs = Some (splice ?buf (8 + length ?p) bs)"
    using fits b by (intro copy_bytes_Some) simp
  moreover have "take (length ?p + length bs) (drop 8 (splice ?buf (8 + length ?p) bs)) = ?p @ bs"
    using fits b(2,3,4) by (simp add: splice_def drop_take min_def)
  moreover have "enc_events (preds (0, 0) (hist_events hist)) (cur @ [e]) = ?p @ bs"
    using p by (simp add: enc_events_append)
  ultimately show ?thesis
    using rel fits b w p by (auto simp: tw_rel_def)
qed

lemma stage_rel:
  assumes rel: "tw_rel k lossy hist cur tw"
    and s: "sink_at emitted sink_inv (bs0 @ hist_bytes hist) s"
    and bs: "bs = enc_event (tw_last_ts tw, tw_last_addr tw) e"
    and next_ev: "(ts, addr) = next_pred (tw_last_ts tw, tw_last_addr tw) e"
  shows "\<exists>hist' cur' tw' s'. tw_stage sinks bs tw s = Some (True, tw', s') \<and> tw_same tw tw' \<and>
    tw_last_ts tw' = tw_last_ts tw \<and> tw_last_addr tw' = tw_last_addr tw \<and>
    tw_rel k lossy hist' cur' (tw'\<lparr>tw_last_ts := ts, tw_last_addr := addr\<rparr>) \<and>
    log_step (hist, cur) e (hist', cur') \<and>
    sink_at emitted sink_inv (bs0 @ hist_bytes hist') s'"
proof -
  have bs31: "length bs \<le> kMaxEventBytes" "length bs \<le> 31"
    using length_enc_event [of "(tw_last_ts tw, tw_last_addr tw)" e] bs
    by (simp_all add: kMaxEventBytes_def kVarintMaxBytes_def)
  have lasts: "preds (0, 0) (hist_events hist @ cur) = (tw_last_ts tw, tw_last_addr tw)"
    using rel by (simp add: tw_rel_def)
  show ?thesis
  proof (cases "unat (tw_used tw) + length bs + 12 > unat (tw_cap tw)")
    case False
    then show ?thesis
      using put_rel [OF rel _ lasts bs next_ev] rel s bs31
      by (auto simp: tw_stage_def Let_def tw_rel_payload_cap [OF rel] tw_same_def intro: join)
        (force intro: join simp: tw_rel_def)
  next
    case True
    have "cur \<noteq> []"
      using True bs31(2) tw_rel_used0 [OF rel] rel
      by (auto simp: tw_rel_def kMinBlockBuffer_def word_le_nat_alt)
    from flush_rel [OF rel this s] obtain taken tw1 s1 where f:
      "tw_flush_block sinks tw s = Some (tw1, s1)" "tw_same tw tw1"
      "tw_rel k lossy (hist @ [(cur, taken)]) [] tw1"
      "sink_at emitted sink_inv (bs0 @ hist_bytes (hist @ [(cur, taken)])) s1"
      by blast
    have "unat (tw_used tw1) + length bs + 12 \<le> unat (tw_cap tw1)"
      using f(3) tw_rel_used0 [OF f(3)] bs31(2)
      by (auto simp: tw_rel_def kMinBlockBuffer_def word_le_nat_alt)
    from put_rel [OF f(3) this _ bs next_ev] lasts f(3) obtain buf0 buf where buf: "tw_buf tw1 = Some buf0"
      "copy_bytes buf0 (unat (8 + tw_used tw1)) bs = Some buf"
      "tw_rel k lossy (hist @ [(cur, taken)]) [e] (tw1\<lparr>tw_buf := Some buf,
        tw_used := tw_used tw1 + of_nat (length bs), tw_events := tw_events tw1 + 1,
        tw_last_ts := ts, tw_last_addr := addr\<rparr>)"
      by (auto simp: tw_rel_def)
    have "tw_last_ts tw1 = tw_last_ts tw" "tw_last_addr tw1 = tw_last_addr tw"
      using f(3) lasts by (auto simp: tw_rel_def)
    then show ?thesis
      using f True bs31 buf cut [OF \<open>cur \<noteq> []\<close>, of hist e taken]
      by (intro exI [of _ "hist @ [(cur, taken)]"] exI [of _ "[e]"])
        (auto simp: tw_stage_def Let_def tw_rel_payload_cap [OF rel] tw_same_def)
  qed
qed

end

section \<open>Recording an event\<close>

datatype tw_op =
    Op_mmio_read u64 u32 u32
  | Op_mmio_write u64 u32 u32
  | Op_irq_enter u64 u32
  | Op_irq_enter_at u64 u32 u32

fun tw_exec ::
  "('k, 's) sinks \<Rightarrow> tw_op \<Rightarrow> 'k trace_writer \<Rightarrow> 's \<Rightarrow> (bool \<times> 'k trace_writer \<times> 's) option" where
  "tw_exec sinks (Op_mmio_read ts addr val) = tw_mmio_read sinks ts addr val"
| "tw_exec sinks (Op_mmio_write ts addr val) = tw_mmio_write sinks ts addr val"
| "tw_exec sinks (Op_irq_enter ts vector) = tw_irq_enter sinks ts vector"
| "tw_exec sinks (Op_irq_enter_at ts vector pc) = tw_irq_enter_at sinks ts vector pc"

definition mk_event :: "event_type \<Rightarrow> u64 \<Rightarrow> u32 \<Rightarrow> u32 \<Rightarrow> event" where
  "mk_event t ts addr val = \<lparr>ev_type = ev_code t, ev_ts = ts, ev_addr = addr, ev_value = val\<rparr>"

text \<open>The event a call records, if any: writes are recorded only under their flag.\<close>

fun op_event :: "u16 \<Rightarrow> tw_op \<Rightarrow> event option" where
  "op_event flags (Op_mmio_read ts addr val) = Some (mk_event EV_MMIO_READ ts addr val)"
| "op_event flags (Op_mmio_write ts addr val) =
     (if flags AND kFlagRecordWrites = 0 then None else Some (mk_event EV_MMIO_WRITE ts addr val))"
| "op_event flags (Op_irq_enter ts vector) = Some (mk_event EV_IRQ_ENTER ts vector 0)"
| "op_event flags (Op_irq_enter_at ts vector pc) = Some (mk_event EV_IRQ_AT ts vector pc)"

lemma mk_event_ok [simp]:
  "ev_ok (mk_event EV_MMIO_READ ts a v)" "ev_ok (mk_event EV_MMIO_WRITE ts a v)"
  "ev_ok (mk_event EV_IRQ_ENTER ts a 0)" "ev_ok (mk_event EV_IRQ_AT ts a v)"
  "ev_ok (mk_event EV_STOP ts 0 0)"
  by (simp_all add: mk_event_def ev_ok_def is_mmio_def)

lemma mk_event_sel [simp]:
  "ev_type (mk_event t ts a v) = ev_code t" "ev_ts (mk_event t ts a v) = ts"
  "ev_addr (mk_event t ts a v) = a" "ev_value (mk_event t ts a v) = v"
  by (simp_all add: mk_event_def)

lemma op_event_ok: "op_event flags op = Some e \<Longrightarrow> ev_ok e"
  by (cases op) (auto split: if_splits)

lemma tw_last_addr_same:
  "a = tw_last_addr tw \<Longrightarrow> tw\<lparr>tw_last_ts := t, tw_last_addr := a\<rparr> = tw\<lparr>tw_last_ts := t\<rparr>"
  by (cases tw) simp

text \<open>Both write routines record their event, or latch an error when time moves back.\<close>

definition records :: "'k \<Rightarrow> bool \<Rightarrow> ('s \<Rightarrow> bytes) \<Rightarrow> ('s \<Rightarrow> bool) \<Rightarrow> event \<Rightarrow> history \<Rightarrow> event list \<Rightarrow>
    bytes \<Rightarrow> 'k trace_writer \<Rightarrow> 's \<Rightarrow> (bool \<times> 'k trace_writer \<times> 's) option \<Rightarrow> bool" where
  "records k lossy emitted sink_inv e hist cur bs0 tw s r \<longleftrightarrow>
    (if ev_ts e < tw_last_ts tw then r = Some (False, tw_fail ''non-monotonic timestamp'' tw, s)
     else \<exists>tw' s' hist' cur'. r = Some (True, tw', s') \<and> tw_same tw tw' \<and>
       tw_last_ts tw' = ev_ts e \<and> tw_rel k lossy hist' cur' tw' \<and>
       log_step (hist, cur) e (hist', cur') \<and> sink_at emitted sink_inv (bs0 @ hist_bytes hist') s')"

context block_sink
begin

lemma write_mmio_records:
  assumes rel: "tw_rel k lossy hist cur tw" and s: "sink_at emitted sink_inv (bs0 @ hist_bytes hist) s"
    and live: "tw_ok tw" "\<not> tw_finished tw" and t: "t = EV_MMIO_READ \<or> t = EV_MMIO_WRITE"
  shows "records k lossy emitted sink_inv (mk_event t ts addr val) hist cur bs0 tw s (tw_write_mmio sinks (ev_code t) ts addr val tw s)"
proof -
  let ?e = "mk_event t ts addr val"
  let ?p = "(tw_last_ts tw, tw_last_addr tw)"
  have started: "tw_started tw" using rel by (simp add: tw_rel_def)
  have delta: "i64_sub (i64_of_u32 addr) (i64_of_u32 (tw_last_addr tw)) =
      Some (addr_delta (tw_last_addr tw) addr)"
    using addr_delta_range by (simp add: i64_sub_def i64_of_u32_def addr_delta_def)
  obtain zz where zz: "zigzag_encode (addr_delta (tw_last_addr tw) addr) = Some zz"
    using addr_delta_range by (auto simp: zigzag_encode_eq)
  have bs: "ev_code t # varint_encode (ts - tw_last_ts tw) @ varint_encode zz @ varint_encode (ucast val)
      = enc_event ?p ?e" and np: "(ts, addr) = next_pred ?p ?e"
    using t zz by (auto simp: enc_event_def is_mmio_def next_pred_def)
  have chk: "scratch_chk (enc_event ?p ?e) = Some (enc_event ?p ?e)"
    by (simp add: scratch_chk_def length_enc_event)
  show ?thesis
    using stage_rel [OF rel s refl np] live started delta zz chk bs
    by (auto simp: records_def tw_write_mmio_def tw_same_def) blast
qed

lemma write_plain_records:
  assumes rel: "tw_rel k lossy hist cur tw" and s: "sink_at emitted sink_inv (bs0 @ hist_bytes hist) s"
    and live: "tw_ok tw" "\<not> tw_finished tw"
    and t: "(t, arg, arg2) = (EV_IRQ_ENTER, Some a, None) \<and> v = 0 \<or>
      (t, arg, arg2) = (EV_IRQ_AT, Some a, Some v) \<or> (t, arg, arg2) = (EV_STOP, None, None) \<and> a = 0 \<and> v = 0"
  shows "records k lossy emitted sink_inv (mk_event t ts a v) hist cur bs0 tw s
    (tw_write_plain sinks (ev_code t) ts arg arg2 tw s)"
proof -
  let ?e = "mk_event t ts a v"
  let ?p = "(tw_last_ts tw, tw_last_addr tw)"
  have started: "tw_started tw" using rel by (simp add: tw_rel_def)
  have bs: "ev_code t # varint_encode (ts - tw_last_ts tw) @ opt_varint arg @ opt_varint arg2
      = enc_event ?p ?e" and np: "(ts, tw_last_addr tw) = next_pred ?p ?e"
    using t by (auto simp: enc_event_def is_mmio_def next_pred_def opt_varint_def)
  have chk: "scratch_chk (enc_event ?p ?e) = Some (enc_event ?p ?e)"
    by (simp add: scratch_chk_def length_enc_event)
  show ?thesis
    using stage_rel [OF rel s refl np] live started chk bs
    by (auto simp: records_def tw_write_plain_def tw_same_def tw_last_addr_same) blast
qed

lemma exec_records:
  assumes "tw_rel k lossy hist cur tw" "sink_at emitted sink_inv (bs0 @ hist_bytes hist) s"
    "tw_ok tw" "\<not> tw_finished tw"
  shows "case op_event (tw_flags tw) op of
      None \<Rightarrow> tw_exec sinks op tw s = Some (True, tw, s)
    | Some e \<Rightarrow> records k lossy emitted sink_inv e hist cur bs0 tw s (tw_exec sinks op tw s)"
proof (cases op)
  case (Op_mmio_read ts addr v)
  then show ?thesis using write_mmio_records [OF assms, of EV_MMIO_READ ts addr v]
    by (simp add: tw_mmio_read_def)
next
  case (Op_mmio_write ts addr v)
  then show ?thesis using write_mmio_records [OF assms, of EV_MMIO_WRITE ts addr v] assms(3)
    by (simp add: tw_mmio_write_def)
next
  case (Op_irq_enter ts vec)
  then show ?thesis using write_plain_records [OF assms, of EV_IRQ_ENTER _ _ vec 0 ts]
    by (simp add: tw_irq_enter_def)
next
  case (Op_irq_enter_at ts vec pc)
  then show ?thesis using write_plain_records [OF assms, of EV_IRQ_AT _ _ vec pc ts]
    by (simp add: tw_irq_enter_at_def)
qed

end

section \<open>A whole recording\<close>

fun tw_exec_all ::
  "('k, 's) sinks \<Rightarrow> tw_op list \<Rightarrow> 'k trace_writer \<Rightarrow> 's \<Rightarrow> ('k trace_writer \<times> 's) option" where
  "tw_exec_all sinks [] tw s = Some (tw, s)"
| "tw_exec_all sinks (op # ops) tw s = do {
     (_, tw, s) \<leftarrow> tw_exec sinks op tw s;
     tw_exec_all sinks ops tw s
   }"

definition tw_session ::
  "('k, 's) sinks \<Rightarrow> 'k \<Rightarrow> bytes \<Rightarrow> u32 \<Rightarrow> u64 \<Rightarrow> u64 \<Rightarrow> u16 \<Rightarrow> tw_op list \<Rightarrow> u64 \<Rightarrow> 's \<Rightarrow>
   (bool \<times> 'k trace_writer \<times> 's) option" where
  "tw_session sinks k buf cap build_id seed flags ops stop_ts s = do {
     (_, tw, s) \<leftarrow> tw_begin sinks (Some k) (Some buf) cap build_id seed flags tw_new s;
     (tw, s) \<leftarrow> tw_exec_all sinks ops tw s;
     tw_finish sinks stop_ts tw s
   }"

text \<open>
  What a recording should hold: the events of the calls, ended by the stop event; and the
  part of it before time first moves back.
\<close>

definition op_events :: "u16 \<Rightarrow> tw_op list \<Rightarrow> event list" where
  "op_events flags ops = List.map_filter (op_event flags) ops"

definition stop_event :: "u64 \<Rightarrow> event" where
  "stop_event ts = mk_event EV_STOP ts 0 0"

fun in_order :: "u64 \<Rightarrow> event list \<Rightarrow> event list" where
  "in_order t [] = []"
| "in_order t (e # es) = (if ev_ts e < t then [] else e # in_order (ev_ts e) es)"

lemma op_events_simps [simp]:
  "op_events flags [] = []"
  "op_events flags (op # ops) = (case op_event flags op of None \<Rightarrow> [] | Some e \<Rightarrow> [e]) @ op_events flags ops"
  by (auto simp: op_events_def map_filter_simps split: option.splits)

lemma op_events_ok: "e \<in> set (op_events flags ops) \<Longrightarrow> ev_ok e"
  by (induction ops) (auto simp: op_event_ok split: option.splits)

lemma tw_rel_fail [simp]: "tw_rel k lossy hist cur (tw_fail why tw) = tw_rel k lossy hist cur tw"
  by (simp add: tw_rel_def tw_fail_def)

lemma tw_rel_finished [simp]:
  "tw_rel k lossy hist cur (tw\<lparr>tw_finished := b\<rparr>) = tw_rel k lossy hist cur tw"
  "tw_rel k lossy hist cur (tw\<lparr>tw_bytes := n\<rparr>) = tw_rel k lossy hist cur tw"
  by (simp_all add: tw_rel_def)

lemma tw_fail_sel [simp]:
  "tw_ok (tw_fail why tw) = False" "tw_finished (tw_fail why tw) = tw_finished tw"
  "tw_flags (tw_fail why tw) = tw_flags tw" "tw_last_ts (tw_fail why tw) = tw_last_ts tw"
  "tw_started (tw_fail why tw) = tw_started tw"
  by (simp_all add: tw_fail_def)

lemma exec_dead: "\<not> tw_ok tw \<Longrightarrow> tw_exec sinks op tw s = Some (False, tw, s)"
  by (cases op) (simp_all add: tw_mmio_read_def tw_mmio_write_def tw_irq_enter_def
    tw_irq_enter_at_def tw_write_mmio_def tw_write_plain_def)

lemma exec_all_dead: "\<not> tw_ok tw \<Longrightarrow> tw_exec_all sinks ops tw s = Some (tw, s)"
  by (induction ops) (simp_all add: exec_dead)

text \<open>The state of a recording in progress that has been asked to hold \<^verbatim>\<open>log\<close>.\<close>

definition tw_logged :: "'k \<Rightarrow> bool \<Rightarrow> ('s \<Rightarrow> bytes) \<Rightarrow> ('s \<Rightarrow> bool) \<Rightarrow> bytes \<Rightarrow> event list \<Rightarrow>
    history \<Rightarrow> event list \<Rightarrow> 'k trace_writer \<Rightarrow> 's \<Rightarrow> bool" where
  "tw_logged k lossy emitted sink_inv bs0 log hist cur tw s \<longleftrightarrow>
     tw_rel k lossy hist cur tw \<and> sink_at emitted sink_inv (bs0 @ hist_bytes hist) s \<and>
     log_events (hist, cur) = in_order 0 log \<and> tw_ok tw = (in_order 0 log = log) \<and> \<not> tw_finished tw"

fun last_ts :: "u64 \<Rightarrow> event list \<Rightarrow> u64" where
  "last_ts t [] = t"
| "last_ts t (e # es) = last_ts (ev_ts e) es"

lemma in_order_append:
  "in_order t (es @ fs) = in_order t es @ (if in_order t es = es then in_order (last_ts t es) fs else [])"
  by (induction t es rule: in_order.induct) auto

lemma in_order_length: "length (in_order t es) \<le> length es"
  by (induction t es rule: in_order.induct) auto

lemma in_order_broken:
  assumes "in_order t es \<noteq> es"
  shows "in_order t (es @ fs) = in_order t es" "in_order t es \<noteq> es @ fs"
proof -
  show "in_order t (es @ fs) = in_order t es" using assms by (simp add: in_order_append)
  have "fs = []" if "in_order t es = es @ fs"
    using in_order_length [of t es] that by simp
  then show "in_order t es \<noteq> es @ fs" using assms by auto
qed

lemma last_ts_preds: "last_ts (fst p) es = fst (preds p es)"
proof (induction es arbitrary: p)
  case (Cons e es)
  then show ?case using Cons.IH [of "next_pred p e"] by (simp add: next_pred_def)
qed simp

lemma tw_logged_last_ts:
  "tw_logged k lossy emitted sink_inv bs0 log hist cur tw s \<Longrightarrow> tw_ok tw \<Longrightarrow>
     tw_last_ts tw = last_ts 0 log"
  using last_ts_preds [of "(0, 0)" log]
  by (auto simp: tw_logged_def tw_rel_def log_events_def) (metis fst_conv)

lemma records_logged:
  assumes r: "records k lossy emitted sink_inv e hist cur bs0 tw s r"
    and l: "tw_logged k lossy emitted sink_inv bs0 log hist cur tw s" and live: "tw_ok tw"
  shows "\<exists>b tw' s' hist' cur'. r = Some (b, tw', s') \<and> tw_flags tw' = tw_flags tw \<and>
    tw_logged k lossy emitted sink_inv bs0 (log @ [e]) hist' cur' tw' s'"
proof -
  have o: "in_order 0 log = log" and t: "tw_last_ts tw = last_ts 0 log"
    using l live tw_logged_last_ts [OF l live] by (auto simp: tw_logged_def)
  show ?thesis
  proof (cases "ev_ts e < tw_last_ts tw")
    case True
    then show ?thesis
      using r l o t by (auto simp: records_def tw_logged_def in_order_append)
  next
    case False
    then show ?thesis
      using r l o t live
      by (auto simp: records_def tw_logged_def in_order_append tw_same_def dest!: log_step_events)
        blast+
  qed
qed

lemma header_copies: "do {
    header \<leftarrow> copy_bytes (replicate 32 0) 0 (put_u32_le kTraceMagic);
    header \<leftarrow> copy_bytes header 4 (put_u16_le kTraceVersion);
    header \<leftarrow> copy_bytes header 6 (put_u16_le flags);
    header \<leftarrow> copy_bytes header 8 (put_u64_le build_id);
    header \<leftarrow> copy_bytes header 16 (put_u64_le seed);
    f header
  } = f (header_bytes build_id seed flags)"
  by (simp add: copy_bytes_Some splice_def header_bytes_def)

lemma begin_armed:
  assumes "kMinBlockBuffer \<le> cap" "unat cap < 4294967277" "unat cap \<le> length buf"
  shows "\<exists>tw. tw_begin sinks (Some k) (Some buf) cap build_id seed flags tw_new s =
      tw_emit sinks (header_bytes build_id seed flags) tw s \<and>
    tw_rel k lossy [] [] tw \<and> tw_ok tw \<and> \<not> tw_finished tw \<and> tw_flags tw = flags"
proof -
  let ?tw = "tw_new\<lparr>tw_sink := Some k, tw_buf := Some buf, tw_cap := cap, tw_flags := flags,
    tw_ok := True, tw_started := True\<rparr>"
  have "\<not> cap < kMinBlockBuffer" using assms(1) by simp
  moreover have "?tw = tw_new\<lparr>tw_sink := Some k, tw_buf := Some buf, tw_cap := cap, tw_used := 0,
      tw_last_ts := 0, tw_last_addr := 0, tw_block_seq := 0, tw_blocks_lost := 0, tw_events := 0,
      tw_bytes := 0, tw_flags := flags, tw_ok := True, tw_started := True\<rparr>"
    by (simp add: tw_new_def)
  moreover have "replicate (unat kTraceHeaderSize) 0 = (replicate 32 0 :: bytes)"
    by (simp add: kTraceHeaderSize_def)
  moreover have "tw_rel k lossy [] [] ?tw"
    using assms by (auto simp: tw_rel_def tw_new_def kMinBlockBuffer_def word_le_nat_alt)
  ultimately show ?thesis
    by (intro exI [of _ ?tw]) (simp add: tw_begin_def Let_def header_copies tw_new_def)
qed

lemma begin_asks_sink:
  assumes "kMinBlockBuffer \<le> cap" "unat cap < 4294967277" "unat cap \<le> length buf"
    and "tw_begin sinks (Some k) (Some buf) cap build_id seed flags tw_new s = Some (b, tw, s')"
  shows "sinks k (header_bytes build_id seed flags) s = Some (b, s')"
proof -
  obtain tw0 where "tw_begin sinks (Some k) (Some buf) cap build_id seed flags tw_new s =
      tw_emit sinks (header_bytes build_id seed flags) tw0 s" "tw_rel k True [] [] tw0"
    using begin_armed [OF assms(1-3), where sinks = sinks and k = k and s = s and lossy = True] by blast
  with assms(4) show ?thesis
    by (auto simp: tw_emit_def tw_rel_def bind_eq_Some_conv split: if_splits)
qed

text \<open>
  Finishing a recording that has been asked to hold \<^verbatim>\<open>log\<close>: when the stop event keeps
  the order, every event is in a cut block and the terminator follows.
\<close>

definition tw_closed :: "'k \<Rightarrow> bool \<Rightarrow> ('s \<Rightarrow> bytes) \<Rightarrow> ('s \<Rightarrow> bool) \<Rightarrow> bytes \<Rightarrow> event list \<Rightarrow> bool \<Rightarrow>
    history \<Rightarrow> event list \<Rightarrow> 'k trace_writer \<Rightarrow> 's \<Rightarrow> bool" where
  "tw_closed k lossy emitted sink_inv bs0 log b hist cur tw s \<longleftrightarrow>
     tw_finished tw \<and> b = tw_ok tw \<and> tw_rel k lossy hist cur tw \<and>
     log_events (hist, cur) = in_order 0 log \<and>
     (if in_order 0 log = log
      then cur = [] \<and> (b \<or> lossy) \<and>
        sink_at emitted sink_inv (bs0 @ hist_bytes hist @ (if b then put_u32_le 0 else [])) s
      else \<not> b \<and> sink_at emitted sink_inv (bs0 @ hist_bytes hist) s)"

context block_sink
begin

lemma exec_all_logged:
  "tw_logged k lossy emitted sink_inv bs0 log hist cur tw s \<Longrightarrow>
   \<exists>tw' s' hist' cur'. tw_exec_all sinks ops tw s = Some (tw', s') \<and> tw_flags tw' = tw_flags tw \<and>
     tw_logged k lossy emitted sink_inv bs0 (log @ op_events (tw_flags tw) ops) hist' cur' tw' s'"
proof (induction ops arbitrary: log hist cur tw s)
  case Nil
  then show ?case by simp blast
next
  case (Cons op ops)
  show ?case
  proof (cases "tw_ok tw")
    case False
    moreover have "tw_logged k lossy emitted sink_inv bs0 (log @ es) hist cur tw s" for es
      using Cons.prems False by (simp add: tw_logged_def in_order_broken)
    ultimately show ?thesis by (simp add: exec_dead exec_all_dead) blast
  next
    case True
    have ex: "case op_event (tw_flags tw) op of
        None \<Rightarrow> tw_exec sinks op tw s = Some (True, tw, s)
      | Some e \<Rightarrow> records k lossy emitted sink_inv e hist cur bs0 tw s (tw_exec sinks op tw s)"
      using Cons.prems True by (intro exec_records) (auto simp: tw_logged_def)
    show ?thesis
    proof (cases "op_event (tw_flags tw) op")
      case None
      then show ?thesis using ex Cons.IH [OF Cons.prems] by simp
    next
      case (Some e)
      then have "records k lossy emitted sink_inv e hist cur bs0 tw s (tw_exec sinks op tw s)"
        using ex by simp
      from records_logged [OF this Cons.prems True]
      obtain b tw1 s1 hist1 cur1 where 1: "tw_exec sinks op tw s = Some (b, tw1, s1)"
        "tw_flags tw1 = tw_flags tw"
        "tw_logged k lossy emitted sink_inv bs0 (log @ [e]) hist1 cur1 tw1 s1"
        by blast
      then show ?thesis using Cons.IH [OF 1(3)] Some by simp
    qed
  qed
qed

lemma emit_sink_at:
  assumes "sink_at emitted sink_inv bs s" "tw_sink tw = Some k" "length data < 4294967296"
  shows "\<exists>taken s' n. (taken \<or> lossy) \<and>
    tw_emit sinks data tw s = Some (taken, if taken then tw\<lparr>tw_bytes := n\<rparr>
      else tw_fail ''sink rejected data'' tw, s') \<and>
    sink_at emitted sink_inv (bs @ (if taken then data else [])) s'"
proof -
  obtain taken s' where t: "sinks k data s = Some (taken, s')" "taken \<or> lossy" "sink_inv s'"
    "emitted s' = emitted s @ (if taken then data else [])"
    using sink_law [of s data] assms by (auto simp: sink_at_def)
  have "tw_emit sinks data tw s = Some (taken, if taken
      then tw\<lparr>tw_bytes := tw_bytes tw + of_nat (length data)\<rparr>
      else tw_fail ''sink rejected data'' tw, s')"
    using t(1) assms(2) by (simp add: tw_emit_def)
  moreover have "sink_at emitted sink_inv (bs @ (if taken then data else [])) s'"
    using t(3,4) assms(1) unfolding sink_at_def by simp
  ultimately show ?thesis using t(2) by blast
qed

lemma flush_pending:
  assumes "tw_rel k lossy hist cur tw" "sink_at emitted sink_inv (bs0 @ hist_bytes hist) s"
  shows "\<exists>tw' s' hist'. tw_flush_block sinks tw s = Some (tw', s') \<and> tw_same tw tw' \<and>
    tw_rel k lossy hist' [] tw' \<and> hist_events hist' = log_events (hist, cur) \<and>
    sink_at emitted sink_inv (bs0 @ hist_bytes hist') s'"
proof (cases "cur = []")
  case True
  then show ?thesis
    using assms tw_rel_used0 [of k lossy hist cur tw]
    by (auto simp: tw_flush_block_def tw_same_def log_events_def)
next
  case False
  from flush_rel [OF assms(1) this assms(2)] show ?thesis
    by (fastforce simp: log_events_def)
qed

lemma finish_logged:
  assumes l: "tw_logged k lossy emitted sink_inv bs0 log hist cur tw s"
  shows "\<exists>b tw' s' hist' cur'. tw_finish sinks ts tw s = Some (b, tw', s') \<and>
    tw_closed k lossy emitted sink_inv bs0 (log @ [stop_event ts]) b hist' cur' tw' s'"
proof (cases "tw_ok tw")
  case False
  then have "tw_finish sinks ts tw s = Some (False, tw\<lparr>tw_finished := True\<rparr>, s)"
    using l by (simp add: tw_finish_def tw_logged_def tw_rel_def)
  moreover have "tw_closed k lossy emitted sink_inv bs0 (log @ [stop_event ts]) False hist cur
      (tw\<lparr>tw_finished := True\<rparr>) s"
    using l False by (auto simp: tw_logged_def tw_closed_def in_order_broken)
  ultimately show ?thesis by blast
next
  case True
  have started: "tw_started tw" "\<not> tw_finished tw" using l by (auto simp: tw_logged_def tw_rel_def)
  have "records k lossy emitted sink_inv (stop_event ts) hist cur bs0 tw s
      (tw_write_plain sinks (ev_code EV_STOP) ts None None tw s)"
    unfolding stop_event_def
    using l True by (intro write_plain_records) (auto simp: tw_logged_def)
  from records_logged [OF this l True] obtain b1 tw1 s1 hist1 cur1 where 1:
    "tw_write_plain sinks (ev_code EV_STOP) ts None None tw s = Some (b1, tw1, s1)"
    "tw_logged k lossy emitted sink_inv bs0 (log @ [stop_event ts]) hist1 cur1 tw1 s1"
    by blast
  show ?thesis
  proof (cases "tw_ok tw1")
    case False
    then have "tw_finish sinks ts tw s = Some (False, tw1\<lparr>tw_finished := True\<rparr>, s1)"
      using 1 True started by (simp add: tw_finish_def)
    moreover have "tw_closed k lossy emitted sink_inv bs0 (log @ [stop_event ts]) False hist1 cur1
        (tw1\<lparr>tw_finished := True\<rparr>) s1"
      using 1(2) False by (auto simp: tw_logged_def tw_closed_def)
    ultimately show ?thesis by blast
  next
    case live: True
    obtain tw2 s2 hist2 where 2: "tw_flush_block sinks tw1 s1 = Some (tw2, s2)"
      "tw_same tw1 tw2" "tw_rel k lossy hist2 [] tw2"
      "hist_events hist2 = log_events (hist1, cur1)"
      "sink_at emitted sink_inv (bs0 @ hist_bytes hist2) s2"
      using flush_pending [of hist1 cur1 tw1 bs0 s1] 1(2) by (auto simp: tw_logged_def)
    obtain b3 s3 n where 3: "b3 \<or> lossy" "tw_emit sinks (put_u32_le 0) tw2 s2 =
        Some (b3, if b3 then tw2\<lparr>tw_bytes := n\<rparr> else tw_fail ''sink rejected data'' tw2, s3)"
      "sink_at emitted sink_inv ((bs0 @ hist_bytes hist2) @ (if b3 then put_u32_le 0 else [])) s3"
      using emit_sink_at [OF 2(5), of tw2 "put_u32_le 0"] 2(3) by (auto simp: tw_rel_def)
    have fin: "tw_finish sinks ts tw s = Some (b3, (if b3 then tw2\<lparr>tw_bytes := n\<rparr>
        else tw_fail ''sink rejected data'' tw2)\<lparr>tw_finished := True\<rparr>, s3)"
      using started True live 1(1) 2(1,2) 3(2) by (simp add: tw_finish_def tw_same_def)
    moreover have "tw_closed k lossy emitted sink_inv bs0 (log @ [stop_event ts]) b3 hist2 []
        ((if b3 then tw2\<lparr>tw_bytes := n\<rparr> else tw_fail ''sink rejected data'' tw2)
          \<lparr>tw_finished := True\<rparr>) s3"
      using 1(2) 2 3 live by (auto simp: tw_logged_def tw_closed_def tw_same_def log_events_def)
    ultimately show ?thesis by blast
  qed
qed

text \<open>A recording that begins: the header is out, or the sink refused it.\<close>

lemma begin_logged:
  assumes s: "sink_inv s" and cap: "kMinBlockBuffer \<le> cap" "unat cap < 4294967277" "unat cap \<le> length buf"
  shows "\<exists>b tw s'. tw_begin sinks (Some k) (Some buf) cap build_id seed flags tw_new s = Some (b, tw, s') \<and>
    (b \<or> lossy) \<and> tw_started tw \<and> \<not> tw_finished tw \<and>
    (if b then tw_flags tw = flags \<and>
       tw_logged k lossy emitted sink_inv (emitted s @ header_bytes build_id seed flags) [] [] [] tw s'
     else \<not> tw_ok tw \<and> sink_at emitted sink_inv (emitted s) s')"
proof -
  obtain tw where tw: "tw_begin sinks (Some k) (Some buf) cap build_id seed flags tw_new s =
      tw_emit sinks (header_bytes build_id seed flags) tw s"
    "tw_rel k lossy [] [] tw" "tw_ok tw" "\<not> tw_finished tw" "tw_flags tw = flags"
    using begin_armed [OF cap, where sinks = sinks and k = k and build_id = build_id and
      seed = seed and flags = flags and s = s and lossy = lossy] by blast
  have started: "tw_started tw" using tw(2) by (simp add: tw_rel_def)
  have "sink_at emitted sink_inv (emitted s) s" using s by (simp add: sink_at_def)
  from emit_sink_at [OF this, of tw "header_bytes build_id seed flags"] tw(2)
  obtain taken s1 n where e: "taken \<or> lossy" "tw_emit sinks (header_bytes build_id seed flags) tw s =
      Some (taken, if taken then tw\<lparr>tw_bytes := n\<rparr> else tw_fail ''sink rejected data'' tw, s1)"
    "sink_at emitted sink_inv (emitted s @ (if taken then header_bytes build_id seed flags else [])) s1"
    by (auto simp: tw_rel_def)
  have "tw_logged k lossy emitted sink_inv (emitted s @ header_bytes build_id seed flags) [] [] [] (tw\<lparr>tw_bytes := n\<rparr>) s1" if taken
    using tw e that by (simp add: tw_logged_def hist_bytes_def log_events_def)
  with tw e started show ?thesis by (cases taken) auto
qed

lemma session_closed:
  assumes s: "sink_inv s" and cap: "kMinBlockBuffer \<le> cap" "unat cap < 4294967277" "unat cap \<le> length buf"
  shows "\<exists>b tw s' hist cur. tw_session sinks k buf cap build_id seed flags ops stop_ts s = Some (b, tw, s') \<and>
    (lossy \<and> \<not> b \<and> sink_at emitted sink_inv (emitted s) s' \<or>
     tw_closed k lossy emitted sink_inv (emitted s @ header_bytes build_id seed flags)
       (op_events flags ops @ [stop_event stop_ts]) b hist cur tw s')"
proof -
  obtain taken tw s1 where 1: "tw_begin sinks (Some k) (Some buf) cap build_id seed flags tw_new s = Some (taken, tw, s1)"
    "taken \<or> lossy" "tw_started tw" "\<not> tw_finished tw"
    "if taken then tw_flags tw = flags \<and>
       tw_logged k lossy emitted sink_inv (emitted s @ header_bytes build_id seed flags) [] [] [] tw s1
     else \<not> tw_ok tw \<and> sink_at emitted sink_inv (emitted s) s1"
    using begin_logged [OF assms] by blast
  show ?thesis
  proof (cases taken)
    case False
    then have "tw_session sinks k buf cap build_id seed flags ops stop_ts s = Some (False, tw\<lparr>tw_finished := True\<rparr>, s1)"
      using 1 by (simp add: tw_session_def exec_all_dead tw_finish_def)
    then show ?thesis using False 1 by (intro exI [of _ False]) simp
  next
    case True
    then have l: "tw_flags tw = flags"
      "tw_logged k lossy emitted sink_inv (emitted s @ header_bytes build_id seed flags) [] [] [] tw s1" using 1(5) by simp_all
    from exec_all_logged [OF l(2), of ops] obtain tw2 s2 hist2 cur2 where 2:
      "tw_exec_all sinks ops tw s1 = Some (tw2, s2)"
      "tw_logged k lossy emitted sink_inv (emitted s @ header_bytes build_id seed flags) (op_events flags ops) hist2 cur2 tw2 s2"
      using l(1) by auto
    from finish_logged [OF 2(2), of stop_ts] show ?thesis
      using 1(1) 2(1) by (simp add: tw_session_def) blast
  qed
qed

end

section \<open>Properties\<close>

text \<open>
  C3. Whatever the sink takes or refuses, recording never reaches undefined behaviour. The
  bytes the sink has taken are the header, then one frame for each block taken, then the
  terminator: the frames hold, in order, the events of the calls up to the point where time
  first moves back, and the stop event. The block numbers count the refused blocks too, and
  a recording whose time never moves back is closed with every event in some block.
\<close>

theorem writer_stream:
  assumes "block_sink sinks k emitted sink_inv lossy" "sink_inv s"
    and "kMinBlockBuffer \<le> cap" "unat cap < 4294967277" "unat cap \<le> length buf"
  shows "\<exists>b tw s' hist cur. let log = op_events flags ops @ [stop_event stop_ts] in
    tw_session sinks k buf cap build_id seed flags ops stop_ts s = Some (b, tw, s') \<and>
    (lossy \<and> \<not> b \<and> emitted s' = emitted s \<or>
     hist_events hist @ cur = in_order 0 log \<and> (b \<longrightarrow> in_order 0 log = log) \<and>
       (in_order 0 log = log \<longrightarrow> cur = [] \<and> (b \<or> lossy)) \<and>
       (\<forall>blk \<in> set hist. fst blk \<noteq> [] \<and> (snd blk \<or> lossy)) \<and>
       tw_blocks_lost tw = of_nat (length (filter (\<lambda>blk. \<not> snd blk) hist)) \<and>
       emitted s' = emitted s @ header_bytes build_id seed flags @ frames_of 0 (0, 0) hist @
         (if b then put_u32_le 0 else []))"
proof -
  obtain b tw s' hist cur where r:
    "tw_session sinks k buf cap build_id seed flags ops stop_ts s = Some (b, tw, s')"
    "lossy \<and> \<not> b \<and> sink_at emitted sink_inv (emitted s) s' \<or>
     tw_closed k lossy emitted sink_inv (emitted s @ header_bytes build_id seed flags)
       (op_events flags ops @ [stop_event stop_ts]) b hist cur tw s'"
    using block_sink.session_closed [OF assms] by blast
  then show ?thesis
    by (intro exI [of _ b] exI [of _ tw] exI [of _ s'] exI [of _ hist] exI [of _ cur])
      (auto simp: Let_def sink_at_def tw_closed_def tw_rel_def log_events_def hist_bytes_def
        split: if_splits)
qed

end
