(* ===== verification/Trace_Reader.thy ===== *)
theory Trace_Reader
  imports Trace
begin

text \<open>
  The reader, \<^verbatim>\<open>core/src/trace_reader.cpp\<close>: a pull parser over a whole trace in memory, which
  checks each block as it steps into it. It parses bytes it does not trust, so the first
  results are that it never reads outside the buffer, never overflows and always ends.
  Offsets are \<^verbatim>\<open>u32\<close> and wrap as the code's do.
\<close>

section \<open>State\<close>

record trace_reader =
  tr_data :: "bytes option"
  tr_len :: u32
  tr_hdr :: trace_header
  tr_block_end :: u32
  tr_pos :: u32
  tr_next_block_off :: u32
  tr_last_ts :: u64
  tr_last_addr :: u32
  tr_expect_seq :: u32
  tr_blocks_read :: u32
  tr_blocks_lost :: u32
  tr_opened :: bool
  tr_done :: bool
  tr_err :: "string option"

definition zero_header :: trace_header where
  "zero_header = \<lparr>h_magic = 0, h_version = 0, h_flags = 0, h_build_id = 0, h_seed = 0\<rparr>"

definition tr_new :: trace_reader where
  "tr_new = \<lparr>tr_data = None, tr_len = 0, tr_hdr = zero_header, tr_block_end = 0, tr_pos = 0,
     tr_next_block_off = 0, tr_last_ts = 0, tr_last_addr = 0, tr_expect_seq = 0,
     tr_blocks_read = 0, tr_blocks_lost = 0, tr_opened = False, tr_done = False, tr_err = None\<rparr>"

definition tr_fail :: "string \<Rightarrow> trace_reader \<Rightarrow> trace_reader" where
  "tr_fail why tr = tr\<lparr>tr_err := (if tr_err tr = None then Some why else tr_err tr)\<rparr>"

text \<open>\<^verbatim>\<open>done_ = true; return fail(why)\<close>.\<close>

definition tr_halt :: "string \<Rightarrow> trace_reader \<Rightarrow> trace_reader" where
  "tr_halt why tr = tr_fail why (tr\<lparr>tr_done := True\<rparr>)"

definition tr_ok :: "trace_reader \<Rightarrow> bool" where
  "tr_ok tr \<longleftrightarrow> tr_err tr = None"

definition tr_error :: "trace_reader \<Rightarrow> string" where
  "tr_error tr = (case tr_err tr of None \<Rightarrow> '''' | Some why \<Rightarrow> why)"

section \<open>Operations\<close>

definition tr_open :: "bytes option \<Rightarrow> u32 \<Rightarrow> trace_reader \<Rightarrow> (bool \<times> trace_reader) option" where
  "tr_open data len tr =
     (let tr = tr\<lparr>tr_data := None, tr_len := 0, tr_block_end := 0, tr_pos := 0,
        tr_next_block_off := 0, tr_last_ts := 0, tr_last_addr := 0, tr_expect_seq := 0,
        tr_blocks_read := 0, tr_blocks_lost := 0, tr_opened := False, tr_done := False,
        tr_err := None, tr_hdr := zero_header\<rparr>
      in case data of
        None \<Rightarrow> Some (False, tr_fail ''null trace buffer'' tr)
      | Some d \<Rightarrow>
        if len < kTraceHeaderSize then Some (False, tr_fail ''trace shorter than its header'' tr)
        else do {
          magic \<leftarrow> get_u32_le d 0;
          let tr = tr\<lparr>tr_hdr := (tr_hdr tr)\<lparr>h_magic := magic\<rparr>\<rparr>;
          if magic \<noteq> kTraceMagic
          then Some (False, tr_fail ''bad magic: not a rewind trace'' tr)
          else do {
            version \<leftarrow> get_u16_le d 4;
            let tr = tr\<lparr>tr_hdr := (tr_hdr tr)\<lparr>h_version := version\<rparr>\<rparr>;
            if version < kTraceMinVersion \<or> version > kTraceVersion
            then Some (False, tr_fail ''unsupported trace version'' tr)
            else do {
              flags \<leftarrow> get_u16_le d 6;
              build_id \<leftarrow> get_u64_le d 8;
              seed \<leftarrow> get_u64_le d 16;
              Some (True, tr\<lparr>tr_hdr := (tr_hdr tr)\<lparr>h_flags := flags, h_build_id := build_id,
                  h_seed := seed\<rparr>, tr_data := data, tr_len := len,
                tr_next_block_off := kTraceHeaderSize, tr_opened := True\<rparr>)
            }
          }
        })"

definition tr_load_next_block :: "trace_reader \<Rightarrow> (bool \<times> trace_reader) option" where
  "tr_load_next_block tr =
     (if tr_next_block_off tr > tr_len tr - 4 then Some (False, tr\<lparr>tr_done := True\<rparr>)
      else do {
        data \<leftarrow> tr_data tr;
        payload_len \<leftarrow> get_u32_le data (unat (tr_next_block_off tr));
        if payload_len = 0 then Some (False, tr\<lparr>tr_done := True\<rparr>)
        else
          let remaining = tr_len tr - tr_next_block_off tr - 4 in
          if remaining < 4
          then Some (False, tr_halt ''truncated block: trace ends mid-block'' tr)
          else
            let seq_off = tr_next_block_off tr + 4; remaining = remaining - 4 in
            if payload_len > remaining \<or> remaining - payload_len < 4
            then Some (False, tr_halt ''truncated block: trace ends mid-block'' tr)
            else
              let payload_off = seq_off + 4 in do {
                seq_bytes \<leftarrow> slice data (unat seq_off) 4;
                payload \<leftarrow> slice data (unat payload_off) (unat payload_len);
                let crc = crc32_update (crc32_update crc32_init seq_bytes) payload;
                want \<leftarrow> get_u32_le data (unat (payload_off + payload_len));
                if want \<noteq> crc32_final crc
                then Some (False, tr_halt ''block CRC mismatch: trace is corrupt'' tr)
                else do {
                  seq \<leftarrow> get_u32_le data (unat seq_off);
                  if seq \<noteq> tr_expect_seq tr then
                    if seq < tr_expect_seq tr
                    then Some (False, tr_halt ''block sequence went backwards: trace is not a single recording'' tr)
                    else Some (False, tr_halt ''gap in trace: the device dropped blocks it could not drain in time''
                      (tr\<lparr>tr_blocks_lost := seq - tr_expect_seq tr\<rparr>))
                  else
                    let block_end = payload_off + payload_len in
                    Some (True, tr\<lparr>tr_expect_seq := seq + 1,
                      tr_blocks_read := tr_blocks_read tr + 1, tr_pos := payload_off,
                      tr_block_end := block_end, tr_next_block_off := block_end + 4\<rparr>)
                }
              }
      })"

text \<open>
  The \<^verbatim>\<open>switch\<close> of \<^verbatim>\<open>next\<close>: whether the event is an MMIO event, has an argument, has a
  return address; or that its type is unknown.
\<close>

definition tr_shape :: "u16 \<Rightarrow> u8 \<Rightarrow> (bool \<times> bool \<times> bool) option" where
  "tr_shape version type =
     (if type = ev_code EV_MMIO_READ \<or> type = ev_code EV_MMIO_WRITE then Some (True, True, False)
      else if type = ev_code EV_IRQ_ENTER then Some (False, True, False)
      else if type = ev_code EV_STOP then Some (False, False, False)
      else if type = ev_code EV_IRQ_AT then
        (if version < 3 then None else Some (False, True, True))
      else None)"

text \<open>\<^verbatim>\<open>varint_decode(data_ + pos_ + off, avail - off, &x)\<close> with \<^verbatim>\<open>x\<close> zero before.\<close>

definition tr_varint :: "trace_reader \<Rightarrow> u32 \<Rightarrow> u32 \<Rightarrow> (nat \<times> u64) option" where
  "tr_varint tr off avail = do {
     data \<leftarrow> tr_data tr;
     inp \<leftarrow> slice data (unat (tr_pos tr + off)) (unat (avail - off));
     Some (varint_decode inp 0)
   }"

text \<open>The argument: an address delta for an MMIO event, else a vector number.\<close>

definition tr_argument ::
  "bool \<Rightarrow> u32 \<Rightarrow> u32 \<Rightarrow> trace_reader \<Rightarrow> (trace_reader + u32 \<times> u32 \<times> trace_reader) option" where
  "tr_argument is_mmio_ev off avail tr = do {
     (n, raw) \<leftarrow> tr_varint tr off avail;
     if n = 0 then Some (Inl (tr_halt ''malformed argument varint'' tr))
     else let off = off + of_nat n in
       if is_mmio_ev then do {
         delta \<leftarrow> zigzag_decode raw;
         lower \<leftarrow> i64_neg (i64_of_u32 (tr_last_addr tr));
         let upper = i64_of_u32 (0xFFFFFFFF - tr_last_addr tr);
         if delta < lower \<or> delta > upper
         then Some (Inl (tr_halt ''address delta lands outside the 32-bit space'' tr))
         else do {
           sum \<leftarrow> i64_add (i64_of_u32 (tr_last_addr tr)) delta;
           let addr = u32_of_i64 sum;
           Some (Inr (addr, off, tr\<lparr>tr_last_addr := addr\<rparr>))
         }
       }
       else if raw > 0xFFFFFFFF
       then Some (Inl (tr_halt ''argument does not fit in 32 bits'' tr))
       else Some (Inr (ucast raw, off, tr))
   }"

text \<open>A plain 32-bit field, the return address or the value, with its two messages.\<close>

definition tr_field ::
  "string \<Rightarrow> string \<Rightarrow> u32 \<Rightarrow> u32 \<Rightarrow> trace_reader \<Rightarrow> (trace_reader + u32 \<times> u32) option" where
  "tr_field malformed too_big off avail tr = do {
     (n, raw) \<leftarrow> tr_varint tr off avail;
     if n = 0 then Some (Inl (tr_halt malformed tr))
     else if raw > 0xFFFFFFFF then Some (Inl (tr_halt too_big tr))
     else Some (Inr (ucast raw, off + of_nat n))
   }"

text \<open>\<^verbatim>\<open>next\<close> from the point where \<^verbatim>\<open>pos_ < block_end_\<close>: one event of the loaded block.\<close>

definition tr_decode_event :: "event \<Rightarrow> trace_reader \<Rightarrow> (bool \<times> event \<times> trace_reader) option" where
  "tr_decode_event out tr = (let avail = tr_block_end tr - tr_pos tr in do {
     data \<leftarrow> tr_data tr;
     type \<leftarrow> rd data (unat (tr_pos tr));
     case tr_shape (h_version (tr_hdr tr)) type of
       None \<Rightarrow> Some (False, out, tr_halt ''unknown event type'' tr)
     | Some (is_mmio_ev, has_arg, has_pc) \<Rightarrow> do {
         (n, delta_ts) \<leftarrow> tr_varint tr 1 avail;
         if n = 0 then Some (False, out, tr_halt ''malformed timestamp varint'' tr)
         else do {
           r1 \<leftarrow> (if has_arg then tr_argument is_mmio_ev (1 + of_nat n) avail tr
                  else Some (Inr (0, 1 + of_nat n, tr)));
           case r1 of
             Inl tr \<Rightarrow> Some (False, out, tr)
           | Inr (addr, off, tr) \<Rightarrow> do {
               r2 \<leftarrow> (if has_pc then tr_field ''malformed return address varint''
                         ''return address does not fit in 32 bits'' off avail tr
                      else Some (Inr (0, off)));
               case r2 of
                 Inl tr \<Rightarrow> Some (False, out, tr)
               | Inr (pc, off) \<Rightarrow> do {
                   r3 \<leftarrow> (if is_mmio_ev then tr_field ''malformed value varint''
                             ''value does not fit in 32 bits'' off avail tr
                          else Some (Inr (pc, off)));
                   case r3 of
                     Inl tr \<Rightarrow> Some (False, out, tr)
                   | Inr (val, off) \<Rightarrow>
                       let ts = tr_last_ts tr + delta_ts in
                       Some (True, \<lparr>ev_type = type, ev_ts = ts, ev_addr = addr, ev_value = val\<rparr>,
                         tr\<lparr>tr_last_ts := ts, tr_pos := tr_pos tr + off\<rparr>)
                 }
             }
         }
       }
   })"

text \<open>\<^verbatim>\<open>out\<close> is the event the caller's pointer designates, if the pointer is not null.\<close>

definition tr_next ::
  "event option \<Rightarrow> trace_reader \<Rightarrow> (bool \<times> event option \<times> trace_reader) option" where
  "tr_next out tr =
     (if \<not> tr_opened tr then Some (False, out, tr_fail ''next() before open()'' tr)
      else if tr_done tr \<or> tr_err tr \<noteq> None then Some (False, out, tr)
      else case out of None \<Rightarrow> Some (False, out, tr)
      | Some e \<Rightarrow> do {
          (loaded, tr) \<leftarrow> (if tr_pos tr \<ge> tr_block_end tr then tr_load_next_block tr
                          else Some (True, tr));
          if \<not> loaded then Some (False, out, tr)
          else do {
            (got, e, tr) \<leftarrow> tr_decode_event e tr;
            Some (got, Some e, tr)
          }
        })"

text \<open>The loop \<^verbatim>\<open>while (reader.next(&e)) events.push_back(e)\<close>.\<close>

partial_function (option) tr_read_all ::
  "event \<Rightarrow> trace_reader \<Rightarrow> event list \<Rightarrow> (event list \<times> trace_reader) option" where
  "tr_read_all out tr acc = do {
     (got, out', tr') \<leftarrow> tr_next (Some out) tr;
     if got then tr_read_all (the out') tr' (acc @ [the out']) else Some (acc, tr')
   }"

section \<open>Memory safety and termination\<close>

text \<open>
  What \<^verbatim>\<open>open\<close> establishes and every call of \<^verbatim>\<open>next\<close> keeps: the buffer is there, and the
  unread rest of the block, the block and the next block lie in it in this order.
\<close>

definition tr_inv :: "trace_reader \<Rightarrow> bool" where
  "tr_inv tr \<longleftrightarrow> (tr_opened tr \<longrightarrow>
     (\<exists>d. tr_data tr = Some d \<and> unat (tr_len tr) \<le> length d) \<and> 32 \<le> unat (tr_len tr) \<and>
     unat (tr_next_block_off tr) \<le> unat (tr_len tr) \<and>
     unat (tr_block_end tr) \<le> unat (tr_next_block_off tr) \<and>
     unat (tr_pos tr) \<le> unat (tr_block_end tr))"

text \<open>What is left to read.\<close>

definition tr_left :: "trace_reader \<Rightarrow> nat" where
  "tr_left tr = (unat (tr_len tr) - unat (tr_next_block_off tr)) + (unat (tr_block_end tr) - unat (tr_pos tr))"

text \<open>The bytes of the current block that are still unread.\<close>

definition tr_rest :: "bytes \<Rightarrow> trace_reader \<Rightarrow> bytes" where
  "tr_rest d tr = take (unat (tr_block_end tr) - unat (tr_pos tr)) (drop (unat (tr_pos tr)) d)"

definition tr_window :: "bytes \<Rightarrow> u32 \<Rightarrow> trace_reader \<Rightarrow> bool" where
  "tr_window d avail tr \<longleftrightarrow> tr_data tr = Some d \<and> unat (tr_block_end tr) \<le> length d \<and>
     unat (tr_pos tr) \<le> unat (tr_block_end tr) \<and> avail = tr_block_end tr - tr_pos tr"

lemma tr_window_avail:
  "tr_window d avail tr \<Longrightarrow> unat avail = unat (tr_block_end tr) - unat (tr_pos tr)"
  by (auto simp: tr_window_def unat_sub word_le_nat_alt)

lemma length_tr_rest: "tr_window d avail tr \<Longrightarrow> length (tr_rest d tr) = unat avail"
  using tr_window_avail [of d avail tr] unfolding tr_rest_def tr_window_def
  by (simp add: min_def) linarith

lemma tr_varint_eq:
  assumes w: "tr_window d avail tr" and off: "unat off \<le> unat avail"
  shows "tr_varint tr off avail = Some (varint_decode (drop (unat off) (tr_rest d tr)) 0)"
proof -
  have a: "unat avail = unat (tr_block_end tr) - unat (tr_pos tr)"
    "unat (avail - off) = unat avail - unat off"
    using tr_window_avail [OF w] off by (auto simp: unat_sub word_le_nat_alt)
  have le: "unat (tr_pos tr) \<le> unat (tr_block_end tr)" "unat (tr_block_end tr) \<le> length d"
    "tr_data tr = Some d"
    using w by (auto simp: tr_window_def)
  then have "unat (tr_pos tr + off) = unat (tr_pos tr) + unat off"
    using off a unat_u32_lt [of "tr_block_end tr"] by (intro unat_add_no_wrap) linarith
  moreover have "slice d (unat (tr_pos tr) + unat off) (unat avail - unat off) =
      Some (drop (unat off) (tr_rest d tr))"
    using a(1) le off unfolding tr_rest_def drop_take drop_drop
    by (subst slice_Some) (linarith, simp only: add.commute)
  ultimately show ?thesis
    using a(2) le(3) by (simp add: tr_varint_def)
qed

lemma tr_varint_bound:
  assumes "tr_window d avail tr" "unat off \<le> unat avail"
  obtains n x off' where "tr_varint tr off avail = Some (n, x)" "off + of_nat n = off'"
    "unat off' \<le> unat avail" "unat off \<le> unat off'"
proof -
  obtain n x where v: "varint_decode (drop (unat off) (tr_rest d tr)) 0 = (n, x)" by fastforce
  have "n \<le> length (drop (unat off) (tr_rest d tr))" "n \<le> 10"
    using varint_decode_sound [OF v] by (cases "n = 0"; simp)+
  then have n: "unat off + n \<le> unat avail" "n \<le> 10"
    using length_tr_rest [OF assms(1)] assms(2) by simp_all
  then have "unat (off + of_nat n) = unat off + n"
    using unat_u32_lt [of avail] by (subst unat_add_no_wrap) simp_all
  with that v n tr_varint_eq [OF assms] show thesis by simp
qed

text \<open>What a failing stage leaves of the reader.\<close>

definition tr_frame :: "trace_reader \<Rightarrow> trace_reader \<Rightarrow> bool" where
  "tr_frame tr tr' \<longleftrightarrow> tr_data tr' = tr_data tr \<and> tr_len tr' = tr_len tr \<and>
     tr_hdr tr' = tr_hdr tr \<and> tr_block_end tr' = tr_block_end tr \<and>
     tr_next_block_off tr' = tr_next_block_off tr \<and> tr_opened tr' = tr_opened tr"

lemma tr_frame_halt [simp]:
  "tr_frame tr (tr_halt why tr')= tr_frame tr tr'" "tr_pos (tr_halt why tr') = tr_pos tr'"
  by (simp_all add: tr_frame_def tr_halt_def tr_fail_def)

lemma tr_halt_sel [simp]:
  "tr_data (tr_halt why tr) = tr_data tr" "tr_len (tr_halt why tr) = tr_len tr"
  "tr_opened (tr_halt why tr) = tr_opened tr" "tr_done (tr_halt why tr)"
  "tr_err (tr_halt why tr) \<noteq> None" "tr_blocks_lost (tr_halt why tr) = tr_blocks_lost tr"
  "tr_hdr (tr_halt why tr) = tr_hdr tr" "tr_expect_seq (tr_halt why tr) = tr_expect_seq tr"
  by (simp_all add: tr_halt_def tr_fail_def)

lemma tr_frame_refl [simp]: "tr_frame tr tr" "tr_frame tr (tr\<lparr>tr_last_addr := a\<rparr>)"
  "tr_frame tr (tr\<lparr>tr_blocks_lost := n\<rparr>)" "tr_frame tr (tr\<lparr>tr_done := b\<rparr>)"
  by (simp_all add: tr_frame_def)

lemma tr_argument_safe:
  assumes w: "tr_window d avail tr" and off: "unat off \<le> unat avail"
  shows "\<exists>r. tr_argument is_mmio_ev off avail tr = Some r \<and>
    (case r of Inl tr' \<Rightarrow> tr_frame tr tr' \<and> tr_pos tr' = tr_pos tr
     | Inr (addr, off', tr') \<Rightarrow> unat off \<le> unat off' \<and> unat off' \<le> unat avail \<and>
         tr_frame tr tr' \<and> tr_pos tr' = tr_pos tr)"
proof -
  obtain n x off' where v: "tr_varint tr off avail = Some (n, x)" "off + of_nat n = off'"
    "unat off' \<le> unat avail" "unat off \<le> unat off'"
    using tr_varint_bound [OF w off] .
  obtain delta where delta: "zigzag_decode x = Some delta" "i64_range delta"
    using zigzag_decode_total by blast
  note b = uint_u32_bounds [of "tr_last_addr tr"]
  have lower: "i64_neg (i64_of_u32 (tr_last_addr tr)) = Some (- uint (tr_last_addr tr))"
    unfolding i64_neg_def i64_of_u32_def i64_chk_Some i64_range_num using b by linarith
  have upper: "i64_of_u32 (0xFFFFFFFF - tr_last_addr tr) = 0xFFFFFFFF - uint (tr_last_addr tr)"
    using b by (simp add: i64_of_u32_def uint_sub_if' )
  have sum: "i64_add (i64_of_u32 (tr_last_addr tr)) delta = Some (uint (tr_last_addr tr) + delta)"
    if "\<not> delta < - uint (tr_last_addr tr)" "\<not> delta > 0xFFFFFFFF - uint (tr_last_addr tr)"
    using b that by (auto simp: i64_add_def i64_of_u32_def i64_range_def)
  show ?thesis
    using sum v(3,4)
    by (simp add: tr_argument_def v(1,2) delta lower upper Let_def)
qed

lemma tr_field_safe:
  assumes w: "tr_window d avail tr" and off: "unat off \<le> unat avail"
  shows "\<exists>r. tr_field m1 m2 off avail tr = Some r \<and>
    (case r of Inl tr' \<Rightarrow> tr_frame tr tr' \<and> tr_pos tr' = tr_pos tr
     | Inr (v, off') \<Rightarrow> unat off \<le> unat off' \<and> unat off' \<le> unat avail)"
proof -
  obtain n x off' where v: "tr_varint tr off avail = Some (n, x)" "off + of_nat n = off'"
    "unat off' \<le> unat avail" "unat off \<le> unat off'"
    using tr_varint_bound [OF w off] .
  then show ?thesis by (simp add: tr_field_def)
qed

lemma tr_window_frame:
  "tr_frame tr tr' \<Longrightarrow> tr_pos tr' = tr_pos tr \<Longrightarrow> tr_window d avail tr' = tr_window d avail tr"
  by (simp add: tr_frame_def tr_window_def)

lemma tr_frame_trans: "tr_frame a b \<Longrightarrow> tr_frame b c \<Longrightarrow> tr_frame a c"
  by (simp add: tr_frame_def)

text \<open>
  What decoding may return: an event, with the reader moved on inside the block, or a failure
  that leaves the reader where it was. The decoder runs its stages in a chain that the first
  failing stage ends.
\<close>

definition decode_safe :: "trace_reader \<Rightarrow> (bool \<times> event \<times> trace_reader) option \<Rightarrow> bool" where
  "decode_safe tr res \<longleftrightarrow> (case res of None \<Rightarrow> False
     | Some (got, e, tr') \<Rightarrow> tr_frame tr tr' \<and>
         (if got then unat (tr_pos tr) < unat (tr_pos tr') \<and> unat (tr_pos tr') \<le> unat (tr_block_end tr) \<and> ev_ok e
          else tr_pos tr' = tr_pos tr))"

lemma decode_stage:
  assumes "\<exists>r. st = Some r \<and> (case r of Inl tr' \<Rightarrow> tr_frame tr1 tr' \<and> tr_pos tr' = tr_pos tr1 | Inr x \<Rightarrow> G x)"
    and "tr_frame tr tr1" "tr_pos tr1 = tr_pos tr"
    and "\<And>x. G x \<Longrightarrow> decode_safe tr (k x)"
  shows "decode_safe tr (Option.bind st (\<lambda>r. case r of Inl tr' \<Rightarrow> Some (False, out, tr') | Inr x \<Rightarrow> k x))"
proof -
  obtain r where r: "st = Some r"
    "case r of Inl tr' \<Rightarrow> tr_frame tr1 tr' \<and> tr_pos tr' = tr_pos tr1 | Inr x \<Rightarrow> G x"
    using assms(1) by blast
  show ?thesis
  proof (cases r)
    case (Inl tr')
    then show ?thesis using r assms(2,3) by (auto simp: decode_safe_def intro: tr_frame_trans)
  next
    case (Inr x)
    then show ?thesis using r assms(4) by simp
  qed
qed

lemma decode_done:
  assumes w: "tr_window d avail tr" and off: "1 \<le> unat off" "unat off \<le> unat avail"
    and tr1: "tr_frame tr tr1" "tr_pos tr1 = tr_pos tr" and e: "ev_ok e"
  shows "decode_safe tr (Some (True, e, tr1\<lparr>tr_last_ts := ts, tr_pos := tr_pos tr + off\<rparr>))"
proof -
  have "unat (tr_pos tr + off) = unat (tr_pos tr) + unat off"
    using off tr_window_avail [OF w] unat_u32_lt [of "tr_block_end tr"]
    by (intro unat_add_no_wrap) linarith
  then have "unat (tr_pos tr) < unat (tr_pos tr + off)" "unat (tr_pos tr + off) \<le> unat (tr_block_end tr)"
    using off tr_window_avail [OF w] by linarith+
  then show ?thesis using tr1 e by (simp add: decode_safe_def tr_frame_def)
qed

lemma tr_shape_ev_ok:
  assumes "tr_shape version type = Some (is_mmio_ev, has_arg, has_pc)"
    "\<not> has_arg \<longrightarrow> addr = 0" "\<not> has_pc \<longrightarrow> pc = 0" "\<not> is_mmio_ev \<longrightarrow> val = pc"
  shows "ev_ok \<lparr>ev_type = type, ev_ts = ts, ev_addr = addr, ev_value = val\<rparr>"
  using assms by (auto simp: tr_shape_def ev_ok_def is_mmio_def split: if_splits)

lemma tr_decode_event_safe:
  assumes w: "tr_window d avail tr" and some: "0 < unat avail"
  shows "decode_safe tr (tr_decode_event out tr)"
proof -
  have avail: "avail = tr_block_end tr - tr_pos tr" "tr_data tr = Some d" "unat (tr_pos tr) < length d"
    using w some tr_window_avail [OF w] by (auto simp: tr_window_def)
  define type where "type = d ! unat (tr_pos tr)"
  have rd: "rd d (unat (tr_pos tr)) = Some type" using avail(3) by (simp add: type_def)
  have "unat (1 :: u32) \<le> unat avail" using some by simp
  then obtain n ts and off :: u32 where ts: "tr_varint tr 1 avail = Some (n, ts)"
    "1 + of_nat n = off" "unat off \<le> unat avail" "1 \<le> unat off"
    by (rule tr_varint_bound [OF w]) simp
  note start = tr_decode_event_def Let_def avail(2) rd avail(1) [symmetric] ts(1,2)
  show ?thesis
  proof (cases "tr_shape (h_version (tr_hdr tr)) type = None \<or> n = 0")
    case True
    then show ?thesis by (cases "tr_shape (h_version (tr_hdr tr)) type") (auto simp: start decode_safe_def)
  next
    case False
    then obtain is_mmio_ev has_arg has_pc where
      sh: "tr_shape (h_version (tr_hdr tr)) type = Some (is_mmio_ev, has_arg, has_pc)" and n: "n \<noteq> 0"
      by auto
    have arg: "\<exists>r. (if has_arg then tr_argument is_mmio_ev off avail tr else Some (Inr (0, off, tr))) = Some r \<and>
        (case r of Inl tr' \<Rightarrow> tr_frame tr tr' \<and> tr_pos tr' = tr_pos tr
         | Inr (addr, off', tr') \<Rightarrow> 1 \<le> unat off' \<and> unat off' \<le> unat avail \<and> tr_frame tr tr' \<and>
             tr_pos tr' = tr_pos tr \<and> (\<not> has_arg \<longrightarrow> addr = 0))"
      using tr_argument_safe [OF w ts(3), of is_mmio_ev] ts(3,4)
      by (cases has_arg) (auto split: sum.splits)
    have field: "\<exists>r. (if want then tr_field m1 m2 off1 avail tr1 else Some (Inr (v, off1))) = Some r \<and>
        (case r of Inl tr' \<Rightarrow> tr_frame tr1 tr' \<and> tr_pos tr' = tr_pos tr1
         | Inr (v', off') \<Rightarrow> 1 \<le> unat off' \<and> unat off' \<le> unat avail \<and> (\<not> want \<longrightarrow> v' = v))"
      if "1 \<le> unat off1" "unat off1 \<le> unat avail" "tr_frame tr tr1" "tr_pos tr1 = tr_pos tr"
      for want m1 m2 off1 tr1 v
      using that tr_field_safe [of d avail tr1 off1 m1 m2] w
      by (cases want) (auto simp: tr_window_frame split: sum.splits)
    show ?thesis
      apply (simp only: start sh n Option.bind.simps option.case prod.case if_False)
      apply (rule decode_stage [OF arg], simp_all only: tr_frame_refl split_paired_all prod.case, elim conjE)
      apply (rule decode_stage [OF field], assumption+, simp only: split_paired_all prod.case, elim conjE)
      apply (rule decode_stage [OF field], assumption+, simp only: split_paired_all prod.case, elim conjE)
      apply (rule decode_done [OF w], assumption+)
      apply (rule tr_shape_ev_ok [OF sh], assumption+)
      done
  qed
qed

lemma get_u32_exists: "off + 4 \<le> length d \<Longrightarrow> \<exists>v. get_u32_le d off = Some v"
  by (rule get_le_defined(2))

text \<open>The tests on the length field, and where they put the parts of the frame.\<close>

lemma frame_within:
  fixes nbo len pl :: u32
  defines "rem \<equiv> len - nbo - 4"
  assumes len: "4 \<le> unat len" and fits: "\<not> nbo > len - 4" "\<not> rem < 4" "\<not> (pl > rem - 4 \<or> rem - 4 - pl < 4)"
  shows "unat nbo + 12 + unat pl \<le> unat len" and "unat (nbo + 4) = unat nbo + 4"
    and "unat (nbo + 4 + 4) = unat nbo + 8" and "unat (nbo + 4 + 4 + pl) = unat nbo + 8 + unat pl"
    and "unat (nbo + 4 + 4 + pl + 4) = unat nbo + 12 + unat pl"
proof -
  have "unat nbo + 4 \<le> unat len" using fits(1) len by (simp add: word_less_nat_alt unat_sub word_le_nat_alt)
  then have rem: "unat rem = unat len - unat nbo - 4" by (simp add: rem_def unat_sub word_le_nat_alt)
  then have rem4: "unat (rem - 4) = unat len - unat nbo - 8"
    using fits(2) by (simp add: unat_sub word_le_nat_alt not_less)
  have "unat pl \<le> unat len - unat nbo - 8" using fits(3) rem4 by (simp add: word_less_nat_alt)
  then have "unat (rem - 4 - pl) = unat len - unat nbo - 8 - unat pl"
    using rem4 by (simp add: unat_sub word_le_nat_alt)
  then show le: "unat nbo + 12 + unat pl \<le> unat len"
    using fits(2,3) rem unfolding word_less_nat_alt by simp linarith
  note no_wrap = unat_add_no_wrap unat_u32_lt [of len]
  show so: "unat (nbo + 4) = unat nbo + 4" using le no_wrap(2) by (simp add: no_wrap(1))
  show po: "unat (nbo + 4 + 4) = unat nbo + 8" using le no_wrap(2) so by (subst no_wrap(1)) simp_all
  show be: "unat (nbo + 4 + 4 + pl) = unat nbo + 8 + unat pl"
    using le no_wrap(2) po by (subst no_wrap(1)) simp_all
  show "unat (nbo + 4 + 4 + pl + 4) = unat nbo + 12 + unat pl"
    using le no_wrap(2) be by (subst no_wrap(1)) simp_all
qed

text \<open>What is made of a block that lies in the buffer, and that the reader decides so.\<close>

definition block_verdict :: "bool \<Rightarrow> u32 \<Rightarrow> u32 \<Rightarrow> trace_reader \<Rightarrow> bool \<times> trace_reader" where
  "block_verdict sound n pl tr = (let off = tr_next_block_off tr; e = off + 8 + pl in
     if \<not> sound then (False, tr_halt ''block CRC mismatch: trace is corrupt'' tr)
     else if n \<noteq> tr_expect_seq tr then
       if n < tr_expect_seq tr
       then (False, tr_halt ''block sequence went backwards: trace is not a single recording'' tr)
       else (False, tr_halt ''gap in trace: the device dropped blocks it could not drain in time''
         (tr\<lparr>tr_blocks_lost := n - tr_expect_seq tr\<rparr>))
     else (True, tr\<lparr>tr_expect_seq := n + 1, tr_blocks_read := tr_blocks_read tr + 1,
       tr_pos := off + 8, tr_block_end := e, tr_next_block_off := e + 4\<rparr>))"

lemma tr_load_verdict:
  assumes d: "tr_data tr = Some d" "unat (tr_len tr) \<le> length d" "4 \<le> unat (tr_len tr)"
    and pl: "get_u32_le d (unat (tr_next_block_off tr)) = Some pl" "pl \<noteq> 0"
    and fits: "\<not> tr_next_block_off tr > tr_len tr - 4" "\<not> tr_len tr - tr_next_block_off tr - 4 < 4"
      "\<not> (pl > tr_len tr - tr_next_block_off tr - 4 - 4 \<or> tr_len tr - tr_next_block_off tr - 4 - 4 - pl < 4)"
  shows "\<exists>n want. get_u32_le d (unat (tr_next_block_off tr) + 4) = Some n \<and>
    get_u32_le d (unat (tr_next_block_off tr) + 8 + unat pl) = Some want \<and>
    tr_load_next_block tr = Some (block_verdict (want = crc32 (take 4 (drop (unat (tr_next_block_off tr) + 4) d) @
      take (unat pl) (drop (unat (tr_next_block_off tr) + 8) d))) n pl tr)"
proof -
  let ?off = "unat (tr_next_block_off tr)"
  note at = frame_within [OF d(3) fits]
  obtain n want where n: "get_u32_le d (?off + 4) = Some n" "get_u32_le d (?off + 8 + unat pl) = Some want"
    using at(1) d(2) get_u32_exists [of "?off + 4" d] get_u32_exists [of "?off + 8 + unat pl" d] by auto
  have s: "slice d (?off + 4) 4 = Some (take 4 (drop (?off + 4) d))"
    "slice d (?off + 8) (unat pl) = Some (take (unat pl) (drop (?off + 8) d))"
    using at(1) d(2) by (intro slice_Some; simp)+
  have po: "tr_next_block_off tr + 8 = tr_next_block_off tr + 4 + 4" by simp
  have "tr_load_next_block tr = Some (block_verdict (want = crc32 (take 4 (drop (?off + 4) d) @
      take (unat pl) (drop (?off + 8) d))) n pl tr)"
    unfolding tr_load_next_block_def block_verdict_def Let_def crc32_def crc.split_feed po
    by (simp only: d(1) pl fits at(2-4) n s if_False if_True Option.bind.bind_lunit not_not if_distrib [of Some])
  with n show ?thesis by blast
qed

text \<open>
  A block is loaded only if its frame lies in the buffer; then it is unread as a whole.
\<close>

lemma tr_load_next_block_safe:
  assumes inv: "tr_inv tr" and opened: "tr_opened tr"
  shows "\<exists>loaded tr'. tr_load_next_block tr = Some (loaded, tr') \<and>
    tr_data tr' = tr_data tr \<and> tr_len tr' = tr_len tr \<and> tr_opened tr' \<and>
    (if loaded then tr_inv tr' \<and> tr_left tr' < tr_left tr \<and> unat (tr_pos tr') < unat (tr_block_end tr')
     else tr_frame tr tr' \<and> tr_pos tr' = tr_pos tr)"
proof -
  let ?nbo = "tr_next_block_off tr" and ?off = "unat (tr_next_block_off tr)" and ?len = "unat (tr_len tr)"
  obtain d where d: "tr_data tr = Some d" "?len \<le> length d" "32 \<le> ?len" "?off \<le> ?len"
    "unat (tr_block_end tr) \<le> ?off" "unat (tr_pos tr) \<le> unat (tr_block_end tr)"
    using inv opened by (auto simp: tr_inv_def)
  show ?thesis
  proof (cases "?nbo > tr_len tr - 4")
    case True
    then show ?thesis using opened by (auto simp: tr_load_next_block_def tr_frame_def)
  next
    case False
    then have "?off + 4 \<le> length d" using d(2,3) by (simp add: unat_sub word_le_nat_alt word_less_nat_alt)
    from get_u32_exists [OF this] obtain pl where pl: "get_u32_le d ?off = Some pl" by blast
    define rem where "rem = tr_len tr - ?nbo - 4"
    show ?thesis
    proof (cases "pl = 0 \<or> rem < 4 \<or> pl > rem - 4 \<or> rem - 4 - pl < 4")
      case True
      then show ?thesis
        using opened by (auto simp: tr_load_next_block_def False d(1) pl rem_def [symmetric] Let_def tr_frame_def
          tr_halt_def tr_fail_def)
    next
      case fits: False
      have ok: "4 \<le> ?len" "pl \<noteq> 0" "\<not> rem < 4" "\<not> (pl > rem - 4 \<or> rem - 4 - pl < 4)" using fits d(3) by auto
      have four_four: "?nbo + 8 = ?nbo + 4 + 4" by simp
      note at = frame_within [OF ok(1) False ok(3,4) [unfolded rem_def]]
      obtain sound n where v: "tr_load_next_block tr = Some (block_verdict sound n pl tr)"
        using tr_load_verdict [OF d(1,2) ok(1) pl ok(2) False ok(3,4) [unfolded rem_def]] by blast
      define po e nb where w: "po = ?nbo + 8" "e = ?nbo + 8 + pl" "nb = ?nbo + 8 + pl + 4"
      have at': "unat po = ?off + 8" "unat e = ?off + 8 + unat pl" "unat nb = ?off + 12 + unat pl"
        using at(3-5) by (simp_all only: w four_four)
      have pl0: "0 < unat pl" using ok(2) by (simp add: unat_gt_0)
      note v = v [unfolded block_verdict_def Let_def, folded w]
      show ?thesis
      proof (cases "sound \<and> n = tr_expect_seq tr")
        case True
        then have eq: "tr_load_next_block tr = Some (True, tr\<lparr>tr_expect_seq := n + 1,
            tr_blocks_read := tr_blocks_read tr + 1, tr_pos := po, tr_block_end := e, tr_next_block_off := nb\<rparr>)"
          (is "_ = Some (True, ?tr')")
          using v by simp
        have "tr_inv ?tr' \<and> tr_left ?tr' < tr_left tr \<and> unat po < unat e"
          using at' d at(1) pl0 by (auto simp: tr_inv_def tr_left_def)
        then show ?thesis using eq opened by auto
      next
        case False
        then show ?thesis using v opened by auto
      qed
    qed
  qed
qed

lemma tr_decode_event_inv:
  assumes inv: "tr_inv tr" "tr_opened tr" and pos: "unat (tr_pos tr) < unat (tr_block_end tr)"
  shows "\<exists>got e' tr'. tr_decode_event e tr = Some (got, e', tr') \<and> tr_inv tr' \<and>
    (got \<longrightarrow> tr_left tr' < tr_left tr \<and> ev_ok e')"
proof -
  from assms obtain d where d: "tr_window d (tr_block_end tr - tr_pos tr) tr"
    by (force simp: tr_inv_def tr_window_def)
  obtain got e' tr' where r: "tr_decode_event e tr = Some (got, e', tr')" "tr_frame tr tr'"
    "if got then unat (tr_pos tr) < unat (tr_pos tr') \<and> unat (tr_pos tr') \<le> unat (tr_block_end tr) \<and> ev_ok e'
     else tr_pos tr' = tr_pos tr"
    using tr_decode_event_safe [OF d, of e] tr_window_avail [OF d] pos
    by (auto simp: decode_safe_def split: option.splits)
  then have "tr_inv tr'"
    using inv by (auto simp: tr_inv_def tr_frame_def split: if_splits)
  moreover have "got \<longrightarrow> tr_left tr' < tr_left tr"
    using r(2,3) by (auto simp: tr_left_def tr_frame_def)
  ultimately show ?thesis using r by auto
qed

lemma tr_next_safe:
  assumes inv: "tr_inv tr"
  shows "\<exists>got out' tr'. tr_next out tr = Some (got, out', tr') \<and> tr_inv tr' \<and>
    (got \<longrightarrow> tr_left tr' < tr_left tr \<and> (\<exists>e. out' = Some e \<and> ev_ok e))"
proof (cases "\<not> tr_opened tr \<or> tr_done tr \<or> tr_err tr \<noteq> None \<or> out = None")
  case True
  then show ?thesis
    using inv by (auto simp: tr_next_def tr_inv_def tr_fail_def split: option.splits)
next
  case False
  then obtain e where run: "tr_opened tr" "\<not> tr_done tr" "tr_err tr = None" "out = Some e" by auto
  show ?thesis
  proof (cases "tr_pos tr \<ge> tr_block_end tr")
    case False
    then have "unat (tr_pos tr) < unat (tr_block_end tr)" by (simp add: word_le_nat_alt)
    from tr_decode_event_inv [OF inv run(1) this, of e] show ?thesis
      using run False by (auto simp: tr_next_def)
  next
    case True
    obtain loaded tr1 where l: "tr_load_next_block tr = Some (loaded, tr1)" "tr_opened tr1"
      "if loaded then tr_inv tr1 \<and> tr_left tr1 < tr_left tr \<and> unat (tr_pos tr1) < unat (tr_block_end tr1)
       else tr_frame tr tr1 \<and> tr_pos tr1 = tr_pos tr"
      using tr_load_next_block_safe [OF inv run(1)] by auto
    show ?thesis
    proof (cases loaded)
      case False
      then have "tr_inv tr1" using l inv by (auto simp: tr_inv_def tr_frame_def)
      then show ?thesis using run True l False by (auto simp: tr_next_def)
    next
      case loaded: True
      then obtain got e' tr' where "tr_decode_event e tr1 = Some (got, e', tr')" "tr_inv tr'"
        "got \<longrightarrow> tr_left tr' < tr_left tr1 \<and> ev_ok e'"
        using tr_decode_event_inv [of tr1 e] l by auto
      then show ?thesis using run True l loaded by (auto simp: tr_next_def)
    qed
  qed
qed

lemma tr_open_inv:
  assumes "unat len \<le> length d"
  shows "\<exists>ok tr'. tr_open (Some d) len tr = Some (ok, tr') \<and> tr_inv tr' \<and> tr_left tr' \<le> unat len \<and>
    tr_opened tr' = ok"
proof (cases "len < kTraceHeaderSize")
  case True
  then show ?thesis
    by (auto simp: tr_open_def Let_def tr_inv_def tr_fail_def tr_left_def)
next
  case False
  then have len: "32 \<le> unat len" "32 \<le> length d"
    using assms by (auto simp: kTraceHeaderSize_def word_le_nat_alt not_less)
  obtain a b c e f where g: "get_u32_le d 0 = Some a" "get_u16_le d 4 = Some b" "get_u16_le d 6 = Some c"
    "get_u64_le d 8 = Some e" "get_u64_le d 16 = Some f"
    using get_le_defined [of _ d] len(2) by fastforce
  show ?thesis
    using False len assms
    by (auto simp: tr_open_def Let_def g tr_inv_def tr_fail_def tr_left_def kTraceHeaderSize_def)
qed

lemma tr_read_all_total:
  "tr_inv tr \<Longrightarrow> (\<forall>e \<in> set acc. ev_ok e) \<Longrightarrow> \<exists>evs tr'. tr_read_all out tr acc = Some (evs, tr') \<and> tr_inv tr' \<and>
     length evs \<le> length acc + tr_left tr \<and> (\<forall>e \<in> set evs. ev_ok e)"
proof (induction "tr_left tr" arbitrary: tr acc out rule: less_induct)
  case less
  obtain got out' tr' where n: "tr_next (Some out) tr = Some (got, out', tr')" "tr_inv tr'"
    "got \<longrightarrow> tr_left tr' < tr_left tr \<and> (\<exists>e. out' = Some e \<and> ev_ok e)"
    using tr_next_safe [OF less.prems(1)] by blast
  show ?case
  proof (cases got)
    case False
    then show ?thesis using n less.prems by (subst tr_read_all.simps) simp
  next
    case True
    then obtain evs tr'' where "tr_read_all (the out') tr' (acc @ [the out']) = Some (evs, tr'')"
      "tr_inv tr''" "length evs \<le> length (acc @ [the out']) + tr_left tr'" "\<forall>e \<in> set evs. ev_ok e"
      using less.hyps [of tr' "acc @ [the out']" "the out'"] n less.prems(2) by auto
    then show ?thesis using n True by (subst tr_read_all.simps) auto
  qed
qed

section \<open>Reading back what the format describes\<close>

text \<open>One field: after the bytes \<^verbatim>\<open>pre\<close> of the block, the varint of \<^verbatim>\<open>v\<close>.\<close>

lemma tr_varint_encoded:
  assumes w: "tr_window d avail tr" and rest: "tr_rest d tr = pre @ varint_encode v @ post"
    and off: "off = of_nat (length pre)"
  shows "tr_varint tr off avail = Some (length (varint_encode v), v)"
    "off + of_nat (length (varint_encode v)) = of_nat (length (pre @ varint_encode v))"
proof -
  have "length pre \<le> unat avail"
    using length_tr_rest [OF w] by (simp add: rest)
  moreover from this have "unat off = length pre"
    using unat_u32_lt [of avail] by (simp add: off)
  ultimately show "tr_varint tr off avail = Some (length (varint_encode v), v)"
    using tr_varint_eq [OF w, of off] by (simp add: rest varint_decode_encode)
qed (simp add: off)

lemma tr_argument_encoded:
  assumes w: "tr_window d avail tr" and off: "off = of_nat (length pre)"
  shows "tr_rest d tr = pre @ varint_encode (the (zigzag_encode (addr_delta (tr_last_addr tr) addr))) @ post \<Longrightarrow>
      tr_argument True off avail tr = Some (Inr (addr,
        of_nat (length (pre @ varint_encode (the (zigzag_encode (addr_delta (tr_last_addr tr) addr))))),
        tr\<lparr>tr_last_addr := addr\<rparr>))"
    and "tr_rest d tr = pre @ varint_encode (ucast addr) @ post \<Longrightarrow>
      tr_argument False off avail tr = Some (Inr (addr, of_nat (length (pre @ varint_encode (ucast addr))), tr))"
proof -
  let ?last = "uint (tr_last_addr tr)" and ?delta = "addr_delta (tr_last_addr tr) addr"
  note b = uint_u32_bounds [of "tr_last_addr tr"] uint_u32_bounds [of addr]
  have zz: "zigzag_decode (the (zigzag_encode ?delta)) = Some ?delta"
    using zigzag_decode_encode [of ?delta] zigzag_encode_eq [of ?delta]
      addr_delta_range [of "tr_last_addr tr" addr] by (metis option.sel)
  have lower: "i64_neg (i64_of_u32 (tr_last_addr tr)) = Some (- ?last)"
    unfolding i64_neg_def i64_of_u32_def i64_chk_Some i64_range_num using b by linarith
  have upper: "i64_of_u32 (0xFFFFFFFF - tr_last_addr tr) = 0xFFFFFFFF - ?last"
    using b by (simp add: i64_of_u32_def uint_sub_if')
  have range: "\<not> (?delta < - ?last \<or> ?delta > 0xFFFFFFFF - ?last)"
    unfolding addr_delta_def using b by linarith
  have sum: "i64_add (i64_of_u32 (tr_last_addr tr)) ?delta = Some (uint addr)"
    unfolding i64_add_def i64_of_u32_def i64_chk_Some i64_range_num addr_delta_def using b by linarith
  show "tr_argument True off avail tr = Some (Inr (addr,
        of_nat (length (pre @ varint_encode (the (zigzag_encode ?delta)))), tr\<lparr>tr_last_addr := addr\<rparr>))"
    if "tr_rest d tr = pre @ varint_encode (the (zigzag_encode ?delta)) @ post"
    using tr_varint_encoded [OF w that off] range
    by (simp add: tr_argument_def zz lower upper sum Let_def u32_of_i64_def)
  show "tr_argument False off avail tr = Some (Inr (addr, of_nat (length (pre @ varint_encode (ucast addr))), tr))"
    if "tr_rest d tr = pre @ varint_encode (ucast addr) @ post"
    using tr_varint_encoded [OF w that off] by (simp add: tr_argument_def Let_def u64_of_u32_le)
qed

lemma tr_field_encoded:
  assumes w: "tr_window d avail tr" and off: "off = of_nat (length pre)"
    and rest: "tr_rest d tr = pre @ varint_encode (ucast v) @ post"
  shows "tr_field m1 m2 off avail tr = Some (Inr (v, of_nat (length (pre @ varint_encode (ucast v)))))"
  using tr_varint_encoded [OF w rest off] by (simp add: tr_field_def u64_of_u32_le)

lemma rd_rest:
  assumes w: "tr_window d avail tr" and rest: "tr_rest d tr = b # bs"
  shows "rd d (unat (tr_pos tr)) = Some b"
proof -
  have "unat (tr_pos tr) < length d"
    using rest by (intro not_le_imp_less notI) (simp add: tr_rest_def)
  moreover from this have "drop (unat (tr_pos tr)) d ! 0 = b"
    using rest unfolding tr_rest_def by (metis nth_Cons_0 nth_take length_take length_Cons min_less_iff_conj zero_less_Suc)
  ultimately show ?thesis by simp
qed

text \<open>One event of the block: it is delivered, and the rest of the block stays.\<close>

lemma tr_decode_event_encoded:
  assumes w: "tr_window d avail tr" and ok: "ev_ok e" and ver: "h_version (tr_hdr tr) = 3"
    and p: "p = (tr_last_ts tr, tr_last_addr tr)"
    and rest: "tr_rest d tr = enc_event p e @ post"
  shows "tr_decode_event out tr = Some (True, e, tr\<lparr>tr_last_ts := ev_ts e,
    tr_last_addr := snd (next_pred p e), tr_pos := tr_pos tr + of_nat (length (enc_event p e))\<rparr>)"
proof -
  have avail: "avail = tr_block_end tr - tr_pos tr" "tr_data tr = Some d"
    using w by (auto simp: tr_window_def)
  define ts where "ts = ev_ts e - tr_last_ts tr"
  let ?v = "varint_encode ts" and ?addr = "varint_encode (ucast (ev_addr e))"
    and ?val = "varint_encode (ucast (ev_value e))"
    and ?zz = "varint_encode (the (zigzag_encode (addr_delta (tr_last_addr tr) (ev_addr e))))"
  have rd: "rd d (unat (tr_pos tr)) = Some (ev_type e)"
    using rd_rest [OF w] rest by (simp add: enc_event_def)
  have e: "ev_type e = t \<Longrightarrow> \<lparr>ev_type = t, ev_ts = ev_ts e, ev_addr = ev_addr e, ev_value = ev_value e\<rparr> = e"
    for t by (cases e) simp
  note start = tr_decode_event_def Let_def avail(2) rd avail(1) [symmetric] tr_shape_def ver ts_def p
    is_mmio_def next_pred_def enc_event_def e add.assoc
  consider (mmio) "is_mmio e" | (irq) "ev_type e = ev_code EV_IRQ_ENTER" "ev_value e = 0"
    | (at) "ev_type e = ev_code EV_IRQ_AT" | (stop) "ev_type e = ev_code EV_STOP" "ev_addr e = 0" "ev_value e = 0"
    using ok by (auto simp: ev_ok_def)
  then show ?thesis
  proof cases
    case mmio
    then have rest': "tr_rest d tr = [ev_type e] @ ?v @ (?zz @ ?val @ post)"
      "tr_rest d tr = ([ev_type e] @ ?v) @ ?zz @ (?val @ post)"
      using rest p by (simp_all add: enc_event_def ts_def)
    let ?tr = "tr\<lparr>tr_last_addr := ev_addr e\<rparr>"
    have w': "tr_window d avail ?tr" "tr_rest d ?tr = (([ev_type e] @ ?v) @ ?zz) @ ?val @ post"
      using w rest'(2) by (simp_all add: tr_window_def tr_rest_def)
    show ?thesis
      using mmio tr_varint_encoded [OF w rest'(1), of 1] tr_argument_encoded(1) [OF w _ rest'(2)]
        tr_field_encoded [OF w'(1) _ w'(2)]
      by (auto simp: start)
  next
    case irq
    then have rest': "tr_rest d tr = [ev_type e] @ ?v @ (?addr @ post)"
      "tr_rest d tr = ([ev_type e] @ ?v) @ ?addr @ post"
      using rest p by (simp_all add: enc_event_def ts_def is_mmio_def)
    show ?thesis
      using irq e [OF irq(1)] tr_varint_encoded [OF w rest'(1), of 1]
        tr_argument_encoded(2) [OF w _ rest'(2)]
      by (simp add: start)
  next
    case at
    then have rest': "tr_rest d tr = [ev_type e] @ ?v @ (?addr @ ?val @ post)"
      "tr_rest d tr = ([ev_type e] @ ?v) @ ?addr @ (?val @ post)"
      "tr_rest d tr = (([ev_type e] @ ?v) @ ?addr) @ ?val @ post"
      using rest p by (simp_all add: enc_event_def ts_def is_mmio_def)
    show ?thesis
      using at e [OF at(1)] tr_varint_encoded [OF w rest'(1), of 1]
        tr_argument_encoded(2) [OF w _ rest'(2)] tr_field_encoded [OF w _ rest'(3)]
      by (simp add: start)
  next
    case stop
    then have rest': "tr_rest d tr = [ev_type e] @ ?v @ post"
      using rest p by (simp add: enc_event_def ts_def is_mmio_def)
    show ?thesis
      using stop e [OF stop(1)] tr_varint_encoded [OF w rest', of 1]
      by (simp add: start)
  qed
qed

text \<open>
  The reader in the middle of a well-formed trace: \<^verbatim>\<open>es\<close> is what it has not delivered of
  the current block, \<^verbatim>\<open>tail\<close> the bytes after that block.
\<close>

definition tr_reading :: "bytes \<Rightarrow> predictor \<Rightarrow> event list \<Rightarrow> nat \<Rightarrow> bytes \<Rightarrow> trace_reader \<Rightarrow> bool" where
  "tr_reading d p es seq tail tr \<longleftrightarrow> tr_inv tr \<and> tr_opened tr \<and> \<not> tr_done tr \<and> tr_err tr = None \<and>
     tr_blocks_lost tr = 0 \<and> h_version (tr_hdr tr) = 3 \<and> tr_data tr = Some d \<and>
     unat (tr_len tr) = length d \<and> p = (tr_last_ts tr, tr_last_addr tr) \<and>
     tr_rest d tr = enc_events p es \<and> tr_expect_seq tr = of_nat seq \<and>
     tr_blocks_read tr = of_nat seq \<and> drop (unat (tr_next_block_off tr)) d = tail"

lemma tr_reading_window:
  assumes "tr_reading d p es seq tail tr"
  shows "tr_window d (tr_block_end tr - tr_pos tr) tr"
    "unat (tr_pos tr) + length (enc_events p es) = unat (tr_block_end tr)"
    "unat (tr_block_end tr) \<le> length d"
proof -
  show w: "tr_window d (tr_block_end tr - tr_pos tr) tr" and "unat (tr_block_end tr) \<le> length d"
    using assms by (auto simp: tr_reading_def tr_inv_def tr_window_def)
  show "unat (tr_pos tr) + length (enc_events p es) = unat (tr_block_end tr)"
    using length_tr_rest [OF w] tr_window_avail [OF w] assms
    by (auto simp: tr_reading_def tr_inv_def)
qed

lemma tr_next_event:
  assumes r: "tr_reading d p (e # es) seq tail tr" and ok: "ev_ok e"
  shows "\<exists>tr'. tr_next (Some out) tr = Some (True, Some e, tr') \<and>
    tr_reading d (next_pred p e) es seq tail tr'"
proof -
  note w = tr_reading_window [OF r]
  let ?n = "length (enc_event p e)"
  define q where "q = tr_pos tr + of_nat ?n"
  let ?tr = "tr\<lparr>tr_last_ts := ev_ts e, tr_last_addr := snd (next_pred p e), tr_pos := q\<rparr>"
  have "0 < ?n" by simp
  then have lt: "unat (tr_pos tr) < unat (tr_block_end tr)" and n: "unat (tr_pos tr) + ?n \<le> unat (tr_block_end tr)"
    using w(2) unfolding enc_events.simps length_append by linarith+
  then have q: "unat q = unat (tr_pos tr) + ?n"
    using unat_u32_lt [of "tr_block_end tr"] unfolding q_def by (subst unat_add_no_wrap) auto
  have "tr_decode_event out tr = Some (True, e, ?tr)"
    using tr_decode_event_encoded [OF w(1) ok, of p] r by (simp add: tr_reading_def q_def)
  then have "tr_next (Some out) tr = Some (True, Some e, ?tr)"
    using r lt by (simp add: tr_next_def tr_reading_def word_le_nat_alt)
  moreover have "tr_rest d ?tr = drop ?n (tr_rest d tr)"
    using n by (simp add: tr_rest_def q drop_take add.commute)
  then have "tr_reading d (next_pred p e) es seq tail ?tr"
    using r q n by (auto simp: tr_reading_def tr_inv_def next_pred_def)
  ultimately show ?thesis by blast
qed

lemma frame_append: "frame n payload @ tail = put_u32_le (of_nat (length payload)) @ put_u32_le n @ payload @
    put_u32_le (crc32 (put_u32_le n @ payload)) @ tail"
  by (simp add: frame_def)

lemma tr_load_raw:
  assumes r: "tr_reading d p [] seq (put_u32_le (of_nat (length payload)) @ put_u32_le n @ payload @
      put_u32_le want @ tail) tr" and pl: "payload \<noteq> []"
  shows "tr_load_next_block tr =
      Some (block_verdict (want = crc32 (put_u32_le n @ payload)) n (of_nat (length payload)) tr)"
    and "unat (tr_next_block_off tr + 8) = unat (tr_next_block_off tr) + 8"
    "unat (tr_next_block_off tr + 8 + of_nat (length payload)) = unat (tr_next_block_off tr) + 8 + length payload"
    "unat (tr_next_block_off tr + 8 + of_nat (length payload) + 4) = unat (tr_next_block_off tr) + 12 + length payload"
    "unat (tr_next_block_off tr) + 12 + length payload \<le> length d"
proof -
  let ?off = "unat (tr_next_block_off tr)" and ?n = "length payload" and ?len = "unat (tr_len tr)"
  have d: "tr_data tr = Some d" "?len = length d" "?off \<le> length d" "32 \<le> ?len"
    "drop ?off d = put_u32_le (of_nat ?n) @ put_u32_le n @ payload @ put_u32_le want @ tail"
    using r by (auto simp: tr_reading_def tr_inv_def)
  define pre where "pre = take ?off d"
  have deq: "d = pre @ put_u32_le (of_nat ?n) @ put_u32_le n @ payload @ put_u32_le want @ tail"
    using d(5) append_take_drop_id [of ?off d] by (simp add: pre_def)
  have pre: "length pre = ?off" using d(3) by (simp add: pre_def)
  show fits: "?off + 12 + ?n \<le> length d"
    using arg_cong [OF d(5), of length] d(3) by simp
  define pl :: u32 where "pl = of_nat ?n"
  have pln: "unat pl = ?n" using fits d(2) unat_u32_lt [of "tr_len tr"] by (simp add: pl_def)
  define rem where "rem = tr_len tr - tr_next_block_off tr - 4"
  have rem: "unat rem = length d - ?off - 4" "unat (tr_len tr - 4) = length d - 4"
    using fits d(2) by (simp_all add: rem_def unat_sub word_le_nat_alt)
  have rem4: "unat (rem - 4) = length d - ?off - 8" using fits rem by (simp add: unat_sub word_le_nat_alt)
  have "unat (rem - 4 - pl) = length d - ?off - 8 - ?n"
    using fits pln rem4 by (simp add: unat_sub word_le_nat_alt)
  then have c: "\<not> tr_next_block_off tr > tr_len tr - 4" "\<not> rem < 4" "\<not> (pl > rem - 4 \<or> rem - 4 - pl < 4)"
    using fits pln rem rem4 by (simp_all add: word_less_nat_alt) linarith+
  note c = c [unfolded rem_def]
  have len4: "4 \<le> ?len" and pl0: "pl \<noteq> 0" using d(4) pl pln by auto
  note at = frame_within [OF len4 c]
  show "unat (tr_next_block_off tr + 8) = ?off + 8"
    "unat (tr_next_block_off tr + 8 + of_nat ?n) = ?off + 8 + ?n"
    "unat (tr_next_block_off tr + 8 + of_nat ?n + 4) = ?off + 12 + ?n"
    using at(3-5) pln unfolding pl_def [symmetric] by (simp_all add: add.assoc [of "tr_next_block_off tr"])
  have g: "get_u32_le d ?off = Some pl" "get_u32_le d (?off + 4) = Some n" "get_u32_le d (?off + 8 + ?n) = Some want"
    using get_put_at(2) [of ?off pre "of_nat ?n"] pre
      get_put_at(2) [of "?off + 4" "pre @ put_u32_le (of_nat ?n)" n "payload @ put_u32_le want @ tail"]
      get_put_at(2) [of "?off + 8 + ?n" "pre @ put_u32_le (of_nat ?n) @ put_u32_le n @ payload" want tail]
    unfolding pl_def by (subst deq, simp)+
  have "drop (?off + 4) d = put_u32_le n @ payload @ put_u32_le want @ tail"
    "drop (?off + 8) d = payload @ put_u32_le want @ tail"
    by (subst deq, simp add: pre)+
  then have "take 4 (drop (?off + 4) d) @ take ?n (drop (?off + 8) d) = put_u32_le n @ payload"
    by simp
  with tr_load_verdict [OF d(1) _ len4 g(1) pl0 c] d(2) g(2,3) pln
  show "tr_load_next_block tr =
      Some (block_verdict (want = crc32 (put_u32_le n @ payload)) n (of_nat ?n) tr)"
    unfolding pl_def [symmetric] by auto
qed

lemmas tr_load_frame =
  tr_load_raw [of d p seq payload n "crc32 (put_u32_le n @ payload)" tail tr, folded frame_append]
  for d p seq payload n tail tr

lemma tr_load_gap:
  assumes r: "tr_reading d p [] seq (frame (of_nat n) payload @ tail) tr" and pl: "payload \<noteq> []"
    and n: "seq < n" "n < 4294967296"
  shows "tr_load_next_block tr = Some (False, tr_halt
    ''gap in trace: the device dropped blocks it could not drain in time'' (tr\<lparr>tr_blocks_lost := of_nat (n - seq)\<rparr>))"
proof -
  have "unat (of_nat n :: u32) = n" "unat (of_nat seq :: u32) = seq"
    using n by (simp_all only: unat_of_nat_u32)
  then have "(of_nat n :: u32) \<noteq> of_nat seq" "\<not> of_nat n < (of_nat seq :: u32)"
    using n(1) by (auto simp: word_less_nat_alt)
  moreover have "tr_expect_seq tr = of_nat seq" using r by (simp add: tr_reading_def)
  moreover have "(of_nat (n - seq) :: u32) = of_nat n - of_nat seq" using n(1) by (simp add: of_nat_diff)
  ultimately show ?thesis using tr_load_frame(1) [OF r pl] by (simp add: block_verdict_def Let_def)
qed

lemma tr_next_block:
  assumes r: "tr_reading d p [] seq (frame (of_nat seq) (enc_events p es) @ tail) tr" and es: "es \<noteq> []"
  shows "\<exists>tr1. tr_load_next_block tr = Some (True, tr1) \<and> tr_reading d p es (Suc seq) tail tr1"
proof -
  let ?off = "tr_next_block_off tr" and ?pl = "enc_events p es"
  have pl: "?pl \<noteq> []" using es by simp
  note l = tr_load_frame [OF r pl]
  define po where "po = ?off + 8"
  define be where "be = po + of_nat (length ?pl)"
  define nb where "nb = be + 4"
  have u: "unat po = unat ?off + 8" "unat be = unat ?off + 8 + length ?pl"
    "unat nb = unat ?off + 12 + length ?pl"
    using l(2-4) by (simp_all only: po_def be_def nb_def)
  let ?tr = "tr\<lparr>tr_expect_seq := of_nat seq + 1, tr_blocks_read := tr_blocks_read tr + 1,
    tr_pos := po, tr_block_end := be, tr_next_block_off := nb\<rparr>"
  have eq: "tr_load_next_block tr = Some (True, ?tr)"
    using l(1) r by (simp only: block_verdict_def tr_reading_def Let_def po_def [symmetric] be_def [symmetric] nb_def [symmetric]
      simp_thms if_False)
  have d: "drop (unat ?off) d = frame (of_nat seq) ?pl @ tail" "unat (tr_len tr) = length d"
    using r by (auto simp: tr_reading_def)
  have "drop (unat po) d = drop 8 (drop (unat ?off) d)" "drop (unat nb) d = drop (12 + length ?pl) (drop (unat ?off) d)"
    using u by (simp_all add: ac_simps)
  then have "drop (unat po) d = ?pl @ drop (8 + length ?pl) (frame (of_nat seq) ?pl) @ tail"
    "drop (unat nb) d = tail"
    by (simp_all add: d(1) frame_def)
  then have "tr_rest d ?tr = ?pl" "drop (unat (tr_next_block_off ?tr)) d = tail"
    using u by (simp_all add: tr_rest_def)
  moreover have "tr_inv ?tr" using r u l(5) d(2) by (auto simp: tr_reading_def tr_inv_def)
  ultimately have "tr_reading d p es (Suc seq) tail ?tr"
    using r by (auto simp: tr_reading_def add.commute)
  with eq show ?thesis by blast
qed

text \<open>Once a block is used up, the next call loads a block first.\<close>

lemma tr_next_loads:
  assumes r: "tr_reading d p [] seq tail tr"
  shows "tr_load_next_block tr = Some (False, tr1) \<Longrightarrow> tr_next (Some out) tr = Some (False, Some out, tr1)"
    and "tr_load_next_block tr = Some (True, tr1) \<Longrightarrow> tr_reading d p es n post tr1 \<Longrightarrow> es \<noteq> [] \<Longrightarrow>
      tr_next (Some out) tr = tr_next (Some out) tr1"
proof -
  have used_up: "tr_block_end tr \<le> tr_pos tr"
    using tr_reading_window(2) [OF r] by (simp add: word_le_nat_alt)
  then show "tr_load_next_block tr = Some (False, tr1) \<Longrightarrow> tr_next (Some out) tr = Some (False, Some out, tr1)"
    using r by (simp add: tr_next_def tr_reading_def)
  assume l: "tr_load_next_block tr = Some (True, tr1)" and r1: "tr_reading d p es n post tr1" "es \<noteq> []"
  have "\<not> tr_block_end tr1 \<le> tr_pos tr1"
    using tr_reading_window(2) [OF r1(1)] r1(2) by (cases "enc_events p es") (auto simp: word_le_nat_alt)
  then show "tr_next (Some out) tr = tr_next (Some out) tr1"
    using r r1 l used_up by (simp add: tr_next_def tr_reading_def)
qed

lemma tr_read_events:
  "tr_reading d p es seq tail tr \<Longrightarrow> (\<forall>e \<in> set es. ev_ok e) \<Longrightarrow>
   \<exists>out' tr'. tr_read_all out tr acc = tr_read_all out' tr' (acc @ es) \<and>
     tr_reading d (preds p es) [] seq tail tr'"
proof (induction es arbitrary: p tr out acc)
  case Nil
  then show ?case by auto
next
  case (Cons e es)
  from tr_next_event [OF Cons.prems(1), of out] Cons.prems(2)
  obtain tr1 where 1: "tr_next (Some out) tr = Some (True, Some e, tr1)"
    "tr_reading d (next_pred p e) es seq tail tr1"
    by auto
  then have "tr_read_all out tr acc = tr_read_all e tr1 (acc @ [e])"
    by (subst tr_read_all.simps) simp
  then show ?case using Cons.IH [OF 1(2), of e "acc @ [e]"] Cons.prems(2) by simp
qed

lemma tr_read_block:
  assumes r: "tr_reading d p [] seq (frame (of_nat seq) (enc_events p es) @ tail) tr"
    and es: "es \<noteq> []" "\<forall>e \<in> set es. ev_ok e"
  shows "\<exists>out' tr'. tr_read_all out tr acc = tr_read_all out' tr' (acc @ es) \<and>
    tr_reading d (preds p es) [] (Suc seq) tail tr'"
proof -
  obtain tr1 where 1: "tr_load_next_block tr = Some (True, tr1)" "tr_reading d p es (Suc seq) tail tr1"
    using tr_next_block [OF r es(1)] by blast
  have "tr_next (Some out) tr = tr_next (Some out) tr1"
    using tr_next_loads(2) [OF r 1 es(1)] .
  then have "tr_read_all out tr acc = tr_read_all out tr1 acc"
    by (subst (1 2) tr_read_all.simps) simp
  then show ?thesis using tr_read_events [OF 1(2) es(2)] by simp
qed

lemma tr_read_blocks:
  "tr_reading d p [] seq (frames_of seq p hist @ tail) tr \<Longrightarrow>
   (\<forall>b \<in> set hist. fst b \<noteq> [] \<and> snd b) \<Longrightarrow> (\<forall>e \<in> set (hist_events hist). ev_ok e) \<Longrightarrow>
   \<exists>out' tr'. tr_read_all out tr acc = tr_read_all out' tr' (acc @ hist_events hist) \<and>
     tr_reading d (preds p (hist_events hist)) [] (seq + length hist) tail tr'"
proof (induction hist arbitrary: p seq tr out acc)
  case Nil
  then show ?case by auto
next
  case (Cons b hist)
  obtain es where b: "b = (es, True)" "es \<noteq> []"
    using Cons.prems(2) by (cases b) auto
  from Cons.prems b tr_read_block [of d p seq es "frames_of (Suc seq) (preds p es) hist @ tail" tr out acc]
  obtain out1 tr1 where 1: "tr_read_all out tr acc = tr_read_all out1 tr1 (acc @ es)"
    "tr_reading d (preds p es) [] (Suc seq) (frames_of (Suc seq) (preds p es) hist @ tail) tr1"
    by auto
  show ?case using Cons.IH [OF 1(2), of out1 "acc @ es"] Cons.prems 1(1) b by simp
qed

text \<open>The four ways a well-formed trace can go on after a block.\<close>

lemma tr_read_stops:
  assumes "tr_reading d p [] seq tail tr" "tr_load_next_block tr = Some (False, tr1)"
  shows "tr_read_all out tr acc = Some (acc, tr1)"
  using tr_next_loads(1) [OF assms] by (subst tr_read_all.simps) simp

lemma tr_load_end:
  assumes r: "tr_reading d p [] seq tail tr" and tail: "length tail < 4 \<or> (\<exists>junk. tail = put_u32_le 0 @ junk)"
  shows "tr_load_next_block tr = Some (False, tr\<lparr>tr_done := True\<rparr>)"
proof -
  let ?off = "unat (tr_next_block_off tr)"
  have d: "tr_data tr = Some d" "unat (tr_len tr) = length d" "?off \<le> length d" "32 \<le> length d"
    "drop ?off d = tail"
    using r by (auto simp: tr_reading_def tr_inv_def)
  have "unat (tr_len tr - 4) = length d - 4"
    using d(2,4) by (simp add: unat_sub word_le_nat_alt)
  then have short: "tr_next_block_off tr > tr_len tr - 4 \<longleftrightarrow> length tail < 4"
    using d(3,4) arg_cong [OF d(5), of length] by (auto simp: word_less_nat_alt)
  show ?thesis
  proof (cases "length tail < 4")
    case True
    then show ?thesis using short by (simp add: tr_load_next_block_def)
  next
    case False
    then obtain junk where "tail = put_u32_le 0 @ junk" using tail by blast
    then have "get_u32_le d ?off = Some 0"
      using get_put_u32 [of "[]" 0 junk] d(5) by (simp add: get_le_drop(2) [of d])
    then show ?thesis using False short d(1) by (simp add: tr_load_next_block_def)
  qed
qed

lemma tr_open_header:
  assumes d: "d = header_bytes build_id seed flags @ tail" and len: "unat len = length d"
  shows "\<exists>tr. tr_open (Some d) len tr0 = Some (True, tr) \<and>
    tr_hdr tr = \<lparr>h_magic = kTraceMagic, h_version = kTraceVersion, h_flags = flags,
      h_build_id = build_id, h_seed = seed\<rparr> \<and> tr_reading d (0, 0) [] 0 tail tr"
proof -
  have lt: "\<not> len < kTraceHeaderSize"
    using len d by (simp add: kTraceHeaderSize_def word_less_nat_alt)
  have g: "get_u32_le d 0 = Some kTraceMagic" "get_u16_le d 4 = Some kTraceVersion"
    "get_u16_le d 6 = Some flags" "get_u64_le d 8 = Some build_id" "get_u64_le d 16 = Some seed"
    using get_put_at(2) [of 0 "[]" kTraceMagic] get_put_at(1) [of 4 "put_u32_le kTraceMagic" kTraceVersion]
      get_put_at(1) [of 6 "put_u32_le kTraceMagic @ put_u16_le kTraceVersion" flags]
      get_put_at(3) [of 8 "put_u32_le kTraceMagic @ put_u16_le kTraceVersion @ put_u16_le flags" build_id]
      get_put_at(3) [of 16 "put_u32_le kTraceMagic @ put_u16_le kTraceVersion @ put_u16_le flags @
        put_u64_le build_id" seed]
    by (simp_all add: d header_bytes_def)
  have "drop 32 d = tail" "32 \<le> length d" by (simp_all add: d)
  then show ?thesis
    using lt len
    by (auto simp: tr_open_def Let_def g kTraceVersion_def kTraceMinVersion_def kTraceHeaderSize_def
      zero_header_def tr_reading_def tr_inv_def tr_rest_def)
qed

lemma tr_load_truncated:
  assumes r: "tr_reading d p [] seq (put_u32_le (of_nat n) @ body) tr"
    and n: "0 < n" "n < 4294967296" and short: "length body < n + 8"
  shows "tr_load_next_block tr = Some (False, tr_halt ''truncated block: trace ends mid-block'' tr)"
proof -
  let ?off = "unat (tr_next_block_off tr)"
  have d: "tr_data tr = Some d" "unat (tr_len tr) = length d" "?off \<le> length d" "32 \<le> length d"
    "drop ?off d = put_u32_le (of_nat n) @ body"
    using r by (auto simp: tr_reading_def tr_inv_def)
  have len: "length d = ?off + 4 + length body"
    using arg_cong [OF d(5), of length] d(3) by simp
  have "unat (tr_len tr - 4) = length d - 4"
    using d(2,4) by (simp add: unat_sub word_le_nat_alt)
  then have c0: "\<not> tr_next_block_off tr > tr_len tr - 4"
    using len by (simp add: word_less_nat_alt)
  have g: "get_u32_le d ?off = Some (of_nat n)"
    using get_put_u32 [of "[]" "of_nat n" body] d(5) by (simp add: get_le_drop(2) [of d])
  have n0: "(of_nat n :: u32) \<noteq> 0" using n by (metis unat_0 unat_of_nat_u32 less_irrefl)
  define rem where "rem = tr_len tr - tr_next_block_off tr - 4"
  have rem: "unat rem = length body"
    using len d(2) by (simp add: rem_def unat_sub word_le_nat_alt)
  have c: "rem < 4 \<or> (of_nat n > rem - 4 \<or> rem - 4 - of_nat n < 4)"
  proof (cases "length body < 4 \<or> length body - 4 < n")
    case True
    then show ?thesis using rem n by (auto simp: word_less_nat_alt unat_sub word_le_nat_alt)
  next
    case False
    then have "unat (rem - 4) = length body - 4" using rem by (simp add: unat_sub word_le_nat_alt)
    moreover from this have "unat (rem - 4 - of_nat n) = length body - 4 - n"
      using False n by (simp add: unat_sub word_le_nat_alt)
    ultimately have "unat (rem - 4 - of_nat n) < 4" using short False by linarith
    then show ?thesis by (simp add: word_less_nat_alt)
  qed
  show ?thesis
    unfolding tr_load_next_block_def Let_def rem_def [symmetric]
    using c0 c n0 d(1) g by (auto simp only: if_False if_True Option.bind.bind_lunit split: if_split)
qed

section \<open>Properties\<close>

text \<open>
  C6. Whatever the bytes are, opening them as a trace and reading to the end never reads
  outside the buffer, never overflows a signed integer and always ends; it delivers no more
  events than there are bytes, every one of a known type with zero in the fields its encoding
  has no room for.
\<close>

theorem reader_safe_on_any_bytes:
  assumes "unat len \<le> length d"
  shows "\<exists>opened tr evs tr'. tr_open (Some d) len tr0 = Some (opened, tr) \<and>
    tr_read_all out tr [] = Some (evs, tr') \<and> length evs \<le> unat len \<and> (\<forall>e \<in> set evs. ev_ok e)"
proof -
  obtain ok tr where o: "tr_open (Some d) len tr0 = Some (ok, tr)" "tr_inv tr" "tr_left tr \<le> unat len"
    using tr_open_inv [OF assms] by blast
  moreover obtain evs tr' where "tr_read_all out tr [] = Some (evs, tr')" "length evs \<le> tr_left tr"
    "\<forall>e \<in> set evs. ev_ok e"
    using tr_read_all_total [OF o(2), of "[]" out] by auto
  ultimately show ?thesis by (meson le_trans)
qed

lemma tr_read_trace:
  assumes "d = header_bytes build_id seed flags @ frames_of 0 (0, 0) hist @ tail" "unat len = length d"
    and "length tail < 4 \<or> (\<exists>junk. tail = put_u32_le 0 @ junk)"
    and "\<forall>b \<in> set hist. fst b \<noteq> [] \<and> snd b" "\<forall>e \<in> set (hist_events hist). ev_ok e"
  shows "\<exists>tr tr'. tr_open (Some d) len tr0 = Some (True, tr) \<and>
    tr_hdr tr = \<lparr>h_magic = kTraceMagic, h_version = kTraceVersion, h_flags = flags,
      h_build_id = build_id, h_seed = seed\<rparr> \<and>
    tr_read_all out tr [] = Some (hist_events hist, tr') \<and> tr_ok tr' \<and> tr_done tr' \<and>
    tr_blocks_lost tr' = 0 \<and> tr_blocks_read tr' = of_nat (length hist)"
proof -
  obtain tr where tr: "tr_open (Some d) len tr0 = Some (True, tr)" "tr_hdr tr = \<lparr>h_magic = kTraceMagic,
      h_version = kTraceVersion, h_flags = flags, h_build_id = build_id, h_seed = seed\<rparr>"
    "tr_reading d (0, 0) [] 0 (frames_of 0 (0, 0) hist @ tail) tr"
    using tr_open_header [OF assms(1,2)] by blast
  from tr_read_blocks [OF tr(3) assms(4,5), of out "[]"] obtain out1 tr1 where 1:
    "tr_read_all out tr [] = tr_read_all out1 tr1 (hist_events hist)"
    "tr_reading d (preds (0, 0) (hist_events hist)) [] (length hist) tail tr1"
    by auto
  then show ?thesis
    using tr tr_read_stops [OF 1(2) tr_load_end [OF 1(2) assms(3)]]
    by (auto simp: tr_ok_def tr_reading_def)
qed

text \<open>
  C4. Reading inverts the format: from a trace whose blocks were all taken, the reader
  delivers exactly the recorded events and ends without an error. It does so both when the
  terminator is there, whatever follows it, and when the trace was cut between two blocks.
\<close>

theorem reader_reads_back:
  assumes "d = header_bytes build_id seed flags @ frames_of 0 (0, 0) hist @ tail" "unat len = length d"
    and "length tail < 4 \<or> (\<exists>junk. tail = put_u32_le 0 @ junk)"
    and "\<forall>b \<in> set hist. fst b \<noteq> [] \<and> snd b" "\<forall>e \<in> set (hist_events hist). ev_ok e"
  shows "\<exists>tr tr'. tr_open (Some d) len tr0 = Some (True, tr) \<and>
    h_build_id (tr_hdr tr) = build_id \<and> h_seed (tr_hdr tr) = seed \<and> h_flags (tr_hdr tr) = flags \<and>
    tr_read_all out tr [] = Some (hist_events hist, tr') \<and> tr_ok tr' \<and> tr_done tr' \<and>
    tr_blocks_lost tr' = 0 \<and> tr_blocks_read tr' = of_nat (length hist)"
  using tr_read_trace [OF assms, of tr0 out] by fastforce

text \<open>The trace of one block with a stop event, at a length the proof can compute.\<close>

lemma stop_event_trace:
  "ev_ok \<lparr>ev_type = 4, ev_ts = 5, ev_addr = 0, ev_value = 0\<rparr>"
  "length (enc_events (0, 0) [\<lparr>ev_type = 4, ev_ts = 5, ev_addr = 0, ev_value = 0\<rparr>]) = 2"
  by (simp_all add: ev_ok_def enc_event_def is_mmio_def varint_encode_small)

lemma reader_safe_on_any_bytes_witness:
  "\<exists>opened tr evs tr'. tr_open (Some [0x52, 0x57]) 2 tr_new = Some (opened, tr) \<and>
    tr_read_all \<lparr>ev_type = 0, ev_ts = 0, ev_addr = 0, ev_value = 0\<rparr> tr [] = Some (evs, tr') \<and>
    length evs \<le> unat (2 :: u32) \<and> (\<forall>e \<in> set evs. ev_ok e)"
  by (rule reader_safe_on_any_bytes) simp

lemma reader_reads_back_witness:
  "\<exists>tr tr'. tr_open (Some (header_bytes 7 9 1 @
      frames_of 0 (0, 0) [([\<lparr>ev_type = 4, ev_ts = 5, ev_addr = 0, ev_value = 0\<rparr>], True)] @
      put_u32_le 0)) 50 tr_new = Some (True, tr) \<and>
    h_build_id (tr_hdr tr) = 7 \<and> h_seed (tr_hdr tr) = 9 \<and> h_flags (tr_hdr tr) = 1 \<and>
    tr_read_all \<lparr>ev_type = 0, ev_ts = 0, ev_addr = 0, ev_value = 0\<rparr> tr [] =
      Some (hist_events [([\<lparr>ev_type = 4, ev_ts = 5, ev_addr = 0, ev_value = 0\<rparr>], True)], tr') \<and>
    tr_ok tr' \<and> tr_done tr' \<and> tr_blocks_lost tr' = 0 \<and>
    tr_blocks_read tr' = of_nat (length [([\<lparr>ev_type = 4 :: u8, ev_ts = 5 :: u64, ev_addr = 0 :: u32,
      ev_value = 0 :: u32\<rparr>], True)])"
  by (rule reader_reads_back [OF refl])
    (use stop_event_trace in \<open>auto intro: exI [of _ "[]"]\<close>)

text \<open>A recording splits into the blocks before the first lost one, the lost ones there, the rest.\<close>

lemma history_split:
  fixes hist :: history
  defines "good \<equiv> takeWhile snd hist"
  defines "missing \<equiv> takeWhile (\<lambda>b. \<not> snd b) (dropWhile snd hist)"
  obtains rest where "hist = good @ missing @ rest" "\<forall>b \<in> set good. snd b" "\<forall>b \<in> set missing. \<not> snd b"
    "rest = [] \<or> missing \<noteq> [] \<and> snd (hd rest)"
proof -
  let ?rest = "dropWhile (\<lambda>b. \<not> snd b) (dropWhile snd hist)"
  have "missing = [] \<Longrightarrow> ?rest = dropWhile snd hist"
    unfolding missing_def by (metis append_Nil takeWhile_dropWhile_id)
  then have "?rest = [] \<or> missing \<noteq> [] \<and> snd (hd ?rest)"
    by (metis hd_dropWhile)
  moreover have "hist = good @ missing @ ?rest"
    by (simp add: good_def missing_def)
  ultimately show thesis
    using that [of ?rest] set_takeWhileD unfolding good_def missing_def by metis
qed

lemma frames_of_lost: "\<forall>b \<in> set hist. \<not> snd b \<Longrightarrow> frames_of n p hist = []"
  by (induction n p hist rule: frames_of.induct) auto

text \<open>
  C7. A lost block is never read over: the reader delivers exactly the events before the
  first refused block. If any later block was taken, it then stops with the gap error and the
  exact number of blocks missing there. If none was, it reports a normal end.
\<close>

theorem reader_stops_at_gap:
  assumes "d = header_bytes build_id seed flags @ frames_of 0 (0, 0) hist @ put_u32_le 0" "unat len = length d"
    and "\<forall>b \<in> set hist. fst b \<noteq> []" "\<forall>e \<in> set (hist_events hist). ev_ok e"
    and "length hist < 4294967296"
  shows "\<exists>tr tr'. tr_open (Some d) len tr0 = Some (True, tr) \<and>
    tr_read_all out tr [] = Some (hist_events (takeWhile snd hist), tr') \<and>
    (let missing = takeWhile (\<lambda>b. \<not> snd b) (dropWhile snd hist) in
     if takeWhile snd hist @ missing = hist then tr_ok tr' \<and> tr_blocks_lost tr' = 0
     else tr_err tr' = Some ''gap in trace: the device dropped blocks it could not drain in time'' \<and>
       tr_blocks_lost tr' = of_nat (length missing))"
proof -
  define good where "good = takeWhile snd hist"
  define missing where "missing = takeWhile (\<lambda>b. \<not> snd b) (dropWhile snd hist)"
  let ?p = "preds (0, 0) (hist_events good)"
  obtain rest where hist: "hist = good @ missing @ rest" and snds: "\<forall>b \<in> set good. snd b"
    "\<forall>b \<in> set missing. \<not> snd b" "rest = [] \<or> missing \<noteq> [] \<and> snd (hd rest)"
    using history_split [of hist] unfolding good_def missing_def by blast
  let ?tail = "frames_of (length good + length missing) (preds ?p (hist_events missing)) rest @ put_u32_le 0"
  obtain tr where tr: "tr_open (Some d) len tr0 = Some (True, tr)"
    "tr_reading d (0, 0) [] 0 (frames_of 0 (0, 0) good @ ?tail) tr"
    using tr_open_header [OF assms(1,2), of tr0] by (auto simp: hist frames_of_append frames_of_lost [OF snds(2)])
  have "\<forall>b \<in> set good. fst b \<noteq> [] \<and> snd b" "\<forall>e \<in> set (hist_events good). ev_ok e"
    using assms(3,4) snds(1) unfolding hist by auto
  from tr_read_blocks [OF tr(2) this, of out "[]"] obtain out1 tr1 where 1:
    "tr_read_all out tr [] = tr_read_all out1 tr1 (hist_events good)"
    "tr_reading d ?p [] (length good) ?tail tr1"
    by auto
  show ?thesis
  proof (cases rest)
    case Nil
    then have r: "tr_reading d ?p [] (length good) (put_u32_le 0) tr1" using 1(2) by simp
    have "tr_read_all out1 tr1 (hist_events good) = Some (hist_events good, tr1\<lparr>tr_done := True\<rparr>)"
      by (rule tr_read_stops [OF r tr_load_end [OF r]]) (auto intro: exI [of _ "[]"])
    moreover have "(good @ missing = hist) = True" using hist Nil by simp
    ultimately show ?thesis
      unfolding good_def [symmetric] missing_def [symmetric]
      using tr(1) 1(1) r by (simp add: tr_ok_def tr_reading_def)
  next
    case (Cons b rest')
    have b: "snd b" "fst b \<noteq> []" "missing \<noteq> []"
      using snds(3) Cons assms(3) by (auto simp: hist)
    obtain es where es: "b = (es, True)" using b by (cases b) auto
    let ?pl = "enc_events (preds ?p (hist_events missing)) es"
    obtain tail where "tr_reading d ?p [] (length good) (frame (of_nat (length good + length missing)) ?pl @ tail) tr1"
      using 1(2) Cons es by auto
    then have "tr_load_next_block tr1 = Some (False, tr_halt
        ''gap in trace: the device dropped blocks it could not drain in time''
        (tr1\<lparr>tr_blocks_lost := of_nat (length missing)\<rparr>))"
      using tr_load_gap [of d ?p "length good" "length good + length missing" ?pl tail tr1] assms(5) hist b es
      by simp
    note stops = tr_read_stops [OF 1(2) this, of out1 "hist_events good"]
    have "(good @ missing = hist) = False" using hist Cons by simp
    then show ?thesis
      unfolding good_def [symmetric] missing_def [symmetric]
      using tr(1) 1 stops by (simp add: tr_halt_def tr_fail_def tr_reading_def)
  qed
qed

lemma gap_trace_lengths:
  "unat (64 :: u32) = length (header_bytes 7 9 1 @ frames_of 0 (0, 0)
     [([\<lparr>ev_type = 4, ev_ts = 5, ev_addr = 0, ev_value = 0\<rparr>], True),
      ([\<lparr>ev_type = 4, ev_ts = 6, ev_addr = 0, ev_value = 0\<rparr>], False),
      ([\<lparr>ev_type = 4, ev_ts = 7, ev_addr = 0, ev_value = 0\<rparr>], True)] @ put_u32_le 0)"
  by (simp add: enc_event_def is_mmio_def next_pred_def varint_encode_small)

lemma reader_stops_at_gap_witness:
  "\<exists>tr tr'. tr_open (Some (header_bytes 7 9 1 @ frames_of 0 (0, 0)
       [([\<lparr>ev_type = 4, ev_ts = 5, ev_addr = 0, ev_value = 0\<rparr>], True),
        ([\<lparr>ev_type = 4, ev_ts = 6, ev_addr = 0, ev_value = 0\<rparr>], False),
        ([\<lparr>ev_type = 4, ev_ts = 7, ev_addr = 0, ev_value = 0\<rparr>], True)] @ put_u32_le 0)) 64 tr_new =
      Some (True, tr) \<and>
    tr_read_all \<lparr>ev_type = 0, ev_ts = 0, ev_addr = 0, ev_value = 0\<rparr> tr [] =
      Some ([\<lparr>ev_type = 4, ev_ts = 5, ev_addr = 0, ev_value = 0\<rparr>], tr') \<and>
    tr_err tr' = Some ''gap in trace: the device dropped blocks it could not drain in time'' \<and>
    tr_blocks_lost tr' = 1"
  using reader_stops_at_gap [OF refl gap_trace_lengths, of tr_new
    "\<lparr>ev_type = 0, ev_ts = 0, ev_addr = 0, ev_value = 0\<rparr>"]
  by (simp add: ev_ok_def)





end
