(* ===== verification/Clock.thy ===== *)
theory Clock
  imports Prelude
begin

text \<open>
  Widening a 32-bit cycle counter, \<^verbatim>\<open>target/src/clock.cpp\<close>, and how far the result can be
  trusted: it is the true count as long as no two samples are a whole wrap period apart.
\<close>

section \<open>State and operations\<close>

record clock_extender =
  ck_last_raw :: u32
  ck_wraps :: u32
  ck_suspicious :: u32
  ck_value :: u64
  ck_primed :: bool

definition kSuspiciousDelta :: u32 where
  "kSuspiciousDelta = 0x80000000"

definition ck_new :: clock_extender where
  "ck_new = \<lparr>ck_last_raw = 0, ck_wraps = 0, ck_suspicious = 0, ck_value = 0, ck_primed = False\<rparr>"

definition ck_reset :: "clock_extender \<Rightarrow> clock_extender" where
  "ck_reset ck = ck\<lparr>ck_last_raw := 0, ck_wraps := 0, ck_suspicious := 0, ck_value := 0,
     ck_primed := False\<rparr>"

definition ck_extend :: "u32 \<Rightarrow> clock_extender \<Rightarrow> u64 \<times> clock_extender" where
  "ck_extend raw ck =
     (if \<not> ck_primed ck then
        let ck = ck\<lparr>ck_primed := True, ck_last_raw := raw, ck_value := ucast raw\<rparr>
        in (ck_value ck, ck)
      else
        let ck = (if raw < ck_last_raw ck then ck\<lparr>ck_wraps := ck_wraps ck + 1\<rparr>
              else if raw - ck_last_raw ck \<ge> kSuspiciousDelta
              then ck\<lparr>ck_suspicious := ck_suspicious ck + 1\<rparr>
              else ck);
            ck = ck\<lparr>ck_last_raw := raw,
              ck_value := push_bit 32 (ucast (ck_wraps ck)) OR ucast raw\<rparr>
        in (ck_value ck, ck))"

fun ck_samples :: "u32 list \<Rightarrow> clock_extender \<Rightarrow> u64 list \<times> clock_extender" where
  "ck_samples [] ck = ([], ck)"
| "ck_samples (raw # raws) ck =
     (let (v, ck) = ck_extend raw ck; (vs, ck) = ck_samples raws ck in (v # vs, ck))"

section \<open>The true count\<close>

text \<open>
  \<^verbatim>\<open>samples_ok c cs\<close>: a 64-bit counter was sampled at \<^verbatim>\<open>c\<close> and then at \<^verbatim>\<open>cs\<close>, each time less
  than a wrap period after the sample before.
\<close>

fun samples_ok :: "nat \<Rightarrow> nat list \<Rightarrow> bool" where
  "samples_ok c [] = True"
| "samples_ok c (d # ds) = (c \<le> d \<and> d < c + 4294967296 \<and> d < 18446744073709551616 \<and> samples_ok d ds)"

text \<open>The gaps the code counts: at least half a period, with no wrap in between.\<close>

fun counted_gaps :: "nat \<Rightarrow> nat list \<Rightarrow> nat" where
  "counted_gaps c [] = 0"
| "counted_gaps c (d # ds) =
     (if 2147483648 \<le> d - c \<and> d div 4294967296 = c div 4294967296 then 1 else 0) + counted_gaps d ds"

definition ck_at :: "nat \<Rightarrow> clock_extender \<Rightarrow> bool" where
  "ck_at c ck \<longleftrightarrow> ck_primed ck \<and> c < 18446744073709551616 \<and>
     unat (ck_last_raw ck) = c mod 4294967296 \<and> unat (ck_wraps ck) = c div 4294967296 \<and>
     unat (ck_value ck) = c"

lemma unat_extend: "unat (push_bit 32 (ucast (w :: u32)) OR ucast (r :: u32) :: u64) = unat w * 4294967296 + unat r"
proof -
  have "push_bit 32 (ucast w :: u64) OR ucast r = push_bit 32 (ucast w) + ucast r"
    by (intro disjunctive_add_eq_or [symmetric] bit_word_eqI) (auto simp: bit_simps)
  moreover have "unat (push_bit 32 (ucast w :: u64)) = unat w * 4294967296"
    using unat_u32_lt [of w] unfolding unsigned_push_bit_eq
    by (simp add: unat_ucast_up push_bit_eq_mult take_bit_nat_eq_self_iff)
  moreover have "unat w * 4294967296 + unat r < 18446744073709551616"
    using unat_u32_lt [of w] unat_u32_lt [of r] by simp
  ultimately show ?thesis
    by (simp add: unat_word_ariths unat_ucast_up)
qed

lemma ck_extend_next:
  assumes at: "ck_at c ck" and gap: "c \<le> d" "d < c + 4294967296" "d < 18446744073709551616"
  shows "\<exists>ck'. ck_extend (of_nat d) ck = (of_nat d, ck') \<and> ck_at d ck' \<and>
    ck_suspicious ck' = ck_suspicious ck +
      (if 2147483648 \<le> d - c \<and> d div 4294967296 = c div 4294967296 then 1 else 0)"
proof -
  let ?P = "4294967296 :: nat"
  have raw: "unat (of_nat d :: u32) = d mod ?P"
    by (simp add: unat_of_nat take_bit_eq_mod)
  have dq: "d = d div ?P * ?P + d mod ?P" by simp
  obtain k r where d: "d div ?P = k" "d mod ?P = r" "d = k * ?P + r" "r < ?P"
    by (rule that [of "d div ?P" "d mod ?P"]) simp_all
  obtain j q where c: "c div ?P = j" "c mod ?P = q" "c = j * ?P + q" "q < ?P"
    by (rule that [of "c div ?P" "c mod ?P"]) simp_all
  have "k < j \<or> k = j \<or> k = j + 1 \<or> j + 2 \<le> k" by linarith
  then have cases: "d div ?P = c div ?P \<and> c mod ?P \<le> d mod ?P \<and> d mod ?P - c mod ?P = d - c \<or>
      d div ?P = c div ?P + 1 \<and> d mod ?P < c mod ?P"
    using gap d c unfolding d(1,2) c(1,2) by (elim disjE) linarith+
  have lt: "of_nat d < ck_last_raw ck \<longleftrightarrow> d mod ?P < c mod ?P"
    using at raw by (simp add: ck_at_def word_less_nat_alt)
  define w where "w = (if of_nat d < ck_last_raw ck then ck_wraps ck + 1 else ck_wraps ck)"
  have "d div ?P < ?P" using gap(3) by (simp add: less_mult_imp_div_less)
  then have w: "unat w = d div ?P"
    using cases at unfolding w_def lt
    by (auto simp: ck_at_def unat_word_ariths)
  define v where "v = (push_bit 32 (ucast w) OR ucast (of_nat d :: u32) :: u64)"
  have v: "unat v = d" using w raw dq by (simp add: v_def unat_extend)
  then have veq: "v = of_nat d" by (metis of_nat_unat ucast_id)
  have sus: "\<not> of_nat d < ck_last_raw ck \<Longrightarrow>
      (of_nat d - ck_last_raw ck \<ge> kSuspiciousDelta \<longleftrightarrow> 2147483648 \<le> d - c)"
    using at raw cases unfolding lt
    by (auto simp: ck_at_def kSuspiciousDelta_def word_le_nat_alt unat_sub)
  let ?ck = "ck\<lparr>ck_wraps := w, ck_suspicious := ck_suspicious ck +
      (if 2147483648 \<le> d - c \<and> d div ?P = c div ?P then 1 else 0),
      ck_last_raw := of_nat d, ck_value := v\<rparr>"
  have "ck_extend (of_nat d) ck = (v, ?ck)"
    using at sus cases by (cases "of_nat d < ck_last_raw ck")
      (auto simp: ck_at_def ck_extend_def Let_def v_def w_def lt)
  moreover have "ck_at d ?ck"
    using at v w raw gap by (simp add: ck_at_def)
  ultimately show ?thesis unfolding veq by auto
qed

lemma ck_samples_next:
  "ck_at c ck \<Longrightarrow> samples_ok c cs \<Longrightarrow>
   \<exists>ck'. ck_samples (map of_nat cs) ck = (map of_nat cs, ck') \<and>
     ck_suspicious ck' = ck_suspicious ck + of_nat (counted_gaps c cs)"
proof (induction cs arbitrary: c ck)
  case (Cons d ds)
  then obtain ck1 where 1: "ck_extend (of_nat d) ck = (of_nat d, ck1)" "ck_at d ck1"
    "ck_suspicious ck1 = ck_suspicious ck +
      (if 2147483648 \<le> d - c \<and> d div 4294967296 = c div 4294967296 then 1 else 0)"
    using ck_extend_next [of c ck d] by auto
  with Cons.IH [OF 1(2)] Cons.prems(2) show ?case by (auto simp: add.assoc)
qed simp

text \<open>The samples' order survives, which is what the trace writer insists on.\<close>

lemma samples_ok_sorted: "samples_ok c cs \<Longrightarrow> sorted (c # cs)"
proof (induction c cs rule: samples_ok.induct)
  case (2 c d ds)
  then show ?case by auto
qed simp

section \<open>Properties\<close>

text \<open>
  C19. The extension is exact: sampling a 64-bit count through its low 32 bits, each sample
  less than a wrap period after the one before and the first within the first period, gives
  back the count at every sample. The doubt counter counts the gaps of half a period or more
  that do not cross a wrap.
\<close>

theorem clock_extension_exact:
  assumes "c < 4294967296" "samples_ok c cs"
  shows "\<exists>ck'. ck_samples (map of_nat (c # cs)) (ck_reset ck) = (map of_nat (c # cs), ck') \<and>
    ck_suspicious ck' = of_nat (counted_gaps c cs) \<and> sorted (c # cs)"
proof -
  let ?ck = "(ck_reset ck)\<lparr>ck_primed := True, ck_last_raw := of_nat c, ck_value := of_nat c\<rparr>"
  have "ck_extend (of_nat c) (ck_reset ck) = (of_nat c, ?ck)"
    using assms(1) by (simp add: ck_extend_def ck_reset_def Let_def)
  moreover have "ck_at c ?ck"
    using assms(1) by (simp add: ck_at_def ck_reset_def unat_of_nat take_bit_nat_eq_self_iff)
  ultimately show ?thesis
    using ck_samples_next [of c ?ck cs] assms(2) samples_ok_sorted [OF assms(2)]
    by (auto simp: ck_reset_def)
qed

theorem clock_extension_exact_witness:
  "\<exists>ck'. ck_samples (map of_nat [4294967290, 4294967300, 6442450948]) (ck_reset ck_new) =
      (map of_nat [4294967290, 4294967300, 6442450948], ck') \<and>
    ck_suspicious ck' = of_nat (counted_gaps 4294967290 [4294967300, 6442450948]) \<and>
    sorted [4294967290, 4294967300, 6442450948 :: nat]"
  by (rule clock_extension_exact) simp_all

text \<open>
  A gap of nearly a whole period goes uncounted when it crosses a wrap: the reading is then
  lower than the one before, and only the other branch counts.
\<close>

lemma clock_wrapping_gap_uncounted:
  "samples_ok 0x80000000 [0x17FFFFFFF]"
  "ck_suspicious (snd (ck_samples [0x80000000, 0x7FFFFFFF] ck_new)) = 0"
  by (simp_all add: ck_extend_def ck_new_def Let_def)

end
