(* ===== verification/Hal.thy ===== *)
theory Hal
  imports Trace_Writer
begin

text \<open>
  The shim, \<^verbatim>\<open>target/src/hal.cpp\<close>: its file-static state, the firmware-facing accesses, and
  the loop that dispatches interrupts after each of them.

  Three kinds of function pointers meet here: the backend's \<^verbatim>\<open>HalOps\<close>, interrupt handlers and
  the writer's sink. A pointer is a value of a type of code addresses (\<^verbatim>\<open>'o\<close>, \<^verbatim>\<open>'i\<close> and
  \<^verbatim>\<open>'k\<close>), and the \<^verbatim>\<open>linkage\<close> says what is at each address. Called code may read and change
  the whole machine state \<^verbatim>\<open>'s\<close>, of which the shim's state is a part: the record \<^verbatim>\<open>hal\<close> is
  extended by everything else, so the type of the machine state is an extension of it.
\<close>

section \<open>State\<close>

datatype mode = MODE_OFF | MODE_RECORD | MODE_REPLAY

definition kNoIrq :: u32 where "kNoIrq = 0xFFFFFFFF"
definition kMaxIrqVectors :: u32 where "kMaxIrqVectors = 8"

text \<open>
  The writer is the object \<^verbatim>\<open>g_writer\<close> points to when it is not null; a program has one at a
  time, so the pointer is only whether it is set.
\<close>

record ('o, 'i, 'k) hal =
  g_ops :: "'o option"
  g_writer :: bool
  g_mode :: mode
  g_isr :: "'i option list"
  g_mask_depth :: u32
  g_in_isr :: bool
  g_divergence :: "string option"
  the_writer :: "'k trace_writer"

record 's hal_ops =
  op_read32 :: "(u32 \<Rightarrow> 's \<Rightarrow> (u32 \<times> 's) option) option"
  op_write32 :: "(u32 \<Rightarrow> u32 \<Rightarrow> 's \<Rightarrow> 's option) option"
  op_now :: "('s \<Rightarrow> (u64 \<times> 's) option) option"
  op_poll_irq :: "('s \<Rightarrow> (u32 \<times> 's) option) option"

record ('o, 'i, 'k, 's) linkage =
  vtable :: "'o \<Rightarrow> 's hal_ops"
  isr_code :: "'i \<Rightarrow> 's \<Rightarrow> 's option"
  sink_code :: "('k, 's) sinks"

type_synonym ('o, 'i, 'k, 'z) machine = "('o, 'i, 'k, 'z) hal_scheme"
type_synonym ('o, 'i, 'k, 'z) program = "('o, 'i, 'k, ('o, 'i, 'k, 'z) machine) linkage"

section \<open>Wiring\<close>

definition hal_reset :: "('o, 'i, 'k, 'z) machine \<Rightarrow> ('o, 'i, 'k, 'z) machine" where
  "hal_reset s = s\<lparr>g_ops := None, g_writer := False, g_mode := MODE_OFF, g_mask_depth := 0,
     g_in_isr := False, g_divergence := None, g_isr := replicate (unat kMaxIrqVectors) None\<rparr>"

definition hal_attach :: "'o option \<Rightarrow> ('o, 'i, 'k, 'z) machine \<Rightarrow> ('o, 'i, 'k, 'z) machine" where
  "hal_attach ops s = s\<lparr>g_ops := ops\<rparr>"

definition hal_set_isr ::
  "u32 \<Rightarrow> 'i option \<Rightarrow> ('o, 'i, 'k, 'z) machine \<Rightarrow> ('o, 'i, 'k, 'z) machine option" where
  "hal_set_isr vector fn s =
     (if vector < kMaxIrqVectors then do {
        isrs \<leftarrow> wr (g_isr s) (unat vector) fn;
        Some (s\<lparr>g_isr := isrs\<rparr>)
      } else Some s)"

definition hal_mode_off :: "('o, 'i, 'k, 'z) machine \<Rightarrow> ('o, 'i, 'k, 'z) machine" where
  "hal_mode_off s = s\<lparr>g_mode := MODE_OFF, g_writer := False\<rparr>"

definition hal_mode_record :: "bool \<Rightarrow> ('o, 'i, 'k, 'z) machine \<Rightarrow> ('o, 'i, 'k, 'z) machine" where
  "hal_mode_record writer s = s\<lparr>g_mode := MODE_RECORD, g_writer := writer\<rparr>"

definition hal_mode_replay :: "('o, 'i, 'k, 'z) machine \<Rightarrow> ('o, 'i, 'k, 'z) machine" where
  "hal_mode_replay s = s\<lparr>g_mode := MODE_REPLAY, g_writer := False\<rparr>"

definition hal_mode :: "('o, 'i, 'k, 'z) machine \<Rightarrow> mode" where
  "hal_mode s = g_mode s"

definition hal_irq_disable :: "('o, 'i, 'k, 'z) machine \<Rightarrow> ('o, 'i, 'k, 'z) machine" where
  "hal_irq_disable s = s\<lparr>g_mask_depth := g_mask_depth s + 1\<rparr>"

definition hal_irq_enable :: "('o, 'i, 'k, 'z) machine \<Rightarrow> ('o, 'i, 'k, 'z) machine" where
  "hal_irq_enable s =
     (if g_mask_depth s > 0 then s\<lparr>g_mask_depth := g_mask_depth s - 1\<rparr> else s)"

definition hal_diverged :: "('o, 'i, 'k, 'z) machine \<Rightarrow> bool" where
  "hal_diverged s \<longleftrightarrow> g_divergence s \<noteq> None"

definition hal_divergence :: "('o, 'i, 'k, 'z) machine \<Rightarrow> string" where
  "hal_divergence s = (case g_divergence s of None \<Rightarrow> '''' | Some why \<Rightarrow> why)"

definition hal_set_divergence ::
  "string \<Rightarrow> ('o, 'i, 'k, 'z) machine \<Rightarrow> ('o, 'i, 'k, 'z) machine" where
  "hal_set_divergence why s =
     (if g_divergence s = None then s\<lparr>g_divergence := Some why\<rparr> else s)"

section \<open>Calls through pointers\<close>

text \<open>A call of the attached backend. A null \<^verbatim>\<open>now\<close> is called without a check by the accesses.\<close>

definition call_now ::
  "('o, 'i, 'k, 'z) program \<Rightarrow> ('o, 'i, 'k, 'z) machine \<Rightarrow> (u64 \<times> ('o, 'i, 'k, 'z) machine) option" where
  "call_now L s = do {
     ops \<leftarrow> g_ops s;
     now \<leftarrow> op_now (vtable L ops);
     now s
   }"

text \<open>A member call on the writer object, whose sink may change the rest of the machine.\<close>

definition call_writer ::
  "('k trace_writer \<Rightarrow> ('o, 'i, 'k, 'z) machine \<Rightarrow>
      (bool \<times> 'k trace_writer \<times> ('o, 'i, 'k, 'z) machine) option) \<Rightarrow>
   ('o, 'i, 'k, 'z) machine \<Rightarrow> (bool \<times> ('o, 'i, 'k, 'z) machine) option" where
  "call_writer f s = do {
     (r, tw, s) \<leftarrow> f (the_writer s) s;
     Some (r, s\<lparr>the_writer := tw\<rparr>)
   }"

text \<open>\<^verbatim>\<open>if (vector < kMaxIrqVectors && g_isr[vector] != 0) g_isr[vector]();\<close>\<close>

definition hal_run_isr ::
  "('o, 'i, 'k, 'z) program \<Rightarrow> u32 \<Rightarrow> ('o, 'i, 'k, 'z) machine \<Rightarrow> ('o, 'i, 'k, 'z) machine option" where
  "hal_run_isr L vector s =
     (if vector < kMaxIrqVectors then do {
        fn \<leftarrow> rd (g_isr s) (unat vector);
        case fn of None \<Rightarrow> Some s | Some i \<Rightarrow> isr_code L i s
      } else Some s)"

section \<open>Dispatch\<close>

partial_function (option) pump_loop ::
  "('o, 'i, 'k, 'z) program \<Rightarrow> ('o, 'i, 'k, 'z) machine \<Rightarrow> ('o, 'i, 'k, 'z) machine option" where
  "pump_loop L s = do {
     ops \<leftarrow> g_ops s;
     poll \<leftarrow> op_poll_irq (vtable L ops);
     (vector, s1) \<leftarrow> poll s;
     if vector = kNoIrq then Some s1
     else do {
       s2 \<leftarrow> (if g_mode s1 = MODE_RECORD \<and> g_writer s1 then do {
           (ts, s2) \<leftarrow> call_now L s1;
           (_, s2) \<leftarrow> call_writer (tw_irq_enter (sink_code L) ts vector) s2;
           Some s2
         } else Some s1);
       s3 \<leftarrow> hal_run_isr L vector s2;
       pump_loop L s3
     }
   }"

definition pump_irqs ::
  "('o, 'i, 'k, 'z) program \<Rightarrow> ('o, 'i, 'k, 'z) machine \<Rightarrow> ('o, 'i, 'k, 'z) machine option" where
  "pump_irqs L s =
     (case g_ops s of
        None \<Rightarrow> Some s
      | Some ops \<Rightarrow>
          if op_poll_irq (vtable L ops) = None then Some s
          else if g_mask_depth s > 0 \<or> g_in_isr s then Some s
          else do {
            s1 \<leftarrow> pump_loop L (s\<lparr>g_in_isr := True\<rparr>);
            Some (s1\<lparr>g_in_isr := False\<rparr>)
          })"

section \<open>The firmware-facing operations\<close>

definition mmio_read32 ::
  "('o, 'i, 'k, 'z) program \<Rightarrow> u32 \<Rightarrow> ('o, 'i, 'k, 'z) machine \<Rightarrow>
   (u32 \<times> ('o, 'i, 'k, 'z) machine) option" where
  "mmio_read32 L addr s =
     (case Option.bind (g_ops s) (\<lambda>ops. op_read32 (vtable L ops)) of
        None \<Rightarrow> Some (0, s)
      | Some read32 \<Rightarrow> do {
          (val, s1) \<leftarrow> read32 addr s;
          s2 \<leftarrow> (if g_mode s1 = MODE_RECORD \<and> g_writer s1 then do {
              (ts, s2) \<leftarrow> call_now L s1;
              (_, s2) \<leftarrow> call_writer (tw_mmio_read (sink_code L) ts addr val) s2;
              Some s2
            } else Some s1);
          s3 \<leftarrow> pump_irqs L s2;
          Some (val, s3)
        })"

definition mmio_write32 ::
  "('o, 'i, 'k, 'z) program \<Rightarrow> u32 \<Rightarrow> u32 \<Rightarrow> ('o, 'i, 'k, 'z) machine \<Rightarrow>
   ('o, 'i, 'k, 'z) machine option" where
  "mmio_write32 L addr val s =
     (case Option.bind (g_ops s) (\<lambda>ops. op_write32 (vtable L ops)) of
        None \<Rightarrow> Some s
      | Some write32 \<Rightarrow> do {
          s1 \<leftarrow> write32 addr val s;
          s2 \<leftarrow> (if g_mode s1 = MODE_RECORD \<and> g_writer s1 then do {
              (ts, s2) \<leftarrow> call_now L s1;
              (_, s2) \<leftarrow> call_writer (tw_mmio_write (sink_code L) ts addr val) s2;
              Some s2
            } else Some s1);
          pump_irqs L s2
        })"

text \<open>The guard of the two entry points a hardware handler calls.\<close>

definition can_record_entry :: "('o, 'i, 'k, 'z) program \<Rightarrow> ('o, 'i, 'k, 'z) machine \<Rightarrow> bool" where
  "can_record_entry L s \<longleftrightarrow> g_mode s = MODE_RECORD \<and> g_writer s \<and>
     (case g_ops s of None \<Rightarrow> False | Some ops \<Rightarrow> op_now (vtable L ops) \<noteq> None)"

definition hal_record_irq_entry ::
  "('o, 'i, 'k, 'z) program \<Rightarrow> u32 \<Rightarrow> ('o, 'i, 'k, 'z) machine \<Rightarrow> ('o, 'i, 'k, 'z) machine option" where
  "hal_record_irq_entry L vector s =
     (if can_record_entry L s then do {
        (ts, s1) \<leftarrow> call_now L s;
        (_, s2) \<leftarrow> call_writer (tw_irq_enter (sink_code L) ts vector) s1;
        Some s2
      } else Some s)"

definition hal_record_irq_entry_at ::
  "('o, 'i, 'k, 'z) program \<Rightarrow> u32 \<Rightarrow> u32 \<Rightarrow> ('o, 'i, 'k, 'z) machine \<Rightarrow>
   ('o, 'i, 'k, 'z) machine option" where
  "hal_record_irq_entry_at L vector return_pc s =
     (if can_record_entry L s then do {
        (ts, s1) \<leftarrow> call_now L s;
        (_, s2) \<leftarrow> call_writer (tw_irq_enter_at (sink_code L) ts vector return_pc) s1;
        Some s2
      } else Some s)"

definition hal_now ::
  "('o, 'i, 'k, 'z) program \<Rightarrow> ('o, 'i, 'k, 'z) machine \<Rightarrow> (u64 \<times> ('o, 'i, 'k, 'z) machine) option" where
  "hal_now L s =
     (case Option.bind (g_ops s) (\<lambda>ops. op_now (vtable L ops)) of
        None \<Rightarrow> Some (0, s)
      | Some now \<Rightarrow> now s)"

text \<open>
  Linking a program: the code at a handler's address may call the shim, and so through it any
  handler. The depth bounds how deep handlers nest; at depth 0 calling one is undefined. The
  shim never enters a handler while one runs, so depth 1 is the whole program.
\<close>

fun link ::
  "('o, 'i, 'k, 's) linkage \<Rightarrow> (('o, 'i, 'k, 's) linkage \<Rightarrow> 'i \<Rightarrow> 's \<Rightarrow> 's option) \<Rightarrow> nat \<Rightarrow>
   ('o, 'i, 'k, 's) linkage" where
  "link L handlers 0 = L\<lparr>isr_code := \<lambda>i s. None\<rparr>"
| "link L handlers (Suc d) = L\<lparr>isr_code := handlers (link L handlers d)\<rparr>"

end
