(* ===== verification/Mcu.thy ===== *)
theory Mcu
  imports Hal
begin

text \<open>
  The simulated part, \<^verbatim>\<open>sim/src/mcu.cpp\<close>: a cycle counter, a UART whose bytes arrive on a
  pseudo-random schedule, a port. It only produces traces. The backend functions are lifted to
  the machine state where the program is linked.
\<close>

section \<open>Memory map and timing\<close>

definition kSystickBase :: u32 where "kSystickBase = 0x40000000"
definition kSystickCnt :: u32 where "kSystickCnt = kSystickBase + 0x00"
definition kUart0Base :: u32 where "kUart0Base = 0x40001000"
definition kUart0Sr :: u32 where "kUart0Sr = kUart0Base + 0x00"
definition kUart0Dr :: u32 where "kUart0Dr = kUart0Base + 0x04"
definition kGpio0Base :: u32 where "kGpio0Base = 0x40002000"
definition kGpio0Odr :: u32 where "kGpio0Odr = kGpio0Base + 0x00"
definition kSrRxne :: u32 where "kSrRxne = 1"
definition kSrTxe :: u32 where "kSrTxe = 2"
definition kIrqUartRx :: u32 where "kIrqUartRx = 1"

definition kMmioCost :: u32 where "kMmioCost = 3"
definition kFrameLen :: u32 where "kFrameLen = 3"
definition kRxByteGap :: u32 where "kRxByteGap = 6"
definition kRxByteJitter :: u32 where "kRxByteJitter = 200"
definition kRxFrameGap :: u32 where "kRxFrameGap = 600"
definition kRxFrameJitter :: u32 where "kRxFrameJitter = 300"

section \<open>State and operations\<close>

record mcu =
  mc_rng :: u64
  mc_cycles :: u64
  mc_next_rx_cycle :: u64
  mc_frame_pos :: u32
  mc_tx_total :: u32
  mc_tx_sent :: u32
  mc_tx_checksum :: u32
  mc_odr :: u32
  mc_rx_byte :: u8
  mc_rx_pending :: bool
  mc_irq_latched :: bool

definition xorshift64 :: "u64 \<Rightarrow> u64" where
  "xorshift64 r = (let r = r XOR push_bit 13 r; r = r XOR drop_bit 7 r in r XOR push_bit 17 r)"

definition mc_next_random :: "mcu \<Rightarrow> u64 \<times> mcu" where
  "mc_next_random m = (let r = xorshift64 (mc_rng m) in (r, m\<lparr>mc_rng := r\<rparr>))"

definition mc_init :: "u64 \<Rightarrow> u32 \<Rightarrow> mcu" where
  "mc_init seed tx_total =
     (let m = \<lparr>mc_rng = (if seed \<noteq> 0 then seed else 0x9E3779B97F4A7C15), mc_cycles = 0,
        mc_next_rx_cycle = 0, mc_frame_pos = 0, mc_tx_total = tx_total, mc_tx_sent = 0,
        mc_tx_checksum = 0, mc_odr = 0, mc_rx_byte = 0, mc_rx_pending = False,
        mc_irq_latched = False\<rparr>;
        (_, m) = mc_next_random m;
        (r, m) = mc_next_random m
      in m\<lparr>mc_next_rx_cycle := ucast kRxFrameGap + r mod ucast kRxFrameJitter\<rparr>)"

definition mc_advance :: "u32 \<Rightarrow> mcu \<Rightarrow> mcu" where
  "mc_advance dt m =
     (let m = m\<lparr>mc_cycles := mc_cycles m + ucast dt\<rparr> in
      if \<not> mc_rx_pending m \<and> mc_tx_sent m < mc_tx_total m \<and> mc_cycles m \<ge> mc_next_rx_cycle m then
        let (r, m) = mc_next_random m;
            byte = ucast (r AND 0xFF);
            m = m\<lparr>mc_rx_byte := byte, mc_rx_pending := True, mc_irq_latched := True,
              mc_tx_checksum := mc_tx_checksum m * 31 + ucast byte, mc_tx_sent := mc_tx_sent m + 1,
              mc_frame_pos := mc_frame_pos m + 1\<rparr>
        in if mc_frame_pos m \<ge> kFrameLen then
             let m = m\<lparr>mc_frame_pos := 0\<rparr>; (r, m) = mc_next_random m
             in m\<lparr>mc_next_rx_cycle := mc_cycles m + ucast kRxFrameGap + r mod ucast kRxFrameJitter\<rparr>
           else
             let (r, m) = mc_next_random m
             in m\<lparr>mc_next_rx_cycle := mc_cycles m + ucast kRxByteGap + r mod ucast kRxByteJitter\<rparr>
      else m)"

definition mc_read32 :: "u32 \<Rightarrow> mcu \<Rightarrow> u32 \<times> mcu" where
  "mc_read32 addr m =
     (let m = mc_advance kMmioCost m in
      if addr = kSystickCnt then (ucast (mc_cycles m AND 0xFFFFFFFF), m)
      else if addr = kUart0Sr then ((if mc_rx_pending m then kSrRxne else 0) OR kSrTxe, m)
      else if addr = kUart0Dr then (ucast (mc_rx_byte m), m\<lparr>mc_rx_pending := False\<rparr>)
      else if addr = kGpio0Odr then (mc_odr m, m)
      else (0, m))"

definition mc_write32 :: "u32 \<Rightarrow> u32 \<Rightarrow> mcu \<Rightarrow> mcu" where
  "mc_write32 addr val m =
     (let m = mc_advance kMmioCost m in
      if addr = kGpio0Odr then m\<lparr>mc_odr := val\<rparr> else m)"

definition mc_poll_irq :: "mcu \<Rightarrow> u32 \<times> mcu" where
  "mc_poll_irq m =
     (if mc_irq_latched m then (kIrqUartRx, m\<lparr>mc_irq_latched := False\<rparr>) else (kNoIrq, m))"

section \<open>What an access changes\<close>

lemmas mcu_map = kSystickCnt_def kSystickBase_def kUart0Sr_def kUart0Base_def kUart0Dr_def
  kGpio0Odr_def kGpio0Base_def

text \<open>How many interrupts the part can still raise.\<close>

definition mc_budget :: "mcu \<Rightarrow> nat" where
  "mc_budget m = (unat (mc_tx_total m) - unat (mc_tx_sent m)) + (if mc_irq_latched m then 1 else 0)"

lemma mc_advance_cases:
  obtains (quiet) "mc_advance dt m = m\<lparr>mc_cycles := mc_cycles m + ucast dt\<rparr>"
  | (byte) b rng next_rx pos where "\<not> mc_rx_pending m" "mc_tx_sent m < mc_tx_total m"
    "mc_advance dt m = m\<lparr>mc_rng := rng, mc_cycles := mc_cycles m + ucast dt, mc_next_rx_cycle := next_rx,
      mc_frame_pos := pos, mc_tx_sent := mc_tx_sent m + 1,
      mc_tx_checksum := mc_tx_checksum m * 31 + ucast b, mc_rx_byte := b, mc_rx_pending := True,
      mc_irq_latched := True\<rparr>"
proof (cases "\<not> mc_rx_pending m \<and> mc_tx_sent m < mc_tx_total m \<and> mc_cycles m + ucast dt \<ge> mc_next_rx_cycle m")
  case False
  then show thesis by (intro quiet) (auto simp: mc_advance_def)
next
  case True
  let ?r1 = "xorshift64 (mc_rng m)"
  define r2 where "r2 = xorshift64 ?r1"
  let ?pos = "mc_frame_pos m + 1"
  define pos where "pos = (if ?pos \<ge> kFrameLen then 0 else ?pos)"
  define next_rx where "next_rx = mc_cycles m + ucast dt + (if ?pos \<ge> kFrameLen
      then ucast kRxFrameGap + r2 mod ucast kRxFrameJitter else ucast kRxByteGap + r2 mod ucast kRxByteJitter)"
  have "mc_advance dt m = m\<lparr>mc_rng := r2, mc_cycles := mc_cycles m + ucast dt, mc_next_rx_cycle := next_rx,
      mc_frame_pos := pos, mc_tx_sent := mc_tx_sent m + 1,
      mc_tx_checksum := mc_tx_checksum m * 31 + ucast (ucast (?r1 AND 0xFF) :: u8),
      mc_rx_byte := ucast (?r1 AND 0xFF), mc_rx_pending := True, mc_irq_latched := True\<rparr>"
    using True
    by (simp add: mc_advance_def mc_next_random_def Let_def r2_def [symmetric] pos_def next_rx_def
      add.assoc)
  with True show thesis by (intro byte) auto
qed

lemma mc_budget_upd [simp]:
  "mc_budget (m\<lparr>mc_rx_pending := b\<rparr>) = mc_budget m" "mc_budget (m\<lparr>mc_odr := v\<rparr>) = mc_budget m"
  by (simp_all add: mc_budget_def)

lemma mc_advance_budget: "mc_budget (mc_advance dt m) \<le> mc_budget m"
proof (cases rule: mc_advance_cases [of dt m])
  case quiet
  then show ?thesis by (simp add: mc_budget_def)
next
  case (byte b rng next_rx pos)
  have "unat (mc_tx_sent m + 1) = unat (mc_tx_sent m) + 1"
    using byte(2) unat_u32_lt [of "mc_tx_total m"] unat_add_no_wrap [of "mc_tx_sent m" 1]
    by (simp add: word_less_nat_alt)
  then show ?thesis using byte by (simp add: mc_budget_def word_less_nat_alt)
qed

text \<open>An access takes three cycles and brings no more interrupts than were to come.\<close>

lemma mc_advance_pace [simp]:
  "mc_cycles (mc_advance dt m) = mc_cycles m + ucast dt" "mc_tx_total (mc_advance dt m) = mc_tx_total m"
  by (cases rule: mc_advance_cases [of dt m]; simp)+

lemma mc_read32_pace:
  "mc_read32 addr m = (v, m') \<Longrightarrow>
     mc_budget m' \<le> mc_budget m \<and> mc_cycles m' = mc_cycles m + 3 \<and> mc_tx_total m' = mc_tx_total m"
  using mc_advance_budget [of kMmioCost m]
  by (auto simp: mc_read32_def Let_def kMmioCost_def split: if_splits)

lemma mc_write32_pace:
  "mc_budget (mc_write32 addr v m) \<le> mc_budget m \<and> mc_cycles (mc_write32 addr v m) = mc_cycles m + 3 \<and>
     mc_tx_total (mc_write32 addr v m) = mc_tx_total m"
  using mc_advance_budget [of kMmioCost m] by (simp add: mc_write32_def Let_def kMmioCost_def)

lemma mc_poll_irq_idle: "\<not> mc_irq_latched m \<Longrightarrow> mc_poll_irq m = (kNoIrq, m)"
  by (simp add: mc_poll_irq_def)

lemma mc_poll_irq_latched:
  "mc_irq_latched m \<Longrightarrow> mc_poll_irq m = (kIrqUartRx, m\<lparr>mc_irq_latched := False\<rparr>)"
  "mc_irq_latched m \<Longrightarrow> mc_budget (m\<lparr>mc_irq_latched := False\<rparr>) < mc_budget m"
  by (simp_all add: mc_poll_irq_def mc_budget_def)

end
