(* ===== verification/Recorder.thy ===== *)
theory Recorder
  imports Hal Ring_Buffer
begin

text \<open>
  The recorder a device instantiates, \<^verbatim>\<open>target/src/recorder.cpp\<close>: the writer's sink pushes
  into the ring under a critical section, and a drain loop hands the ring to a transport. Its
  ring and flag extend the shim's state; its writer is the machine's.
\<close>

section \<open>State and operations\<close>

record ('o, 'i, 'k) recorder_machine = "('o, 'i, 'k) hal" +
  the_ring :: ring_buffer
  rec_started :: bool

type_synonym ('o, 'i, 'k, 'z) rec = "('o, 'i, 'k, 'z) recorder_machine_scheme"

definition rec_sink :: "bytes \<Rightarrow> ('o, 'i, 'k, 'z) rec \<Rightarrow> (bool \<times> ('o, 'i, 'k, 'z) rec) option" where
  "rec_sink data s = do {
     let s = hal_irq_disable s;
     (pushed, ring) \<leftarrow> rb_push (Some data) (of_nat (length data)) (the_ring s);
     let s = hal_irq_enable (s\<lparr>the_ring := ring\<rparr>);
     Some (pushed, s)
   }"

text \<open>\<^verbatim>\<open>k\<close> is the address of \<^verbatim>\<open>Recorder::sink\<close>.\<close>

definition rec_begin ::
  "('o, 'i, 'k, ('o, 'i, 'k, 'z) rec) linkage \<Rightarrow> 'k \<Rightarrow> bytes option \<Rightarrow> u32 \<Rightarrow> bytes option \<Rightarrow> u32 \<Rightarrow>
   u64 \<Rightarrow> u64 \<Rightarrow> u16 \<Rightarrow> ('o, 'i, 'k, 'z) rec \<Rightarrow> (bool \<times> ('o, 'i, 'k, 'z) rec) option" where
  "rec_begin L k ring_storage ring_capacity block_buffer block_bytes build_id seed flags s =
     (let (ok, ring) = rb_init ring_storage ring_capacity (the_ring s); s = s\<lparr>the_ring := ring\<rparr>
      in if \<not> ok then Some (False, s)
         else call_writer (tw_begin (sink_code L) (Some k) block_buffer block_bytes build_id seed flags) s)"

definition rec_start :: "('o, 'i, 'k, 'z) rec \<Rightarrow> ('o, 'i, 'k, 'z) rec" where
  "rec_start s = hal_mode_record True (s\<lparr>rec_started := True\<rparr>)"

definition rec_stop ::
  "('o, 'i, 'k, ('o, 'i, 'k, 'z) rec) linkage \<Rightarrow> u64 \<Rightarrow> ('o, 'i, 'k, 'z) rec \<Rightarrow>
   ('o, 'i, 'k, 'z) rec option" where
  "rec_stop L final_ts s = do {
     (_, s) \<leftarrow> call_writer (tw_finish (sink_code L) final_ts) s;
     Some ((hal_mode_off s)\<lparr>rec_started := False\<rparr>)
   }"

text \<open>A transport is code that is offered bytes and says how many it took.\<close>

partial_function (option) rec_drain_loop ::
  "(bytes \<Rightarrow> ('o, 'i, 'k, 'z) rec \<Rightarrow> (u32 \<times> ('o, 'i, 'k, 'z) rec) option) \<Rightarrow> u32 \<Rightarrow> u32 \<Rightarrow>
   ('o, 'i, 'k, 'z) rec \<Rightarrow> (u32 \<times> ('o, 'i, 'k, 'z) rec) option" where
  "rec_drain_loop transport max_bytes sent s =
     (if sent < max_bytes then do {
        (avail, chunk) \<leftarrow> rb_peek True (the_ring s);
        if avail = 0 then Some (sent, s)
        else do {
          let avail = (if avail > max_bytes - sent then max_bytes - sent else avail);
          view \<leftarrow> chunk;
          offered \<leftarrow> slice view 0 (unat avail);
          (taken, s) \<leftarrow> transport offered s;
          if taken = 0 then Some (sent, s)
          else
            let n = (if taken > avail then avail else taken);
                (_, ring) = rb_consume n (the_ring s)
            in rec_drain_loop transport max_bytes (sent + n) (s\<lparr>the_ring := ring\<rparr>)
        }
      } else Some (sent, s))"

definition rec_drain ::
  "(bytes \<Rightarrow> ('o, 'i, 'k, 'z) rec \<Rightarrow> (u32 \<times> ('o, 'i, 'k, 'z) rec) option) option \<Rightarrow> u32 \<Rightarrow>
   ('o, 'i, 'k, 'z) rec \<Rightarrow> (u32 \<times> ('o, 'i, 'k, 'z) rec) option" where
  "rec_drain transport max_bytes s =
     (case transport of None \<Rightarrow> Some (0, s) | Some offer \<Rightarrow> rec_drain_loop offer max_bytes 0 s)"

definition rec_healthy :: "('o, 'i, 'k, 'z) rec \<Rightarrow> bool" where
  "rec_healthy s \<longleftrightarrow> tw_ok (the_writer s) \<and> tw_blocks_lost (the_writer s) = 0 \<and>
     rb_drops (the_ring s) = 0"

section \<open>Draining\<close>

text \<open>
  What the drain loop asks of a transport: it keeps a prefix of what it is offered, and
  answers how much, or more. \<^verbatim>\<open>received\<close> is what it has kept so far. It leaves alone the ring
  and whatever \<^verbatim>\<open>view\<close> looks at.
\<close>

locale transport =
  fixes offer :: "bytes \<Rightarrow> ('o, 'i, 'k, 'z) rec \<Rightarrow> (u32 \<times> ('o, 'i, 'k, 'z) rec) option"
    and received :: "('o, 'i, 'k, 'z) rec \<Rightarrow> bytes" and view :: "('o, 'i, 'k, 'z) rec \<Rightarrow> 'v"
  assumes offer_law: "\<exists>n s'. offer bs s = Some (n, s') \<and>
      received s' = received s @ take (unat n) bs \<and> the_ring s' = the_ring s \<and> view s' = view s"
    and received_ring: "received (s\<lparr>the_ring := r\<rparr>) = received s"
    and view_ring: "view (s\<lparr>the_ring := r\<rparr>) = view s"
begin

text \<open>One pass of the loop: it stops with nothing moved, or it moves some bytes and goes on.\<close>

lemma drain_pass [consumes 2]:
  assumes ready: "rb_ready (the_ring s)" and le: "unat sent \<le> unat max_bytes"
  obtains (stop) s' where "rec_drain_loop offer max_bytes sent s = Some (sent, s')" "received s' = received s"
      "the_ring s' = the_ring s" "view s' = view s"
    | (go) m s' bs where "rec_drain_loop offer max_bytes sent s = rec_drain_loop offer max_bytes (sent + m) s'"
      "unat (sent + m) = unat sent + length bs" "unat (sent + m) \<le> unat max_bytes" "bs \<noteq> []"
      "received s' = received s @ bs" "rb_contents (the_ring s) = bs @ rb_contents (the_ring s')"
      "rb_ready (the_ring s')" "view s' = view s"
proof -
  note step = rec_drain_loop.simps [of offer max_bytes sent s]
  obtain n v where peek: "rb_peek True (the_ring s) = Some (n, v)"
    using ring.peek_not_None [OF ready] by blast
  show thesis
  proof (cases "sent < max_bytes \<and> n \<noteq> 0")
    case False
    then show thesis using peek by (intro stop [of s]) (auto simp: step)
  next
    case True
    define avail where "avail = (if n > max_bytes - sent then max_bytes - sent else n)"
    have room: "unat (max_bytes - sent) = unat max_bytes - unat sent"
      using True by (intro unat_sub) (simp add: less_imp_le)
    have avail: "avail \<le> n" "unat sent + unat avail \<le> unat max_bytes" "avail \<noteq> 0"
      using True room unfolding avail_def by (auto simp: word_less_nat_alt word_le_nat_alt)
    define w where "w = take (unat n) (rb_contents (the_ring s))"
    have w: "v = Some w" "length w = unat n"
      using ring.peek_Some [OF ready peek] True by (simp_all add: w_def)
    let ?offered = "take (unat avail) w"
    have slice: "slice w 0 (unat avail) = Some ?offered"
      using avail(1) w(2) by (simp add: word_le_nat_alt)
    obtain t s1 where offer: "offer ?offered s = Some (t, s1)" "the_ring s1 = the_ring s"
      "received s1 = received s @ take (unat t) ?offered" "view s1 = view s"
      using offer_law [of ?offered s] by blast
    show thesis
    proof (cases "t = 0")
      case t0: True
      then show thesis
        using True peek w(1) slice offer by (intro stop [of s1]) (auto simp: step Let_def avail_def [symmetric])
    next
      case False
      define m where "m = (if t > avail then avail else t)"
      have m: "m \<le> avail" "m \<noteq> 0" "take (unat t) ?offered = take (unat m) w" "m \<le> n"
        using False avail unfolding m_def by (auto simp: min_def word_less_nat_alt word_le_nat_alt)
      obtain q' where q': "rb_consume m (the_ring s) = (True, q')" "rb_ready q'"
        "rb_contents (the_ring s) = take (unat m) w @ rb_contents q'"
        using ring.drain_step [OF ready peek m(4)] True w(1) by auto
      have sm: "unat (sent + m) = unat sent + unat m" "unat sent + unat m \<le> unat max_bytes"
        using m(1) avail(2) unat_u32_lt [of max_bytes] by (auto simp: word_le_nat_alt intro: unat_add_no_wrap)
      have lm: "length (take (unat m) w) = unat m" using m(4) w(2) by (simp add: word_le_nat_alt)
      have "take (unat m) w \<noteq> []" using lm m(2) by (metis list.size(3) unat_eq_0)
      then show thesis
        using True peek w(1) slice offer False q' sm lm m(3)
        by (intro go [of m "s1\<lparr>the_ring := q'\<rparr>" "take (unat m) w"])
          (simp_all add: step Let_def avail_def [symmetric] m_def [symmetric] received_ring view_ring)
    qed
  qed
qed

text \<open>
  Draining ends, moves bytes from the front of the ring to the transport and loses none,
  never moves more than it was asked to, and answers how many it moved.
\<close>

lemma drain_loop_law:
  "rb_ready (the_ring s) \<Longrightarrow> unat sent \<le> unat max_bytes \<Longrightarrow>
   \<exists>sent' s' moved. rec_drain_loop offer max_bytes sent s = Some (sent', s') \<and>
     unat sent' = unat sent + length moved \<and> unat sent' \<le> unat max_bytes \<and>
     received s' = received s @ moved \<and> rb_contents (the_ring s) = moved @ rb_contents (the_ring s') \<and>
     rb_ready (the_ring s') \<and> view s' = view s"
proof (induction "length (rb_contents (the_ring s))" arbitrary: s sent rule: less_induct)
  case less
  from less.prems show ?case
  proof (cases rule: drain_pass)
    case (stop s')
    then show ?thesis using less.prems by (intro exI [of _ sent] exI [of _ s'] exI [of _ "[]"]) simp
  next
    case (go m s' bs)
    have "length (rb_contents (the_ring s')) < length (rb_contents (the_ring s))"
      using go(4) unfolding go(6) by simp
    from less.hyps [OF this go(7,3)] obtain sent' s'' moved where
      "rec_drain_loop offer max_bytes (sent + m) s' = Some (sent', s'')"
      "unat sent' = unat (sent + m) + length moved" "unat sent' \<le> unat max_bytes"
      "received s'' = received s' @ moved" "rb_contents (the_ring s') = moved @ rb_contents (the_ring s'')"
      "rb_ready (the_ring s'')" "view s'' = view s'"
      by blast
    with go show ?thesis
      by (intro exI [of _ sent'] exI [of _ s''] exI [of _ "bs @ moved"]) simp
  qed
qed

end

section \<open>The sink\<close>

text \<open>
  The recorder's sink takes a block whole or not at all, into the ring. Seen from the other
  end of the link, the bytes that got out are the received ones and then the ring's.
\<close>

locale device_link = transport offer received view
  for offer :: "bytes \<Rightarrow> ('o, 'i, 'k, 'z) rec \<Rightarrow> (u32 \<times> ('o, 'i, 'k, 'z) rec) option"
    and received :: "('o, 'i, 'k, 'z) rec \<Rightarrow> bytes" and view :: "('o, 'i, 'k, 'z) rec \<Rightarrow> 'v" +
  fixes sinks :: "('k, ('o, 'i, 'k, 'z) rec) sinks" and k :: 'k
  assumes sink_is: "sinks k = rec_sink"
    and received_mask: "received (s\<lparr>g_mask_depth := d\<rparr>) = received s"

text \<open>A chunk is taken exactly when the ring has room for it.\<close>

lemma rec_sink_cases:
  assumes "rb_ready (the_ring s)" "length data < 4294967296"
  shows "\<exists>ring. rec_sink data s = Some (length (rb_contents (the_ring s)) + length data \<le> unat (rb_cap (the_ring s)),
      hal_irq_enable ((hal_irq_disable s)\<lparr>the_ring := ring\<rparr>)) \<and> rb_ready ring"
  using rb_push_list_cases [OF assms] by (auto simp: rb_push_list_def rec_sink_def hal_irq_disable_def Let_def)

sublocale device_link \<subseteq> block_sink sinks k "\<lambda>s. received s @ rb_contents (the_ring s)"
  "\<lambda>s. rb_ready (the_ring s)" True
proof unfold_locales
  fix s :: "('o, 'i, 'k, 'z) rec" and data :: bytes
  assume r: "rb_ready (the_ring s)" "length data < 4294967296"
  obtain ok ring where p: "rb_push (Some data) (of_nat (length data)) (the_ring s) = Some (ok, ring)"
    "rb_ready ring" "rb_contents ring = (if ok then rb_contents (the_ring s) @ data else rb_contents (the_ring s))"
    using rb_push_list_cases [OF r] by (auto simp: rb_push_list_def)
  have mask: "received (hal_irq_enable ((hal_irq_disable s)\<lparr>the_ring := ring\<rparr>)) = received s"
    "the_ring (hal_irq_enable ((hal_irq_disable s)\<lparr>the_ring := ring\<rparr>)) = ring"
    "the_ring (hal_irq_disable s) = the_ring s"
    using received_mask received_ring by (simp_all add: hal_irq_enable_def hal_irq_disable_def)
  show "\<exists>taken s'. sinks k data s = Some (taken, s') \<and> (taken \<or> True) \<and> rb_ready (the_ring s') \<and>
      received s' @ rb_contents (the_ring s') =
        (received s @ rb_contents (the_ring s)) @ (if taken then data else [])"
    using p mask by (simp add: sink_is rec_sink_def)
qed

context device_link
begin

text \<open>Draining between two recording steps keeps the stream, and so the whole recording's state.\<close>

lemma drain_keeps_log:
  assumes "rb_ready (the_ring s)"
    and "tw_logged k True (\<lambda>s. received s @ rb_contents (the_ring s)) (\<lambda>s. rb_ready (the_ring s))
      bs0 log hist cur tw s"
  shows "\<exists>sent s'. rec_drain (Some offer) max_bytes s = Some (sent, s') \<and>
    tw_logged k True (\<lambda>s. received s @ rb_contents (the_ring s)) (\<lambda>s. rb_ready (the_ring s))
      bs0 log hist cur tw s' \<and> view s' = view s"
  using drain_loop_law [OF assms(1), of 0 max_bytes] assms(2)
  by (auto simp: rec_drain_def tw_logged_def sink_at_def)

end

end
