(* ===== verification/Rx_Pump.thy ===== *)
theory Rx_Pump
  imports Mcu Recorder
begin

text \<open>
  The example firmware, \<^verbatim>\<open>firmware/src/rx_pump.cpp\<close>: an interrupt handler fills a ring from
  the UART, the main loop drains it. Its static state extends the machine's; it has one handler.
\<close>

section \<open>State\<close>

datatype variant = kBuggy | kFixed

definition kRingSize :: u32 where "kRingSize = 16"

record fw_state =
  st_ring :: bytes
  st_head :: u32
  st_tail :: u32
  st_pending :: u32
  st_consumed :: u32
  st_checksum :: u32
  st_last_stamp :: u32
  st_overflows :: u32

datatype handler = Isr_uart_rx

record ('o, 'k) fw_machine = "('o, handler, 'k) recorder_machine" +
  g_state :: fw_state

type_synonym ('o, 'k, 'z) fw = "('o, 'k, 'z) fw_machine_scheme"
type_synonym ('o, 'k, 'z) fw_program = "('o, handler, 'k, ('o, 'k, 'z) fw) linkage"

definition fw_upd :: "(fw_state \<Rightarrow> fw_state) \<Rightarrow> ('o, 'k, 'z) fw \<Rightarrow> ('o, 'k, 'z) fw" where
  "fw_upd f s = s\<lparr>g_state := f (g_state s)\<rparr>"

section \<open>The handler\<close>

definition isr_uart_rx :: "('o, 'k, 'z) fw_program \<Rightarrow> ('o, 'k, 'z) fw \<Rightarrow> ('o, 'k, 'z) fw option" where
  "isr_uart_rx L s = do {
     (sr, s) \<leftarrow> mmio_read32 L kUart0Sr s;
     if sr AND kSrRxne = 0 then Some s
     else do {
       (dr, s) \<leftarrow> mmio_read32 L kUart0Dr s;
       let byte = (ucast (dr AND 0xFF) :: u8);
       let next_head = (st_head (g_state s) + 1) mod kRingSize;
       if next_head = st_tail (g_state s)
       then Some (fw_upd (\<lambda>st. st\<lparr>st_overflows := st_overflows st + 1\<rparr>) s)
       else do {
         ring \<leftarrow> wr (st_ring (g_state s)) (unat (st_head (g_state s))) byte;
         Some (fw_upd (\<lambda>st. st\<lparr>st_ring := ring, st_head := next_head,
           st_pending := st_pending st + 1\<rparr>) s)
       }
     }
   }"

fun fw_handlers :: "('o, 'k, 'z) fw_program \<Rightarrow> handler \<Rightarrow> ('o, 'k, 'z) fw \<Rightarrow> ('o, 'k, 'z) fw option" where
  "fw_handlers L Isr_uart_rx = isr_uart_rx L"

section \<open>The main loop\<close>

definition consume_one :: "('o, 'k, 'z) fw_program \<Rightarrow> ('o, 'k, 'z) fw \<Rightarrow> ('o, 'k, 'z) fw option" where
  "consume_one L s = do {
     byte \<leftarrow> rd (st_ring (g_state s)) (unat (st_tail (g_state s)));
     let s = fw_upd (\<lambda>st. st\<lparr>st_tail := (st_tail st + 1) mod kRingSize,
       st_checksum := st_checksum st * 31 + ucast byte, st_consumed := st_consumed st + 1\<rparr>) s;
     (stamp, s) \<leftarrow> mmio_read32 L kSystickCnt s;
     let s = fw_upd (\<lambda>st. st\<lparr>st_last_stamp := stamp\<rparr>) s;
     mmio_write32 L kGpio0Odr (st_consumed (g_state s)) s
   }"

fun consume_n :: "('o, 'k, 'z) fw_program \<Rightarrow> nat \<Rightarrow> ('o, 'k, 'z) fw \<Rightarrow> ('o, 'k, 'z) fw option" where
  "consume_n L 0 s = Some s"
| "consume_n L (Suc n) s = do { s \<leftarrow> consume_one L s; consume_n L n s }"

text \<open>One iteration of the main loop.\<close>

definition rx_pump_iter ::
  "('o, 'k, 'z) fw_program \<Rightarrow> variant \<Rightarrow> ('o, 'k, 'z) fw \<Rightarrow> ('o, 'k, 'z) fw option" where
  "rx_pump_iter L variant s =
     (let (n, s) = (if variant = kFixed then
          let s = hal_irq_disable s; n = st_pending (g_state s) in (n, hal_irq_enable s)
        else (st_pending (g_state s), s))
      in if n = 0 then do { (_, s) \<leftarrow> mmio_read32 L kSystickCnt s; Some s }
      else do {
        s \<leftarrow> consume_n L (unat n) s;
        Some (if variant = kFixed then
            hal_irq_enable (fw_upd (\<lambda>st. st\<lparr>st_pending := st_pending st - n\<rparr>) (hal_irq_disable s))
          else fw_upd (\<lambda>st. st\<lparr>st_pending := 0\<rparr>) s)
      })"

fun rx_pump_loop ::
  "('o, 'k, 'z) fw_program \<Rightarrow> variant \<Rightarrow> nat \<Rightarrow> ('o, 'k, 'z) fw \<Rightarrow> ('o, 'k, 'z) fw option" where
  "rx_pump_loop L variant 0 s = Some s"
| "rx_pump_loop L variant (Suc n) s = do { s \<leftarrow> rx_pump_iter L variant s; rx_pump_loop L variant n s }"

definition rx_pump_run ::
  "('o, 'k, 'z) fw_program \<Rightarrow> variant \<Rightarrow> u32 \<Rightarrow> ('o, 'k, 'z) fw \<Rightarrow> ('o, 'k, 'z) fw option" where
  "rx_pump_run L variant main_iters s = rx_pump_loop L variant (unat main_iters) s"

section \<open>Setting up and looking in\<close>

definition rx_pump_empty :: fw_state where
  "rx_pump_empty = \<lparr>st_ring = replicate (unat kRingSize) 0, st_head = 0, st_tail = 0, st_pending = 0,
     st_consumed = 0, st_checksum = 0, st_last_stamp = 0, st_overflows = 0\<rparr>"

definition rx_pump_reset :: "('o, 'k, 'z) fw \<Rightarrow> ('o, 'k, 'z) fw" where
  "rx_pump_reset s = s\<lparr>g_state := rx_pump_empty\<rparr>"

definition rx_pump_install :: "('o, 'k, 'z) fw \<Rightarrow> ('o, 'k, 'z) fw option" where
  "rx_pump_install s = hal_set_isr kIrqUartRx (Some Isr_uart_rx) s"

definition rx_pump_restore :: "fw_state \<Rightarrow> ('o, 'k, 'z) fw \<Rightarrow> ('o, 'k, 'z) fw" where
  "rx_pump_restore st s = s\<lparr>g_state := st\<rparr>"

definition fnv_byte :: "u64 \<Rightarrow> u8 \<Rightarrow> u64" where
  "fnv_byte h b = (h XOR ucast b) * 1099511628211"

definition fnv_u32 :: "u64 \<Rightarrow> u32 \<Rightarrow> u64" where
  "fnv_u32 h v = foldl (\<lambda>h i. fnv_byte h (ucast (drop_bit (i * 8) v AND 0xFF))) h [0, 1, 2, 3]"

definition rx_pump_state_hash :: "fw_state \<Rightarrow> u64" where
  "rx_pump_state_hash st =
     (let h = foldl fnv_byte 14695981039346656037 (st_ring st) in
      foldl fnv_u32 h [st_head st, st_tail st, st_pending st, st_consumed st, st_checksum st,
        st_last_stamp st, st_overflows st])"

end
