(* ===== verification/Replay.thy ===== *)
theory Replay
  imports Rx_Pump Trace_Reader
begin

text \<open>
  The backend made of a recorded trace, \<^verbatim>\<open>host/src/replay.cpp\<close>: it serves the events in order
  and latches a divergence as soon as the firmware asks for something else. Its state extends
  the firmware's. \<^verbatim>\<open>size_t\<close> is a natural number; the capture callback is a code address.
\<close>

section \<open>State\<close>

record 'c replay_hal =
  rp_header :: trace_header
  rp_events :: "event list"
  rp_cursor :: nat
  rp_now :: u64
  rp_capture_at :: nat
  rp_capture_fn :: "'c option"
  rp_captured :: bool
  rp_events_served :: u64
  rp_check_writes :: bool
  rp_error :: string
  rp_divergence :: string
  rp_detail :: string

definition rp_new :: "'c replay_hal" where
  "rp_new = \<lparr>rp_header = zero_header, rp_events = [], rp_cursor = 0, rp_now = 0,
     rp_capture_at = 0, rp_capture_fn = None, rp_captured = False, rp_events_served = 0,
     rp_check_writes = False, rp_error = '''', rp_divergence = '''', rp_detail = ''''\<rparr>"

record ('o, 'k, 'c) replay_machine = "('o, 'k) fw_machine" +
  the_replay :: "'c replay_hal"

type_synonym ('o, 'k, 'c, 'z) rp = "('o, 'k, 'c, 'z) replay_machine_scheme"

definition rp_upd :: "('c replay_hal \<Rightarrow> 'c replay_hal) \<Rightarrow> ('o, 'k, 'c, 'z) rp \<Rightarrow> ('o, 'k, 'c, 'z) rp" where
  "rp_upd f s = s\<lparr>the_replay := f (the_replay s)\<rparr>"

section \<open>Messages\<close>

definition hex_digits :: string where
  "hex_digits = ''0123456789ABCDEF''"

text \<open>\<^verbatim>\<open>%08X\<close>, and \<^verbatim>\<open>%zu\<close>.\<close>

definition fmt_hex :: "u32 \<Rightarrow> string" where
  "fmt_hex w = map (\<lambda>i. hex_digits ! unat (drop_bit (4 * i) w AND 0xF)) [7, 6, 5, 4, 3, 2, 1, 0]"

function fmt_dec :: "nat \<Rightarrow> string" where
  "fmt_dec n = (if n < 10 then [hex_digits ! n] else fmt_dec (n div 10) @ [hex_digits ! (n mod 10)])"
  by auto
termination by (relation "measure id") auto

declare fmt_dec.simps [simp del]

definition event_name :: "u8 \<Rightarrow> string" where
  "event_name type =
     (if type = ev_code EV_MMIO_READ then ''MMIO_READ''
      else if type = ev_code EV_MMIO_WRITE then ''MMIO_WRITE''
      else if type = ev_code EV_IRQ_ENTER then ''IRQ_ENTER''
      else if type = ev_code EV_IRQ_AT then ''IRQ_AT''
      else if type = ev_code EV_STOP then ''STOP''
      else ''?'')"

section \<open>Operations\<close>

definition rp_load :: "bytes \<Rightarrow> 'c replay_hal \<Rightarrow> (bool \<times> 'c replay_hal) option" where
  "rp_load data rp =
     (if length data > 0xFFFFFFFF then Some (False, rp\<lparr>rp_error := ''trace larger than 4 GiB''\<rparr>)
      else do {
        (opened, reader) \<leftarrow> tr_open (Some data) (of_nat (length data)) tr_new;
        if \<not> opened then Some (False, rp\<lparr>rp_error := tr_error reader\<rparr>)
        else
          let rp = rp\<lparr>rp_header := tr_hdr reader,
                rp_check_writes := (h_flags (tr_hdr reader) AND kFlagRecordWrites \<noteq> 0)\<rparr>
          in do {
            (events, reader) \<leftarrow> tr_read_all \<lparr>ev_type = 0, ev_ts = 0, ev_addr = 0, ev_value = 0\<rparr> reader [];
            let rp = rp\<lparr>rp_events := events\<rparr>;
            if \<not> tr_ok reader then Some (False, rp\<lparr>rp_error := tr_error reader\<rparr>)
            else Some (True, rp\<lparr>rp_cursor := 0, rp_now := 0\<rparr>)
          }
      })"

definition rp_set_capture_point :: "nat \<Rightarrow> 'c option \<Rightarrow> 'c replay_hal \<Rightarrow> 'c replay_hal" where
  "rp_set_capture_point index fn rp =
     rp\<lparr>rp_capture_at := index, rp_capture_fn := fn, rp_captured := False\<rparr>"

definition rp_clear_capture_point :: "'c replay_hal \<Rightarrow> 'c replay_hal" where
  "rp_clear_capture_point rp = rp\<lparr>rp_capture_fn := None, rp_captured := False\<rparr>"

definition rp_set_cursor :: "nat \<Rightarrow> u64 \<Rightarrow> 'c replay_hal \<Rightarrow> 'c replay_hal" where
  "rp_set_cursor cursor now rp =
     rp\<lparr>rp_cursor := cursor, rp_now := now, rp_divergence := '''', rp_detail := ''''\<rparr>"

type_synonym ('c, 's) captures = "'c \<Rightarrow> 's \<Rightarrow> 's option"

definition rp_maybe_capture ::
  "('c, ('o, 'k, 'c, 'z) rp) captures \<Rightarrow> ('o, 'k, 'c, 'z) rp \<Rightarrow> ('o, 'k, 'c, 'z) rp option" where
  "rp_maybe_capture captures s =
     (case rp_capture_fn (the_replay s) of
        None \<Rightarrow> Some s
      | Some fn \<Rightarrow>
          if \<not> rp_captured (the_replay s) \<and> rp_cursor (the_replay s) = rp_capture_at (the_replay s)
          then captures fn (rp_upd (\<lambda>rp. rp\<lparr>rp_captured := True\<rparr>) s)
          else Some s)"

text \<open>The message is cut at the size of the buffer it is formatted into.\<close>

definition rp_diverge :: "string \<Rightarrow> ('o, 'k, 'c, 'z) rp \<Rightarrow> ('o, 'k, 'c, 'z) rp" where
  "rp_diverge msg s =
     (if rp_divergence (the_replay s) \<noteq> '''' then s
      else let detail = take 255 msg in
        hal_set_divergence detail
          (rp_upd (\<lambda>rp. rp\<lparr>rp_detail := detail, rp_divergence := detail\<rparr>) s))"

definition rp_serve :: "event \<Rightarrow> ('o, 'k, 'c, 'z) rp \<Rightarrow> ('o, 'k, 'c, 'z) rp" where
  "rp_serve ev s = rp_upd (\<lambda>rp. rp\<lparr>rp_cursor := rp_cursor rp + 1,
     rp_events_served := rp_events_served rp + 1, rp_now := ev_ts ev\<rparr>) s"

definition rp_read32 ::
  "('c, ('o, 'k, 'c, 'z) rp) captures \<Rightarrow> u32 \<Rightarrow> ('o, 'k, 'c, 'z) rp \<Rightarrow>
   (u32 \<times> ('o, 'k, 'c, 'z) rp) option" where
  "rp_read32 captures addr s = do {
     s \<leftarrow> rp_maybe_capture captures s;
     let rp = the_replay s;
     if rp_cursor rp \<ge> length (rp_events rp)
     then Some (0, rp_diverge (''read of 0x'' @ fmt_hex addr @
       '' past the end of the recording ('' @ fmt_dec (rp_cursor rp) @ '' events consumed)'') s)
     else
       let ev = rp_events rp ! rp_cursor rp in
       if ev_type ev = ev_code EV_STOP
       then Some (0, rp_diverge (''read of 0x'' @ fmt_hex addr @
         '' past the end of the recording (the recorded run stopped after '' @
         fmt_dec (rp_cursor rp) @ '' events)'') s)
       else if ev_type ev \<noteq> ev_code EV_MMIO_READ
       then Some (0, rp_diverge (''event '' @ fmt_dec (rp_cursor rp) @ '': firmware read 0x'' @
         fmt_hex addr @ '', trace has '' @ event_name (ev_type ev)) s)
       else if ev_addr ev \<noteq> addr
       then Some (0, rp_diverge (''event '' @ fmt_dec (rp_cursor rp) @ '': firmware read 0x'' @
         fmt_hex addr @ '', trace recorded 0x'' @ fmt_hex (ev_addr ev)) s)
       else Some (ev_value ev, rp_serve ev s)
   }"

definition rp_write32 ::
  "('c, ('o, 'k, 'c, 'z) rp) captures \<Rightarrow> u32 \<Rightarrow> u32 \<Rightarrow> ('o, 'k, 'c, 'z) rp \<Rightarrow>
   ('o, 'k, 'c, 'z) rp option" where
  "rp_write32 captures addr val s = do {
     s \<leftarrow> rp_maybe_capture captures s;
     let rp = the_replay s;
     if \<not> rp_check_writes rp then Some s
     else if rp_cursor rp \<ge> length (rp_events rp)
     then Some (rp_diverge (''write of 0x'' @ fmt_hex val @ '' to 0x'' @ fmt_hex addr @
       '' past the end of the recording'') s)
     else
       let ev = rp_events rp ! rp_cursor rp in
       if ev_type ev = ev_code EV_STOP
       then Some (rp_diverge (''write of 0x'' @ fmt_hex val @ '' to 0x'' @ fmt_hex addr @
         '' past the end of the recording (the recorded run stopped after '' @
         fmt_dec (rp_cursor rp) @ '' events)'') s)
       else if ev_type ev \<noteq> ev_code EV_MMIO_WRITE
       then Some (rp_diverge (''event '' @ fmt_dec (rp_cursor rp) @ '': firmware wrote 0x'' @
         fmt_hex addr @ '', trace has '' @ event_name (ev_type ev)) s)
       else if ev_addr ev \<noteq> addr \<or> ev_value ev \<noteq> val
       then Some (rp_diverge (''event '' @ fmt_dec (rp_cursor rp) @ '': firmware wrote 0x'' @
         fmt_hex addr @ ''=0x'' @ fmt_hex val @ '', trace recorded 0x'' @ fmt_hex (ev_addr ev) @
         ''=0x'' @ fmt_hex (ev_value ev)) s)
       else Some (rp_serve ev s)
   }"

definition rp_poll_irq ::
  "('c, ('o, 'k, 'c, 'z) rp) captures \<Rightarrow> ('o, 'k, 'c, 'z) rp \<Rightarrow> (u32 \<times> ('o, 'k, 'c, 'z) rp) option" where
  "rp_poll_irq captures s = do {
     s \<leftarrow> rp_maybe_capture captures s;
     let rp = the_replay s;
     if rp_cursor rp \<ge> length (rp_events rp) then Some (kNoIrq, s)
     else
       let ev = rp_events rp ! rp_cursor rp in
       if ev_type ev \<noteq> ev_code EV_IRQ_ENTER \<and> ev_type ev \<noteq> ev_code EV_IRQ_AT
       then Some (kNoIrq, s)
       else Some (ev_addr ev, rp_serve ev s)
   }"

definition replay_ops ::
  "('c, ('o, 'k, 'c, 'z) rp) captures \<Rightarrow> ('o, 'k, 'c, 'z) rp hal_ops" where
  "replay_ops captures = \<lparr>op_read32 = Some (rp_read32 captures),
     op_write32 = Some (rp_write32 captures),
     op_now = Some (\<lambda>s. Some (rp_now (the_replay s), s)),
     op_poll_irq = Some (rp_poll_irq captures)\<rparr>"

end
