(* ===== verification/Sink_Frame.thy ===== *)
theory Sink_Frame
  imports Trace_Writer
begin

text \<open>
  What the writer's operations leave alone. The writer changes the rest of the machine only by
  calling its sink, so what every sink keeps, every operation keeps.
\<close>

definition sinks_keep :: "('k, 's) sinks \<Rightarrow> ('s \<Rightarrow> bool) \<Rightarrow> bool" where
  "sinks_keep sinks P \<longleftrightarrow>
     (\<forall>k data s taken s'. P s \<longrightarrow> sinks k data s = Some (taken, s') \<longrightarrow> P s')"

lemma sinks_keepD: "sinks_keep sinks P \<Longrightarrow> sinks k data s = Some (taken, s') \<Longrightarrow> P s \<Longrightarrow> P s'"
  unfolding sinks_keep_def by blast

named_theorems writer_keeps \<open>the frame of each operation\<close>

lemma tw_emit_keeps [writer_keeps]:
  "tw_emit sinks data tw s = Some (b, tw', s') \<Longrightarrow> sinks_keep sinks P \<Longrightarrow> P s \<Longrightarrow> P s'"
  by (auto simp: tw_emit_def bind_eq_Some_conv split: if_splits dest: sinks_keepD)

lemma tw_flush_block_keeps [writer_keeps]:
  "tw_flush_block sinks tw s = Some (tw', s') \<Longrightarrow> sinks_keep sinks P \<Longrightarrow> P s \<Longrightarrow> P s'"
  by (auto simp: tw_flush_block_def bind_eq_Some_conv Let_def split: if_splits dest: sinks_keepD)

lemma tw_stage_keeps [writer_keeps]:
  "tw_stage sinks bs tw s = Some (b, tw', s') \<Longrightarrow> sinks_keep sinks P \<Longrightarrow> P s \<Longrightarrow> P s'"
  by (auto simp: tw_stage_def bind_eq_Some_conv Let_def split: if_splits dest: tw_flush_block_keeps)

lemma tw_write_mmio_keeps [writer_keeps]:
  "tw_write_mmio sinks t ts a v tw s = Some (b, tw', s') \<Longrightarrow> sinks_keep sinks P \<Longrightarrow> P s \<Longrightarrow> P s'"
  by (auto simp: tw_write_mmio_def bind_eq_Some_conv split: if_splits dest: tw_stage_keeps)

lemma tw_write_plain_keeps [writer_keeps]:
  "tw_write_plain sinks t ts a a2 tw s = Some (b, tw', s') \<Longrightarrow> sinks_keep sinks P \<Longrightarrow> P s \<Longrightarrow> P s'"
  by (auto simp: tw_write_plain_def bind_eq_Some_conv split: if_splits dest: tw_stage_keeps)

lemma tw_exec_keeps [writer_keeps]:
  "tw_exec sinks op tw s = Some (b, tw', s') \<Longrightarrow> sinks_keep sinks P \<Longrightarrow> P s \<Longrightarrow> P s'"
  by (cases op)
    (auto simp: tw_mmio_read_def tw_mmio_write_def tw_irq_enter_def tw_irq_enter_at_def
      split: if_splits dest: tw_write_mmio_keeps tw_write_plain_keeps)

lemma tw_finish_keeps [writer_keeps]:
  assumes f: "tw_finish sinks ts tw s = Some (b, tw', s')" and k: "sinks_keep sinks P" and s: "P s"
  shows "P s'"
proof (cases "\<not> tw_started tw \<or> tw_finished tw")
  case True
  then show ?thesis using f s by (auto simp: tw_finish_def)
next
  case False
  then obtain tw1 s1 tw2 s2 tw3 where
    1: "(if tw_ok tw then do { (_, tw1, s1) \<leftarrow> tw_write_plain sinks (ev_code EV_STOP) ts None None tw s;
        Some (tw1, s1) } else Some (tw, s)) = Some (tw1, s1)"
    and 2: "(if tw_ok tw1 then tw_flush_block sinks tw1 s1 else Some (tw1, s1)) = Some (tw2, s2)"
    and 3: "(if tw_ok tw2 then do { (_, tw3, s3) \<leftarrow> tw_emit sinks (put_u32_le 0) tw2 s2;
        Some (tw3, s3) } else Some (tw2, s2)) = Some (tw3, s')"
    using f unfolding tw_finish_def by (simp add: bind_eq_Some_conv) blast
  have "P s1" using 1 s tw_write_plain_keeps [OF _ k s]
    by (auto simp: bind_eq_Some_conv split: if_splits)
  then have "P s2" using 2 tw_flush_block_keeps [OF _ k] by (auto split: if_splits)
  then show ?thesis using 3 tw_emit_keeps [OF _ k] by (auto simp: bind_eq_Some_conv split: if_splits)
qed

lemma tw_begin_keeps [writer_keeps]:
  "tw_begin sinks k buf n b sd fl tw s = Some (r, tw', s') \<Longrightarrow> sinks_keep sinks P \<Longrightarrow> P s \<Longrightarrow> P s'"
  by (auto simp: tw_begin_def bind_eq_Some_conv Let_def split: if_splits dest: tw_emit_keeps)

context block_sink
begin

text \<open>One call on a writer in good order: it logs its event, and keeps what the sinks keep.\<close>

lemma exec_logged:
  assumes "tw_logged k lossy emitted sink_inv bs0 log hist cur tw s" "sinks_keep sinks P" "P s"
  shows "\<exists>b tw' s' hist' cur'. tw_exec sinks op tw s = Some (b, tw', s') \<and> tw_flags tw' = tw_flags tw \<and>
    P s' \<and> tw_logged k lossy emitted sink_inv bs0
      (log @ (case op_event (tw_flags tw) op of None \<Rightarrow> [] | Some e \<Rightarrow> [e])) hist' cur' tw' s'"
  using exec_all_logged [OF assms(1), of "[op]"] tw_exec_keeps [OF _ assms(2,3)]
  by (fastforce simp: bind_eq_Some_conv)

end

end
