(* ===== verification/Record_Replay.thy ===== *)
theory Record_Replay
  imports Session Sink_Frame
begin

text \<open>
  Replay follows a recording. Two machine states are kept side by side, one attached to the
  simulated part and recording, one attached to the recorded events; every piece of the shim
  and of the firmware is shown to take both one step on, consuming from the events exactly
  what it recorded. The pieces are composed the way the program composes them.
\<close>

section \<open>The two states\<close>

definition rx_vectors :: "handler option list" where
  "rx_vectors = (replicate 8 None)[1 := Some Isr_uart_rx]"

definition fw_ok :: "fw_state \<Rightarrow> bool" where
  "fw_ok st \<longleftrightarrow> length (st_ring st) = 16 \<and> unat (st_head st) < 16 \<and> unat (st_tail st) < 16"

definition wired :: "backend \<Rightarrow> mode \<Rightarrow> bool \<Rightarrow> bool \<Rightarrow> ('c, 'z) host \<Rightarrow> bool" where
  "wired ops m w h s \<longleftrightarrow> g_ops s = Some ops \<and> g_mode s = m \<and> g_writer s = w \<and>
     g_isr s = rx_vectors \<and> g_mask_depth s = 0 \<and> g_in_isr s = h \<and> g_divergence s = None \<and>
     fw_ok (g_state s)"

text \<open>
  A recording that holds \<^verbatim>\<open>log\<close>; \<^verbatim>\<open>w\<close> tells whether writes are recorded and \<^verbatim>\<open>h\<close> whether a
  handler is running.
\<close>

definition recording :: "sink_addr \<Rightarrow> bool \<Rightarrow> (('c, 'z) host \<Rightarrow> bytes) \<Rightarrow> (('c, 'z) host \<Rightarrow> bool) \<Rightarrow>
    bytes \<Rightarrow> bool \<Rightarrow> bool \<Rightarrow> event list \<Rightarrow> ('c, 'z) host \<Rightarrow> bool" where
  "recording k lossy emitted sink_inv bs0 w h log s \<longleftrightarrow>
     wired Ops_mcu MODE_RECORD True h s \<and> w = (tw_flags (the_writer s) AND kFlagRecordWrites \<noteq> 0) \<and>
     (\<forall>e \<in> set log. ev_ok e) \<and> (\<exists>hist cur. tw_logged k lossy emitted sink_inv bs0 log hist cur (the_writer s) s)"

text \<open>
  The pace of a recording. Some number \<^verbatim>\<open>n\<close> of accesses has been made, each costing three
  cycles; \<^verbatim>\<open>a\<close> bounds it, and the number of events, together with what is still owed to bytes
  that are pending in the firmware or still to come from the part: two accesses for the one,
  five events for the other, and \<^verbatim>\<open>k\<close> more of a handler's. As long as the
  cycle counter has not wrapped, time has not moved back. \<^verbatim>\<open>l\<close> bounds the pending count from
  below.
\<close>

definition paced :: "nat \<Rightarrow> nat \<Rightarrow> nat \<Rightarrow> event list \<Rightarrow> ('c, 'z) host \<Rightarrow> bool" where
  "paced k l a log s \<longleftrightarrow>
     (\<exists>n. mc_cycles (the_mcu s) = of_nat (3 * n) \<and>
        max n (length log) + 2 * unat (st_pending (g_state s)) + 5 * mc_budget (the_mcu s) + k \<le> a \<and>
        (3 * n < 2 ^ 64 \<longrightarrow> in_order 0 log = log \<and> unat (last_ts 0 log) \<le> 3 * n)) \<and>
     (a < 2 ^ 33 \<longrightarrow> l \<le> unat (st_pending (g_state s)))"

lemma paced_weaken: "paced k l a log s \<Longrightarrow> k' \<le> k + d \<Longrightarrow> l' \<le> l \<Longrightarrow> paced k' l' (a + d) log s"
  unfolding paced_def by (auto intro: order_trans)

lemma paced_same: "the_mcu s' = the_mcu s \<Longrightarrow> g_state s' = g_state s \<Longrightarrow> paced k l a log s' = paced k l a log s"
  by (simp add: paced_def)

text \<open>How an iteration moves the bound: by one, unless the bound is past any sensible run.\<close>

definition next_pace :: "nat \<Rightarrow> nat" where
  "next_pace a = (if a < 2 ^ 32 then a + 1 else 2 * a + 2 ^ 33)"

lemma next_pace_funpow: "a + n \<le> 2 ^ 32 \<Longrightarrow> (next_pace ^^ n) a = a + n"
  by (induction n) (auto simp: next_pace_def)

lemma paced_next: "paced 0 l (Suc a) log s \<Longrightarrow> paced 0 0 (next_pace a) log s"
  using paced_weaken [of 0 l "Suc a" log s 0 "next_pace a - Suc a" 0] by (simp add: next_pace_def split: if_splits)

lemma in_order_snoc:
  "in_order t log = log \<Longrightarrow> last_ts t log \<le> ev_ts e \<Longrightarrow> in_order t (log @ [e]) = log @ [e]"
  by (simp add: in_order_append)

lemma last_ts_snoc [simp]: "last_ts t (log @ [e]) = ev_ts e"
  by (induction t log rule: last_ts.induct) auto

lemma paced_access:
  assumes p: "paced (Suc k) l a log s"
    and m: "mc_cycles m = mc_cycles (the_mcu s) + 3" "mc_budget m \<le> mc_budget (the_mcu s)"
    and s': "the_mcu s' = m" "g_state s' = g_state s" and \<Delta>: "\<Delta> = [] \<or> (\<exists>e. \<Delta> = [e] \<and> ev_ts e = mc_cycles m)"
  shows "paced k l a (log @ \<Delta>) s'"
proof -
  obtain n where n: "mc_cycles (the_mcu s) = of_nat (3 * n)"
    "max n (length log) + 2 * unat (st_pending (g_state s)) + 5 * mc_budget (the_mcu s) + Suc k \<le> a"
    "3 * n < 2 ^ 64 \<longrightarrow> in_order 0 log = log \<and> unat (last_ts 0 log) \<le> 3 * n"
    "a < 2 ^ 33 \<longrightarrow> l \<le> unat (st_pending (g_state s))"
    using p by (auto simp: paced_def)
  have c: "mc_cycles m = of_nat (3 * Suc n)" using m(1) n(1) by simp
  have "in_order 0 (log @ \<Delta>) = log @ \<Delta> \<and> unat (last_ts 0 (log @ \<Delta>)) \<le> 3 * Suc n" if lt: "3 * Suc n < 2 ^ 64"
  proof -
    have u: "unat (mc_cycles m) = 3 * Suc n" unfolding c using lt by (subst unat_of_nat) simp
    have o: "in_order 0 log = log" "unat (last_ts 0 log) \<le> 3 * n" using n(3) lt by simp_all
    have "last_ts 0 log \<le> mc_cycles m" unfolding word_le_nat_alt u using o(2) by simp
    then show ?thesis using \<Delta> o u in_order_snoc [OF o(1)] by auto
  qed
  moreover have "length \<Delta> \<le> 1" using \<Delta> by auto
  ultimately show ?thesis
    unfolding paced_def using s' c n m by (intro conjI exI [of _ "Suc n"]) auto
qed

lemma paced_irq:
  assumes p: "paced 0 l a log s" and latched: "mc_irq_latched (the_mcu s)"
    and s': "the_mcu s' = (the_mcu s)\<lparr>mc_irq_latched := False\<rparr>" "g_state s' = g_state s"
    and e: "ev_ts e = mc_cycles (the_mcu s)"
  shows "paced 4 l a (log @ [e]) s'"
proof -
  have b: "mc_budget (the_mcu s) = Suc (mc_budget (the_mcu s'))" using latched s'(1) by (simp add: mc_budget_def)
  obtain n where n: "mc_cycles (the_mcu s) = of_nat (3 * n)"
    "max n (length log) + 2 * unat (st_pending (g_state s)) + 5 * mc_budget (the_mcu s) \<le> a"
    "3 * n < 2 ^ 64 \<longrightarrow> in_order 0 log = log \<and> unat (last_ts 0 log) \<le> 3 * n"
    "a < 2 ^ 33 \<longrightarrow> l \<le> unat (st_pending (g_state s))"
    using p by (auto simp: paced_def)
  have "in_order 0 (log @ [e]) = log @ [e] \<and> unat (ev_ts e) \<le> 3 * n" if lt: "3 * n < 2 ^ 64"
  proof -
    have u: "unat (ev_ts e) = 3 * n" unfolding e n(1) using lt by (subst unat_of_nat) simp
    have "last_ts 0 log \<le> ev_ts e" unfolding word_le_nat_alt u using n(3) lt by simp
    then show ?thesis using in_order_snoc [of 0 log e] n(3) lt u by simp
  qed
  then show ?thesis
    unfolding paced_def using s' n b by (intro conjI exI [of _ n]) auto
qed

lemma paced_store:
  assumes p: "paced j l a log s" "j = k + 2" and s': "the_mcu s' = the_mcu s" "st_pending (g_state s') = st_pending (g_state s) + 1"
  shows "paced k l a log s'"
proof -
  let ?p = "st_pending (g_state s)"
  have "unat (?p + 1) \<le> unat ?p + 1"
    by (simp add: unat_word_ariths)
  moreover have "l \<le> unat (?p + 1)" if "a < 2 ^ 33"
  proof -
    have "2 * unat ?p + 2 \<le> a" "l \<le> unat ?p" using p that by (auto simp: paced_def)
    then show ?thesis using that unat_add_no_wrap [of ?p 1] by simp
  qed
  ultimately show ?thesis using p s' by (auto simp: paced_def)
qed

text \<open>A replay in the same firmware state that has \<^verbatim>\<open>evs\<close> left of the events \<^verbatim>\<open>all\<close>.\<close>

definition following :: "event list \<Rightarrow> ('c, 'z) host \<Rightarrow> ('c, 'z) host \<Rightarrow> event list \<Rightarrow> bool" where
  "following all s t evs \<longleftrightarrow>
     wired Ops_replay MODE_REPLAY False (g_in_isr s) t \<and> g_state t = g_state s \<and>
     (let rp = the_replay t in rp_divergence rp = '''' \<and> rp_capture_fn rp = None \<and> rp_check_writes rp \<and>
        rp_events rp = all \<and> rp_cursor rp \<le> length all \<and> drop (rp_cursor rp) all = evs)"

fun calm :: "event list \<Rightarrow> bool" where
  "calm [] = True"
| "calm (e # es) = (\<not> is_irq e)"

lemma calm_append [simp]: "calm (es @ fs) = (if es = [] then calm fs else calm es)"
  by (cases es) auto

text \<open>
  A computation that the replay follows: it ends, it records some \<^verbatim>\<open>\<Delta>\<close> of the kind \<^verbatim>\<open>H\<close>, and
  if what comes after in the trace is of the kind \<^verbatim>\<open>P\<close>, the same code on the replay's side
  ends with the same value, in the same firmware state, having consumed exactly \<^verbatim>\<open>\<Delta>\<close>. \<^verbatim>\<open>R\<close> is
  the recording and \<^verbatim>\<open>val\<close> and \<^verbatim>\<open>st\<close> split an outcome into its value and its state.
\<close>

definition follows ::
  "(event list \<Rightarrow> bool) \<Rightarrow> ('r \<Rightarrow> 'v) \<Rightarrow> ('r \<Rightarrow> ('c, 'z) host) \<Rightarrow> (('c, 'z) host \<Rightarrow> 'r option) \<Rightarrow>
   ('c, 'z) host \<Rightarrow> event list \<Rightarrow> 'r \<Rightarrow> bool" where
  "follows P val st F s \<Delta> r \<longleftrightarrow>
     (\<forall>all t rest. following all s t (\<Delta> @ rest) \<longrightarrow> P rest \<longrightarrow>
        (\<exists>q. F t = Some q \<and> val q = val r \<and> following all (st r) (st q) rest))"

lemma followsD:
  "follows P val st F s \<Delta> r \<Longrightarrow> following all s t (\<Delta> @ rest) \<Longrightarrow> P rest \<Longrightarrow>
     \<exists>q. F t = Some q \<and> val q = val r \<and> following all (st r) (st q) rest"
  unfolding follows_def by blast

definition followed ::
  "(event list \<Rightarrow> ('c, 'z) host \<Rightarrow> bool) \<Rightarrow> (event list \<Rightarrow> ('c, 'z) host \<Rightarrow> bool) \<Rightarrow> bool \<Rightarrow>
   (event list \<Rightarrow> bool) \<Rightarrow> (event list \<Rightarrow> bool) \<Rightarrow>
   ('r \<Rightarrow> 'v) \<Rightarrow> ('r \<Rightarrow> ('c, 'z) host) \<Rightarrow> (('c, 'z) host \<Rightarrow> 'r option) \<Rightarrow> bool" where
  "followed R R' w P H val st F \<longleftrightarrow>
     (\<forall>log s. R log s \<longrightarrow> (\<exists>r \<Delta>. F s = Some r \<and> R' (log @ \<Delta>) (st r) \<and>
        mc_budget (the_mcu (st r)) \<le> mc_budget (the_mcu s) \<and> (w \<longrightarrow> H \<Delta> \<and> follows P val st F s \<Delta> r)))"

lemma followedI:
  assumes "\<And>log s. R log s \<Longrightarrow> \<exists>r \<Delta>. F s = Some r \<and> R' (log @ \<Delta>) (st r) \<and>
    mc_budget (the_mcu (st r)) \<le> mc_budget (the_mcu s) \<and> (w \<longrightarrow> H \<Delta> \<and> follows P val st F s \<Delta> r)"
  shows "followed R R' w P H val st F"
  using assms unfolding followed_def by blast

lemma followedE:
  assumes "followed R R' w P H val st F" "R log s"
  obtains r \<Delta> where "F s = Some r" "R' (log @ \<Delta>) (st r)" "mc_budget (the_mcu (st r)) \<le> mc_budget (the_mcu s)"
    "w \<Longrightarrow> H \<Delta>" "w \<Longrightarrow> follows P val st F s \<Delta> r"
  using assms unfolding followed_def by blast

lemma followed_conseq:
  assumes "followed R R' w P H val st F" "\<And>log s. Q log s \<Longrightarrow> R log s" "\<And>log s. R' log s \<Longrightarrow> Q' log s"
  shows "followed Q Q' w P H val st F"
  using assms unfolding followed_def by blast

lemma followed_bind:
  assumes F: "followed R R1 w Pf Hf valf stf F" and G: "\<And>v. followed R1 R' w P Hg val st (G v)"
    and G': "\<And>r. G' r = G (valf r) (stf r)"
    and Pf: "\<And>\<Delta> rest. Hg \<Delta> \<Longrightarrow> P rest \<Longrightarrow> Pf (\<Delta> @ rest)" and H: "\<And>\<Delta> \<Delta>'. Hf \<Delta> \<Longrightarrow> Hg \<Delta>' \<Longrightarrow> H (\<Delta> @ \<Delta>')"
  shows "followed R R' w P H val st (\<lambda>s. Option.bind (F s) G')"
proof (rule followedI)
  fix log s
  assume R: "R log s"
  obtain r1 \<Delta>1 where 1: "F s = Some r1" "R1 (log @ \<Delta>1) (stf r1)"
    "mc_budget (the_mcu (stf r1)) \<le> mc_budget (the_mcu s)" "w \<Longrightarrow> Hf \<Delta>1"
    "w \<Longrightarrow> follows Pf valf stf F s \<Delta>1 r1"
    using followedE [OF F R] by blast
  obtain r2 \<Delta>2 where 2: "G (valf r1) (stf r1) = Some r2" "R' ((log @ \<Delta>1) @ \<Delta>2) (st r2)"
    "mc_budget (the_mcu (st r2)) \<le> mc_budget (the_mcu (stf r1))" "w \<Longrightarrow> Hg \<Delta>2"
    "w \<Longrightarrow> follows P val st (G (valf r1)) (stf r1) \<Delta>2 r2"
    using followedE [OF G 1(2)] by blast
  have "follows P val st (\<lambda>s. Option.bind (F s) G') s (\<Delta>1 @ \<Delta>2) r2" if w
    unfolding follows_def
  proof (intro allI impI)
    fix all t rest
    assume t: "following all s t ((\<Delta>1 @ \<Delta>2) @ rest)" and P: "P rest"
    from followsD [OF 1(5) [OF that], of all t "\<Delta>2 @ rest"] t Pf [OF 2(4) [OF that] P]
    obtain q1 where q1: "F t = Some q1" "valf q1 = valf r1" "following all (stf r1) (stf q1) (\<Delta>2 @ rest)"
      by auto
    from followsD [OF 2(5) [OF that] q1(3) P] q1(1,2)
    show "\<exists>q. Option.bind (F t) G' = Some q \<and> val q = val r2 \<and> following all (st r2) (st q) rest"
      by (simp add: G')
  qed
  with 1 2 H show "\<exists>r \<Delta>. Option.bind (F s) G' = Some r \<and> R' (log @ \<Delta>) (st r) \<and>
      mc_budget (the_mcu (st r)) \<le> mc_budget (the_mcu s) \<and>
      (w \<longrightarrow> H \<Delta> \<and> follows P val st (\<lambda>s. Option.bind (F s) G') s \<Delta> r)"
    by (intro exI [of _ r2] exI [of _ "\<Delta>1 @ \<Delta>2"]) (simp add: G')
qed

lemma followed_bind_pair:
  assumes "followed R R1 w Pf Hf fst snd F" "\<And>v. followed R1 R' w P Hg val st (G v)"
    "\<And>\<Delta> rest. Hg \<Delta> \<Longrightarrow> P rest \<Longrightarrow> Pf (\<Delta> @ rest)" "\<And>\<Delta> \<Delta>'. Hf \<Delta> \<Longrightarrow> Hg \<Delta>' \<Longrightarrow> H (\<Delta> @ \<Delta>')"
  shows "followed R R' w P H val st (\<lambda>s. Option.bind (F s) (\<lambda>(v, s). G v s))"
  by (rule followed_bind [where valf = fst and stf = snd and G = G and Pf = Pf and Hf = Hf and Hg = Hg])
    (use assms in auto)

lemma followed_bind_state:
  assumes "followed R R1 w Pf Hf (\<lambda>_. ()) (\<lambda>s. s) F" "followed R1 R' w P Hg val st G"
    "\<And>\<Delta> rest. Hg \<Delta> \<Longrightarrow> P rest \<Longrightarrow> Pf (\<Delta> @ rest)" "\<And>\<Delta> \<Delta>'. Hf \<Delta> \<Longrightarrow> Hg \<Delta>' \<Longrightarrow> H (\<Delta> @ \<Delta>')"
  shows "followed R R' w P H val st (\<lambda>s. Option.bind (F s) G)"
  by (rule followed_bind [where G = "\<lambda>_. G" and valf = "\<lambda>_. ()" and stf = "\<lambda>s. s" and
        Pf = Pf and Hf = Hf and Hg = Hg]) (use assms in auto)

text \<open>Two kinds of step: in a handler anything may come next, in the main loop no interrupt.\<close>

abbreviation any_events :: "event list \<Rightarrow> bool" where
  "any_events \<equiv> (\<lambda>_. True)"

lemma followed_any:
  assumes "followed R R1 w any_events any_events fst snd F" "\<And>v. followed R1 R' w any_events any_events val st (G v)"
  shows "followed R R' w any_events any_events val st (\<lambda>s. Option.bind (F s) (\<lambda>(v, s). G v s))"
  by (rule followed_bind_pair [OF assms]) auto

lemma followed_calm:
  assumes "followed R R1 w calm calm fst snd F" "\<And>v. followed R1 R' w calm calm val st (G v)"
  shows "followed R R' w calm calm val st (\<lambda>s. Option.bind (F s) (\<lambda>(v, s). G v s))"
  by (rule followed_bind_pair [OF assms]) auto

lemma followed_calm_state:
  assumes "followed R R1 w calm calm (\<lambda>_. ()) (\<lambda>s. s) F" "followed R1 R' w calm calm val st G"
  shows "followed R R' w calm calm val st (\<lambda>s. Option.bind (F s) G)"
  by (rule followed_bind_state [OF assms]) auto

lemma followed_return:
  assumes "\<And>log s. R log s \<Longrightarrow> R' log (st (f s)) \<and> the_mcu (st (f s)) = the_mcu s" "H []"
    "\<And>log all s t evs. R log s \<Longrightarrow> following all s t evs \<Longrightarrow> val (f t) = val (f s) \<and> following all (st (f s)) (st (f t)) evs"
  shows "followed R R' w P H val st (\<lambda>s. Some (f s))"
proof (rule followedI)
  fix log s
  assume r: "R log s"
  have "follows P val st (\<lambda>s. Some (f s)) s [] (f s)"
    unfolding follows_def using assms(3) [OF r] by auto
  then show "\<exists>r \<Delta>. Some (f s) = Some r \<and> R' (log @ \<Delta>) (st r) \<and> mc_budget (the_mcu (st r)) \<le> mc_budget (the_mcu s) \<and>
      (w \<longrightarrow> H \<Delta> \<and> follows P val st (\<lambda>s. Some (f s)) s \<Delta> r)"
    using assms(1) [OF r] assms(2) by (intro exI [of _ "f s"] exI [of _ "[]"]) simp
qed

lemma followed_get:
  assumes "\<And>fw. followed (\<lambda>log s. R log s \<and> g_state s = fw) R' w P H val st (F fw)"
  shows "followed R R' w P H val st (\<lambda>s. F (g_state s) s)"
proof (rule followedI)
  fix log s
  assume r: "R log s"
  then obtain r \<Delta> where 1: "F (g_state s) s = Some r" "R' (log @ \<Delta>) (st r)"
    "mc_budget (the_mcu (st r)) \<le> mc_budget (the_mcu s)" "w \<Longrightarrow> H \<Delta>"
    "w \<Longrightarrow> follows P val st (F (g_state s)) s \<Delta> r"
    using followedE [OF assms [of "g_state s"], of log s] by blast
  have "g_state t = g_state s" if "following all s t evs" for all t evs
    using that by (simp add: following_def)
  then have "w \<Longrightarrow> follows P val st (\<lambda>s. F (g_state s) s) s \<Delta> r"
    using 1(5) unfolding follows_def by fastforce
  with 1 show "\<exists>r \<Delta>. F (g_state s) s = Some r \<and> R' (log @ \<Delta>) (st r) \<and>
      mc_budget (the_mcu (st r)) \<le> mc_budget (the_mcu s) \<and>
      (w \<longrightarrow> H \<Delta> \<and> follows P val st (\<lambda>s. F (g_state s) s) s \<Delta> r)"
    by blast
qed

lemma following_fw_upd:
  assumes "following all s t evs" "\<And>fw. fw_ok fw \<Longrightarrow> fw_ok (f fw)"
  shows "following all (fw_upd f s) (fw_upd f t) evs"
  using assms by (auto simp: following_def fw_upd_def wired_def Let_def)

section \<open>What the sinks leave alone\<close>

definition core :: "('c, 'z) host \<Rightarrow> ('c, 'z) host" where
  "core s = s\<lparr>the_writer := tw_new, sink_bytes := [], the_ring := rb_new\<rparr>"

definition outlet :: "('c, 'z) host \<Rightarrow> bytes \<times> ring_buffer \<times> bytes \<times> u32" where
  "outlet s = (sink_bytes s, the_ring s, link_received s, link_per_call s)"

lemma core_eq:
  assumes "core s = core s'"
  shows "g_ops s = g_ops s'" "g_mode s = g_mode s'" "g_writer s = g_writer s'" "g_isr s = g_isr s'"
    "g_mask_depth s = g_mask_depth s'" "g_in_isr s = g_in_isr s'" "g_divergence s = g_divergence s'"
    "g_state s = g_state s'" "the_mcu s = the_mcu s'" "the_replay s = the_replay s'"
    "link_per_call s = link_per_call s'" "rec_started s = rec_started s'"
  using assms [THEN arg_cong, of g_ops] assms [THEN arg_cong, of g_mode] assms [THEN arg_cong, of g_writer]
    assms [THEN arg_cong, of g_isr] assms [THEN arg_cong, of g_mask_depth] assms [THEN arg_cong, of g_in_isr]
    assms [THEN arg_cong, of g_divergence] assms [THEN arg_cong, of g_state] assms [THEN arg_cong, of the_mcu]
    assms [THEN arg_cong, of the_replay] assms [THEN arg_cong, of link_per_call] assms [THEN arg_cong, of rec_started]
  by (simp_all add: core_def)

lemma core_writer [simp]: "core (s\<lparr>the_writer := tw\<rparr>) = core s"
  by (simp add: core_def)

lemma host_sinks_core:
  "host_sinks k data s = Some (taken, s') \<Longrightarrow> g_mask_depth s = 0 \<Longrightarrow> core s' = core s"
  by (cases k; cases s) (auto simp: vector_sink_write_def rec_sink_def bind_eq_Some_conv hal_irq_disable_def
    hal_irq_enable_def core_def)

lemma host_sinks_keep: "g_mask_depth c = 0 \<Longrightarrow> sinks_keep host_sinks (\<lambda>s. core s = core c)"
  unfolding sinks_keep_def using host_sinks_core core_eq(5) by metis

lemma wired_core: "core s = core s' \<Longrightarrow> wired ops m w h s = wired ops m w h s'"
  unfolding wired_def by (frule core_eq(1), frule core_eq(2), frule core_eq(3), frule core_eq(4),
    frule core_eq(5), frule core_eq(6), frule core_eq(7), frule core_eq(8)) simp

lemma following_core: "core s = core s' \<Longrightarrow> following all s t evs = following all s' t evs"
  by (simp add: following_def core_eq(6) [of s s'] core_eq(8) [of s s'])

section \<open>Serving one event\<close>

lemma drop_eq_Cons: "drop n xs = x # ys \<Longrightarrow> n < length xs \<and> xs ! n = x \<and> drop (Suc n) xs = ys"
  by (metis Cons_nth_drop_Suc drop_eq_Nil2 leI list.distinct(1) list.inject)

lemma following_serve: "following all s t (e # rest) \<Longrightarrow> following all s (rp_serve e t) rest"
  using drop_eq_Cons [of "rp_cursor (the_replay t)" all e rest]
  by (auto simp: following_def rp_serve_def rp_upd_def wired_def Let_def)

lemma rp_serve_sel [simp]:
  "g_ops (rp_serve e t) = g_ops t" "g_mode (rp_serve e t) = g_mode t" "g_writer (rp_serve e t) = g_writer t"
  "g_isr (rp_serve e t) = g_isr t" "g_mask_depth (rp_serve e t) = g_mask_depth t"
  "g_in_isr (rp_serve e t) = g_in_isr t" "g_state (rp_serve e t) = g_state t"
  by (simp_all add: rp_serve_def rp_upd_def)

lemma following_wired: "following all s t evs \<Longrightarrow> wired Ops_replay MODE_REPLAY False (g_in_isr s) t"
  by (simp add: following_def)

lemma rp_maybe_capture_none: "rp_capture_fn (the_replay t) = None \<Longrightarrow> rp_maybe_capture caps t = Some t"
  by (simp add: rp_maybe_capture_def)

lemma following_head:
  assumes "following all s t (e # rest)"
  shows "rp_maybe_capture caps t = Some t" "\<not> length (rp_events (the_replay t)) \<le> rp_cursor (the_replay t)"
    "rp_events (the_replay t) ! rp_cursor (the_replay t) = e" "rp_check_writes (the_replay t)"
  using assms drop_eq_Cons [of "rp_cursor (the_replay t)" all e rest]
  by (auto simp: following_def rp_maybe_capture_none Let_def)

lemma rp_read32_following:
  "following all s t (mk_event EV_MMIO_READ ts addr v # rest) \<Longrightarrow>
     rp_read32 caps addr t = Some (v, rp_serve (mk_event EV_MMIO_READ ts addr v) t)"
  by (simp add: rp_read32_def following_head Let_def)

lemma rp_write32_following:
  "following all s t (mk_event EV_MMIO_WRITE ts addr v # rest) \<Longrightarrow>
     rp_write32 caps addr v t = Some (rp_serve (mk_event EV_MMIO_WRITE ts addr v) t)"
  by (simp add: rp_write32_def following_head Let_def)

lemma rp_poll_irq_following:
  "following all s t (e # rest) \<Longrightarrow> is_irq e \<Longrightarrow> rp_poll_irq caps t = Some (ev_addr e, rp_serve e t)"
  by (auto simp: rp_poll_irq_def following_head Let_def is_irq_def)

lemma rp_poll_irq_calm: "following all s t evs \<Longrightarrow> calm evs \<Longrightarrow> rp_poll_irq caps t = Some (kNoIrq, t)"
proof (cases evs)
  case Nil
  assume "following all s t evs"
  then show ?thesis
    by (auto simp: Nil rp_poll_irq_def following_def rp_maybe_capture_none Let_def)
next
  case (Cons e rest)
  assume "following all s t evs" "calm evs"
  then show ?thesis
    by (auto simp: Cons rp_poll_irq_def following_head Let_def is_irq_def)
qed

section \<open>An access and the interrupts after it\<close>

text \<open>The two halves of an access: the backend's part with its record, and the dispatch.\<close>

type_synonym ('c, 'z) host_linkage = "(backend, handler, sink_addr, ('c, 'z) host) linkage"

definition host_linked :: "('c, ('c, 'z) host) captures \<Rightarrow> ('c, 'z) host_linkage \<Rightarrow> bool" where
  "host_linked caps L \<longleftrightarrow> vtable L = host_vtable caps \<and> sink_code L = host_sinks"

text \<open>The whole program: handlers may use the shim, but no handler runs inside a handler.\<close>

definition two_level :: "('c, ('c, 'z) host) captures \<Rightarrow> ('c, 'z) host_linkage \<Rightarrow> bool" where
  "two_level caps L \<longleftrightarrow> host_linked caps L \<and> (\<exists>L0. isr_code L = fw_handlers L0 \<and> host_linked caps L0)"

definition access_read :: "('c, 'z) host_linkage \<Rightarrow> u32 \<Rightarrow> ('c, 'z) host \<Rightarrow> (u32 \<times> ('c, 'z) host) option" where
  "access_read L addr s =
     (case Option.bind (g_ops s) (\<lambda>ops. op_read32 (vtable L ops)) of
        None \<Rightarrow> Some (0, s)
      | Some read32 \<Rightarrow> do {
          (val, s1) \<leftarrow> read32 addr s;
          s2 \<leftarrow> (if g_mode s1 = MODE_RECORD \<and> g_writer s1 then do {
              (ts, s2) \<leftarrow> call_now L s1;
              (_, s2) \<leftarrow> call_writer (tw_mmio_read (sink_code L) ts addr val) s2;
              Some s2
            } else Some s1);
          Some (val, s2)
        })"

definition access_write :: "('c, 'z) host_linkage \<Rightarrow> u32 \<Rightarrow> u32 \<Rightarrow> ('c, 'z) host \<Rightarrow> ('c, 'z) host option" where
  "access_write L addr val s =
     (case Option.bind (g_ops s) (\<lambda>ops. op_write32 (vtable L ops)) of
        None \<Rightarrow> Some s
      | Some write32 \<Rightarrow> do {
          s1 \<leftarrow> write32 addr val s;
          if g_mode s1 = MODE_RECORD \<and> g_writer s1 then do {
            (ts, s2) \<leftarrow> call_now L s1;
            (_, s2) \<leftarrow> call_writer (tw_mmio_write (sink_code L) ts addr val) s2;
            Some s2
          } else Some s1
        })"

lemma host_vtable_total:
  "op_read32 (host_vtable caps ops) \<noteq> None" "op_write32 (host_vtable caps ops) \<noteq> None"
  by (cases ops; simp add: mcu_ops_def replay_ops_def)+

lemma mmio_read32_access:
  "host_linked caps L \<Longrightarrow> mmio_read32 L addr =
     (\<lambda>s. Option.bind (access_read L addr s) (\<lambda>(v, s). Option.bind (pump_irqs L s) (\<lambda>s. Some (v, s))))"
  by (rule ext, rename_tac s, case_tac "g_ops s")
    (auto simp: mmio_read32_def access_read_def pump_irqs_def host_linked_def host_vtable_total
      split: option.splits bind_splits)

lemma mmio_write32_access:
  "host_linked caps L \<Longrightarrow> mmio_write32 L addr val =
     (\<lambda>s. Option.bind (access_write L addr val s) (pump_irqs L))"
  by (rule ext, rename_tac s, case_tac "g_ops s")
    (auto simp: mmio_write32_def access_write_def pump_irqs_def host_linked_def host_vtable_total
      split: option.splits bind_splits)

lemma link_host_linked:
  "host_linked caps (link \<lparr>vtable = host_vtable caps, isr_code = f, sink_code = host_sinks\<rparr> hs d)"
  by (cases d) (simp_all add: host_linked_def)

lemma g_state_mask [simp]: "g_state (hal_irq_disable s) = g_state s" "g_state (hal_irq_enable s) = g_state s"
  by (simp_all add: hal_irq_disable_def hal_irq_enable_def)

lemma unmask_mask [simp]:
  "g_mask_depth s = 0 \<Longrightarrow> hal_irq_enable (hal_irq_disable s) = s"
  "g_mask_depth s = 0 \<Longrightarrow> hal_irq_enable (fw_upd f (hal_irq_disable s)) = fw_upd f s"
  by (cases s; simp add: hal_irq_enable_def hal_irq_disable_def fw_upd_def)+

lemma fw_pos_mod: "unat ((w :: u32) mod kRingSize) < 16"
  using word_mod_less_divisor [of kRingSize w] by (simp add: kRingSize_def word_less_nat_alt)

lemma run_rx_isr:
  "isr_code L = fw_handlers L0 \<Longrightarrow> g_isr u = rx_vectors \<Longrightarrow> hal_run_isr L kIrqUartRx u = isr_uart_rx L0 u"
  by (simp add: hal_run_isr_def rx_vectors_def kIrqUartRx_def kMaxIrqVectors_def)

section \<open>The firmware in pieces\<close>

text \<open>
  The same code, cut where it looks at its state, so that the two proofs about runs of it can
  take the pieces one by one.
\<close>

definition isr_store :: "u32 \<Rightarrow> fw_state \<Rightarrow> ('c, 'z) host \<Rightarrow> ('c, 'z) host option" where
  "isr_store dr fw s =
     (if (st_head fw + 1) mod kRingSize = st_tail fw
      then Some (fw_upd (\<lambda>st. st\<lparr>st_overflows := st_overflows st + 1\<rparr>) s)
      else do {
        ring \<leftarrow> wr (st_ring fw) (unat (st_head fw)) (ucast (dr AND 0xFF));
        Some (fw_upd (\<lambda>st. st\<lparr>st_ring := ring, st_head := (st_head fw + 1) mod kRingSize,
          st_pending := st_pending st + 1\<rparr>) s)
      })"

lemma isr_in_pieces:
  "isr_uart_rx L = (\<lambda>s. do { (sr, s) \<leftarrow> mmio_read32 L kUart0Sr s;
      if sr AND kSrRxne = 0 then Some s
      else do { (dr, s) \<leftarrow> mmio_read32 L kUart0Dr s; isr_store dr (g_state s) s } })"
  unfolding isr_uart_rx_def isr_store_def Let_def ..

definition take_byte :: "u8 \<Rightarrow> fw_state \<Rightarrow> fw_state" where
  "take_byte byte st = st\<lparr>st_tail := (st_tail st + 1) mod kRingSize,
     st_checksum := st_checksum st * 31 + ucast byte, st_consumed := st_consumed st + 1\<rparr>"

definition show_count :: "('c, 'z) host_linkage \<Rightarrow> u32 \<Rightarrow> ('c, 'z) host \<Rightarrow> ('c, 'z) host option" where
  "show_count L stamp s = (\<lambda>s. mmio_write32 L kGpio0Odr (st_consumed (g_state s)) s)
     (fw_upd (\<lambda>st. st\<lparr>st_last_stamp := stamp\<rparr>) s)"

lemma consume_in_pieces:
  "consume_one L = (\<lambda>s. do { byte \<leftarrow> rd (st_ring (g_state s)) (unat (st_tail (g_state s)));
      (\<lambda>s. do { (stamp, s) \<leftarrow> mmio_read32 L kSystickCnt s; show_count L stamp s }) (fw_upd (take_byte byte) s) })"
  unfolding consume_one_def take_byte_def [abs_def] show_count_def Let_def ..

definition iter_done :: "variant \<Rightarrow> u32 \<Rightarrow> ('c, 'z) host \<Rightarrow> ('c, 'z) host option" where
  "iter_done v n s = Some (if v = kFixed then
      hal_irq_enable (fw_upd (\<lambda>st. st\<lparr>st_pending := st_pending st - n\<rparr>) (hal_irq_disable s))
    else fw_upd (\<lambda>st. st\<lparr>st_pending := 0\<rparr>) s)"

definition iter_clear :: "variant \<Rightarrow> u32 \<Rightarrow> fw_state \<Rightarrow> fw_state" where
  "iter_clear v n st = st\<lparr>st_pending := (if v = kFixed then st_pending st - n else 0)\<rparr>"

lemma iter_done_unmasked: "g_mask_depth s = 0 \<Longrightarrow> iter_done v n s = Some (fw_upd (iter_clear v n) s)"
  by (simp add: iter_done_def iter_clear_def [abs_def])

definition iter_body :: "('c, 'z) host_linkage \<Rightarrow> variant \<Rightarrow> fw_state \<Rightarrow> ('c, 'z) host \<Rightarrow> ('c, 'z) host option" where
  "iter_body L v fw s =
     (if st_pending fw = 0 then do { (_, s) \<leftarrow> mmio_read32 L kSystickCnt s; Some s }
      else do { s \<leftarrow> consume_n L (unat (st_pending fw)) s; iter_done v (st_pending fw) s })"

lemma iter_in_pieces: "g_mask_depth s = 0 \<Longrightarrow> rx_pump_iter L v s = iter_body L v (g_state s) s"
  by (cases v) (simp_all add: rx_pump_iter_def iter_body_def iter_done_def [abs_def])

section \<open>Recording one event\<close>

text \<open>The host's two sinks, seen from the shim: what they emit is in the parts of the state they own.\<close>

locale host_recording = block_sink host_sinks k emitted sink_inv lossy
  for k :: sink_addr and emitted :: "('c, 'z) host \<Rightarrow> bytes" and sink_inv :: "('c, 'z) host \<Rightarrow> bool"
    and lossy :: bool +
  assumes emitted_out: "outlet s = outlet s' \<Longrightarrow> emitted s = emitted s'"
    and inv_out: "outlet s = outlet s' \<Longrightarrow> sink_inv s = sink_inv s'"
begin

lemma logged_out:
  "outlet s = outlet s' \<Longrightarrow> tw_logged k lossy emitted sink_inv bs0 log hist cur tw s =
     tw_logged k lossy emitted sink_inv bs0 log hist cur tw s'"
  using emitted_out [of s s'] inv_out [of s s'] by (simp add: tw_logged_def sink_at_def)

lemma recording_upd:
  assumes "recording k lossy emitted sink_inv bs0 w h log s" "wired Ops_mcu MODE_RECORD True h' s'"
    "outlet s' = outlet s" "the_writer s' = the_writer s"
  shows "recording k lossy emitted sink_inv bs0 w h' log s'"
  using assms logged_out [of s' s] by (auto simp: recording_def)

lemma recording_call:
  assumes r: "recording k lossy emitted sink_inv bs0 w h log s"
  shows "\<exists>b s'. call_writer (tw_exec host_sinks op) s = Some (b, s') \<and> core s' = core s \<and>
    recording k lossy emitted sink_inv bs0 w h
      (log @ (case op_event (tw_flags (the_writer s)) op of None \<Rightarrow> [] | Some e \<Rightarrow> [e])) s'"
proof -
  from r obtain hist cur where l: "tw_logged k lossy emitted sink_inv bs0 log hist cur (the_writer s) s"
    and wired: "wired Ops_mcu MODE_RECORD True h s"
    and w: "w = (tw_flags (the_writer s) AND kFlagRecordWrites \<noteq> 0)" "\<forall>e \<in> set log. ev_ok e"
    by (auto simp: recording_def)
  have keep: "sinks_keep host_sinks (\<lambda>s'. core s' = core s)"
    using wired by (intro host_sinks_keep) (simp add: wired_def)
  obtain b tw s1 hist' cur' where 1: "tw_exec host_sinks op (the_writer s) s = Some (b, tw, s1)"
    "tw_flags tw = tw_flags (the_writer s)" "core s1 = core s"
    "tw_logged k lossy emitted sink_inv bs0
      (log @ (case op_event (tw_flags (the_writer s)) op of None \<Rightarrow> [] | Some e \<Rightarrow> [e])) hist' cur' tw s1"
    using exec_logged [OF l keep refl, of op] by blast
  let ?s = "s1\<lparr>the_writer := tw\<rparr>"
  have "wired Ops_mcu MODE_RECORD True h ?s"
    using wired wired_core [of ?s s] 1(3) by simp
  moreover have "\<forall>e \<in> set (log @ (case op_event (tw_flags (the_writer s)) op of None \<Rightarrow> [] | Some e \<Rightarrow> [e])). ev_ok e"
    using w(2) op_event_ok by (auto split: option.split)
  moreover have "outlet ?s = outlet s1" by (simp add: outlet_def)
  ultimately have "recording k lossy emitted sink_inv bs0 w h
      (log @ (case op_event (tw_flags (the_writer s)) op of None \<Rightarrow> [] | Some e \<Rightarrow> [e])) ?s"
    using 1 w(1) logged_out [of ?s s1] by (auto simp: recording_def)
  then show ?thesis using 1 by (simp add: call_writer_def)
qed


lemma mcu_step:
  assumes r: "recording k lossy emitted sink_inv bs0 w h log s"
  shows "\<exists>b s'. call_writer (tw_exec host_sinks op) (s\<lparr>the_mcu := m\<rparr>) = Some (b, s') \<and> the_mcu s' = m \<and>
    g_in_isr s' = h \<and> g_state s' = g_state s \<and> g_isr s' = g_isr s \<and>
    recording k lossy emitted sink_inv bs0 w h
      (log @ (case op_event (tw_flags (the_writer s)) op of None \<Rightarrow> [] | Some e \<Rightarrow> [e])) s'"
proof -
  have "recording k lossy emitted sink_inv bs0 w h log (s\<lparr>the_mcu := m\<rparr>)"
    using r by (rule recording_upd) (use r in \<open>simp_all add: recording_def wired_def outlet_def\<close>)
  from recording_call [OF this, of op] obtain b s' where
    "call_writer (tw_exec host_sinks op) (s\<lparr>the_mcu := m\<rparr>) = Some (b, s')" "core s' = core (s\<lparr>the_mcu := m\<rparr>)"
    "recording k lossy emitted sink_inv bs0 w h
      (log @ (case op_event (tw_flags (the_writer s)) op of None \<Rightarrow> [] | Some e \<Rightarrow> [e])) s'"
    by auto
  then show ?thesis
    using core_eq(4,6,8,9) [of s' "s\<lparr>the_mcu := m\<rparr>"] r by (auto simp: recording_def wired_def)
qed

abbreviation rec_h where
  "rec_h bs0 w h j l a \<equiv> (\<lambda>log s. recording k lossy emitted sink_inv bs0 w h log s \<and> paced j l a log s)"

lemma access_read_followed:
  assumes L: "host_linked caps L"
  shows "followed (rec_h bs0 w h (Suc j) l a) (rec_h bs0 w h j l a) w (\<lambda>_. True) (\<lambda>\<Delta>. \<Delta> \<noteq> [] \<and> calm \<Delta>) fst snd
    (access_read L addr)"
proof (rule followedI)
  fix log s
  assume rp: "rec_h bs0 w h (Suc j) l a log s"
  then have r: "recording k lossy emitted sink_inv bs0 w h log s" by simp
  obtain v m where m: "mc_read32 addr (the_mcu s) = (v, m)" by fastforce
  let ?op = "Op_mmio_read (mc_cycles m) addr v" and ?e = "mk_event EV_MMIO_READ (mc_cycles m) addr v"
  obtain b s' where s': "call_writer (tw_exec host_sinks ?op) (s\<lparr>the_mcu := m\<rparr>) = Some (b, s')"
    "the_mcu s' = m" "g_in_isr s' = h" "g_state s' = g_state s"
    "recording k lossy emitted sink_inv bs0 w h (log @ [?e]) s'"
    using mcu_step [OF r, of ?op m] by auto
  have F: "access_read L addr s = Some (v, s')"
    using r L m s'(1)
    by (simp add: access_read_def recording_def wired_def host_linked_def mcu_ops_def call_now_def)
  have "follows (\<lambda>_. True) fst snd (access_read L addr) s [?e] (v, s')"
    unfolding follows_def
  proof (intro allI impI)
    fix all t rest
    assume t: "following all s t ([?e] @ rest)"
    have "following all s' (rp_serve ?e t) rest"
      using following_serve [of all s t ?e rest] t r s'(3,4) by (simp add: following_def recording_def wired_def)
    moreover have "access_read L addr t = Some (v, rp_serve ?e t)"
      using following_wired [OF t] L rp_read32_following [of all s t "mc_cycles m" addr v rest caps] t
      by (simp add: access_read_def host_linked_def replay_ops_def wired_def)
    ultimately show "\<exists>q. access_read L addr t = Some q \<and> fst q = fst (v, s') \<and> following all (snd (v, s')) (snd q) rest"
      by simp
  qed
  moreover have "paced j l a (log @ [?e]) s'"
    using rp mc_read32_pace [OF m] s'(2,4) by (intro paced_access [of j l a log s m]) auto
  ultimately show "\<exists>r \<Delta>. access_read L addr s = Some r \<and> rec_h bs0 w h j l a (log @ \<Delta>) (snd r) \<and>
      mc_budget (the_mcu (snd r)) \<le> mc_budget (the_mcu s) \<and>
      (w \<longrightarrow> (\<Delta> \<noteq> [] \<and> calm \<Delta>) \<and> follows (\<lambda>_. True) fst snd (access_read L addr) s \<Delta> r)"
    using F s'(2,5) mc_read32_pace [OF m]
    by (intro exI [of _ "(v, s')"] exI [of _ "[?e]"]) (simp add: is_irq_def)
qed

lemma access_write_followed:
  assumes L: "host_linked caps L"
  shows "followed (rec_h bs0 w h (Suc j) l a) (rec_h bs0 w h j l a) w (\<lambda>_. True) (\<lambda>\<Delta>. \<Delta> \<noteq> [] \<and> calm \<Delta>)
    (\<lambda>_. ()) (\<lambda>s. s) (access_write L addr v)"
proof (rule followedI)
  fix log s
  assume rp: "rec_h bs0 w h (Suc j) l a log s"
  then have r: "recording k lossy emitted sink_inv bs0 w h log s" by simp
  define m where "m = mc_write32 addr v (the_mcu s)"
  let ?op = "Op_mmio_write (mc_cycles m) addr v" and ?e = "mk_event EV_MMIO_WRITE (mc_cycles m) addr v"
  have w: "w = (tw_flags (the_writer s) AND kFlagRecordWrites \<noteq> 0)" using r by (simp add: recording_def)
  obtain b s' where s': "call_writer (tw_exec host_sinks ?op) (s\<lparr>the_mcu := m\<rparr>) = Some (b, s')"
    "the_mcu s' = m" "g_in_isr s' = h" "g_state s' = g_state s"
    "recording k lossy emitted sink_inv bs0 w h (log @ (if w then [?e] else [])) s'"
    using mcu_step [OF r, of ?op m] w by (auto split: if_splits)
  have F: "access_write L addr v s = Some s'"
    using r L s'(1)
    by (simp add: access_write_def recording_def wired_def host_linked_def mcu_ops_def call_now_def m_def)
  have "follows (\<lambda>_. True) (\<lambda>_. ()) (\<lambda>s. s) (access_write L addr v) s [?e] s'"
    unfolding follows_def
  proof (intro allI impI)
    fix all t rest
    assume t: "following all s t ([?e] @ rest)"
    have "following all s' (rp_serve ?e t) rest"
      using following_serve [of all s t ?e rest] t r s'(3,4) by (simp add: following_def recording_def wired_def)
    moreover have "access_write L addr v t = Some (rp_serve ?e t)"
      using following_wired [OF t] L rp_write32_following [of all s t "mc_cycles m" addr v rest caps] t
      by (simp add: access_write_def host_linked_def replay_ops_def wired_def)
    ultimately show "\<exists>q. access_write L addr v t = Some q \<and> () = () \<and> following all s' q rest"
      by simp
  qed
  moreover have "paced j l a (log @ (if w then [?e] else [])) s'"
    using rp mc_write32_pace [of addr v "the_mcu s"] s'(2,4)
    by (intro paced_access [of j l a log s m]) (auto simp: m_def)
  ultimately show "\<exists>r \<Delta>. access_write L addr v s = Some r \<and> rec_h bs0 w h j l a (log @ \<Delta>) r \<and>
      mc_budget (the_mcu r) \<le> mc_budget (the_mcu s) \<and>
      (w \<longrightarrow> (\<Delta> \<noteq> [] \<and> calm \<Delta>) \<and> follows (\<lambda>_. True) (\<lambda>_. ()) (\<lambda>s. s) (access_write L addr v) s \<Delta> r)"
    using F s'(2,5) mc_write32_pace [of addr v "the_mcu s"]
    by (intro exI [of _ s'] exI [of _ "if w then [?e] else []"]) (simp add: is_irq_def m_def)
qed

section \<open>The handler\<close>

lemma fw_upd_recording:
  assumes "\<And>fw. fw_ok fw \<Longrightarrow> fw_ok (f fw)" "recording k lossy emitted sink_inv bs0 w h log s"
  shows "recording k lossy emitted sink_inv bs0 w h log (fw_upd f s)"
  using recording_upd [OF assms(2), of h "fw_upd f s"] assms
  by (auto simp: fw_upd_def outlet_def recording_def wired_def)

lemma fw_upd_followed:
  assumes "\<And>fw. fw_ok fw \<Longrightarrow> fw_ok (f fw)" "H []"
    and "\<And>log s. R log s \<Longrightarrow> rec_h bs0 w h j l a log s"
    and "\<And>log s. R log s \<Longrightarrow> paced j' l' a' log (fw_upd f s)"
  shows "followed R (rec_h bs0 w h j' l' a') w P H (\<lambda>_. ()) (\<lambda>s. s) (\<lambda>s. Some (fw_upd f s))"
proof (rule followed_return)
  fix log s
  assume "R log s"
  with assms(3,4) fw_upd_recording [of f, OF assms(1)]
  show "rec_h bs0 w h j' l' a' log (fw_upd f s) \<and> the_mcu (fw_upd f s) = the_mcu s"
    by (auto simp: fw_upd_def)
qed (use assms(2) following_fw_upd [OF _ assms(1)] in auto)

text \<open>An update that leaves the pending count alone costs nothing.\<close>

lemma fw_upd_idle:
  assumes "\<And>fw. fw_ok fw \<Longrightarrow> fw_ok (f fw)" "H []" "\<And>fw. st_pending (f fw) = st_pending fw"
  shows "followed (rec_h bs0 w h j l a) (rec_h bs0 w h j l a) w P H (\<lambda>_. ()) (\<lambda>s. s) (\<lambda>s. Some (fw_upd f s))"
  by (rule fw_upd_followed [where j = j and l = l and a = a]) (use assms in \<open>auto simp: paced_def fw_upd_def\<close>)

lemma fw_upd_store:
  assumes "\<And>fw. st_pending (f fw) = st_pending fw + 1" "paced 2 l a log s"
  shows "paced 0 l a log (fw_upd f s)"
  using paced_store [of 2 l a log s 0 "fw_upd f s"] assms by (simp add: fw_upd_def)

lemma pump_in_handler:
  "followed (rec_h bs0 w True j l a) (rec_h bs0 w True j l a) w any_events any_events (\<lambda>_. ()) (\<lambda>s. s) (pump_irqs L)"
proof -
  have "followed (rec_h bs0 w True j l a) (rec_h bs0 w True j l a) w any_events any_events (\<lambda>_. ()) (\<lambda>s. s) (\<lambda>s. Some s)"
    by (rule followed_return) auto
  moreover have "pump_irqs L s = Some s" if "g_in_isr s" for s
    using that by (simp add: pump_irqs_def split: option.split)
  ultimately show ?thesis
    unfolding followed_def follows_def
    by (auto simp: recording_def following_def wired_def)
qed

lemma read_in_handler:
  assumes "host_linked caps L" "j' = Suc j"
  shows "followed (rec_h bs0 w True j' l a) (rec_h bs0 w True j l a) w any_events any_events fst snd (mmio_read32 L addr)"
  unfolding mmio_read32_access [OF assms(1)] assms(2)
  by (rule followed_bind_pair [OF access_read_followed [OF assms(1)]
        followed_bind_state [OF pump_in_handler followed_return]]) auto

lemma isr_followed:
  assumes L: "host_linked caps L"
  shows "followed (rec_h bs0 w True 4 l a) (rec_h bs0 w True 0 l a) w any_events any_events (\<lambda>_. ()) (\<lambda>s. s) (isr_uart_rx L)"
proof -
  have "followed (\<lambda>log s. rec_h bs0 w True 2 l a log s \<and> g_state s = fw) (rec_h bs0 w True 0 l a) w
      any_events any_events (\<lambda>_. ()) (\<lambda>s. s) (isr_store dr fw)" for dr fw
  proof (cases "fw_ok fw")
    case False
    then show ?thesis by (auto simp: followed_def recording_def wired_def)
  next
    case True
    show ?thesis
    proof (cases "(st_head fw + 1) mod kRingSize = st_tail fw")
      case full: True
      have "followed (rec_h bs0 w True 2 l a) (rec_h bs0 w True 2 l a) w any_events any_events (\<lambda>_. ()) (\<lambda>s. s) (isr_store dr fw)"
        unfolding isr_store_def using full by (simp, intro fw_upd_idle) (simp_all add: fw_ok_def)
      then show ?thesis
        by (rule followed_conseq) (auto intro: paced_weaken [where k = 2 and d = 0, simplified])
    next
      case False
      then show ?thesis unfolding isr_store_def
        using True by (simp add: wr_def fw_ok_def, intro fw_upd_followed [where j = 2 and l = l and a = a])
          (auto simp: fw_ok_def fw_pos_mod intro!: fw_upd_store)
    qed
  qed
  from followed_get [OF this]
  have tail: "followed (rec_h bs0 w True 2 l a) (rec_h bs0 w True 0 l a) w any_events any_events (\<lambda>_. ()) (\<lambda>s. s)
      (\<lambda>s. isr_store dr (g_state s) s)" for dr .
  have quiet: "followed (rec_h bs0 w True 3 l a) (rec_h bs0 w True 0 l a) w any_events any_events (\<lambda>_. ()) (\<lambda>s. s) (\<lambda>s. Some s)"
    by (rule followed_return) (auto intro: paced_weaken [where k = 3 and d = 0, simplified])
  have "followed (rec_h bs0 w True 3 l a) (rec_h bs0 w True 0 l a) w any_events any_events (\<lambda>_. ()) (\<lambda>s. s) (\<lambda>s.
      if sr AND kSrRxne = 0 then Some s
      else do { (dr, s) \<leftarrow> mmio_read32 L kUart0Dr s; isr_store dr (g_state s) s })" for sr
    using quiet followed_any [OF read_in_handler [OF L, of 3 2] tail]
    by (cases "sr AND kSrRxne = 0") simp_all
  then show ?thesis
    unfolding isr_in_pieces by (rule followed_any [OF read_in_handler [OF L, of 4 3], rotated]) simp
qed

section \<open>Dispatching interrupts\<close>


text \<open>
  The dispatch loop ends because every round uses up one of the interrupts the part can still
  raise. On the replay's side it serves the same interrupts, and stops where the recording did
  because no interrupt follows.
\<close>

lemma pump_idle:
  assumes L: "host_linked caps L" and r: "recording k lossy emitted sink_inv bs0 w True log s" and idle: "\<not> mc_irq_latched (the_mcu s)"
  shows "pump_loop L s = Some s" "follows calm (\<lambda>_. ()) (\<lambda>s. s) (pump_loop L) s [] s"
proof -
  show "pump_loop L s = Some s"
    using r L idle
    by (simp add: pump_loop.simps [of L s] host_linked_def mcu_ops_def mc_poll_irq_idle recording_def wired_def)
  show "follows calm (\<lambda>_. ()) (\<lambda>s. s) (pump_loop L) s [] s"
    unfolding follows_def
  proof (intro allI impI)
    fix all t rest
    assume t: "following all s t ([] @ rest)" "calm rest"
    have "g_ops t = Some Ops_replay" using following_wired [OF t(1)] by (simp add: wired_def)
    then have "pump_loop L t = Some t"
      using rp_poll_irq_calm [OF t(1), of caps] t(2) L
      by (simp add: pump_loop.simps [of L t] host_linked_def replay_ops_def)
    then show "\<exists>q. pump_loop L t = Some q \<and> () = () \<and> following all s q rest" using t by simp
  qed
qed

lemma pump_round:
  assumes L: "host_linked caps L" "isr_code L = fw_handlers L0" and L0: "host_linked caps L0"
    and rp: "rec_h bs0 w True 0 l a log s" and latched: "mc_irq_latched (the_mcu s)"
  shows "\<exists>s2 \<Delta>. pump_loop L s = pump_loop L s2 \<and> rec_h bs0 w True 0 l a (log @ \<Delta>) s2 \<and>
    mc_budget (the_mcu s2) < mc_budget (the_mcu s) \<and>
    (w \<longrightarrow> (\<forall>all t rest. following all s t (\<Delta> @ rest) \<longrightarrow>
      (\<exists>t2. pump_loop L t = pump_loop L t2 \<and> following all s2 t2 rest)))"
proof -
  have r: "recording k lossy emitted sink_inv bs0 w True log s" and wired: "wired Ops_mcu MODE_RECORD True True s"
    using rp by (simp_all add: recording_def)
  let ?m = "(the_mcu s)\<lparr>mc_irq_latched := False\<rparr>"
  let ?op = "Op_irq_enter (mc_cycles ?m) kIrqUartRx" and ?e = "mk_event EV_IRQ_ENTER (mc_cycles ?m) kIrqUartRx 0"
  obtain b s1 where s1: "call_writer (tw_exec host_sinks ?op) (s\<lparr>the_mcu := ?m\<rparr>) = Some (b, s1)"
    "the_mcu s1 = ?m" "g_in_isr s1 = True" "g_state s1 = g_state s" "g_isr s1 = rx_vectors"
    "recording k lossy emitted sink_inv bs0 w True (log @ [?e]) s1"
    using mcu_step [OF r, of ?op ?m] wired by (auto simp: wired_def)
  have "paced 4 l a (log @ [?e]) s1"
    using rp latched s1(2,4) by (intro paced_irq [of l a log s]) simp_all
  with s1(6) have rp1: "rec_h bs0 w True 4 l a (log @ [?e]) s1" by simp
  obtain s2 \<Delta>2 where s2: "isr_uart_rx L0 s1 = Some s2" "rec_h bs0 w True 0 l a ((log @ [?e]) @ \<Delta>2) s2"
    "mc_budget (the_mcu s2) \<le> mc_budget (the_mcu s1)"
    "w \<Longrightarrow> follows any_events (\<lambda>_. ()) (\<lambda>s. s) (isr_uart_rx L0) s1 \<Delta>2 s2"
    using followedE [OF isr_followed [OF L0] rp1] by blast
  have nokno: "kIrqUartRx \<noteq> kNoIrq" by (simp add: kIrqUartRx_def kNoIrq_def)
  have "pump_loop L s = pump_loop L s2"
    using wired L(1) s1(1) s2(1) run_rx_isr [OF L(2) s1(5)] nokno mc_poll_irq_latched(1) [OF latched]
    by (simp add: pump_loop.simps [of L s] host_linked_def mcu_ops_def call_now_def wired_def)
  moreover have "\<exists>t2. pump_loop L t = pump_loop L t2 \<and> following all s2 t2 rest"
    if w and t: "following all s t ((?e # \<Delta>2) @ rest)" for all t rest
  proof -
    let ?t = "rp_serve ?e t"
    have "following all s1 ?t (\<Delta>2 @ rest)"
      using following_serve [of all s t ?e "\<Delta>2 @ rest"] t wired s1(3,4)
      by (simp add: following_def wired_def)
    from followsD [OF s2(4) [OF that(1)] this] obtain t2 where t2: "isr_uart_rx L0 ?t = Some t2"
      "following all s2 t2 rest" by auto
    have "rp_poll_irq caps t = Some (kIrqUartRx, ?t)"
      using rp_poll_irq_following [of all s t ?e] t by (simp add: is_irq_def)
    then have "pump_loop L t = pump_loop L t2"
      using following_wired [OF t] L(1) nokno t2(1) run_rx_isr [OF L(2), of ?t]
      by (subst pump_loop.simps) (simp add: host_linked_def replay_ops_def wired_def)
    then show ?thesis using t2 by blast
  qed
  ultimately show ?thesis
    using s2(2,3) s1(2) mc_poll_irq_latched(2) [OF latched]
    by (intro exI [of _ s2] exI [of _ "?e # \<Delta>2"]) simp
qed

lemma pump_loop_followed:
  assumes L: "host_linked caps L" "isr_code L = fw_handlers L0" and L0: "host_linked caps L0"
  shows "followed (rec_h bs0 w True 0 l a) (rec_h bs0 w True 0 l a) w calm any_events (\<lambda>_. ()) (\<lambda>s. s) (pump_loop L)"
proof (rule followedI)
  fix log and s :: "('c, 'z) host"
  assume "rec_h bs0 w True 0 l a log s"
  then show "\<exists>r \<Delta>. pump_loop L s = Some r \<and> rec_h bs0 w True 0 l a (log @ \<Delta>) r \<and>
      mc_budget (the_mcu r) \<le> mc_budget (the_mcu s) \<and>
      (w \<longrightarrow> True \<and> follows calm (\<lambda>_. ()) (\<lambda>s. s) (pump_loop L) s \<Delta> r)"
  proof (induction "mc_budget (the_mcu s)" arbitrary: log s rule: less_induct)
    case less
    show ?case
    proof (cases "mc_irq_latched (the_mcu s)")
      case False
      then show ?thesis
        using pump_idle [OF L(1), of _ _ log s] less.prems by (intro exI [of _ s] exI [of _ "[]"]) auto
    next
      case True
      obtain s2 \<Delta>2 where s2: "pump_loop L s = pump_loop L s2" "rec_h bs0 w True 0 l a (log @ \<Delta>2) s2"
        "mc_budget (the_mcu s2) < mc_budget (the_mcu s)"
        "w \<longrightarrow> (\<forall>all t rest. following all s t (\<Delta>2 @ rest) \<longrightarrow>
          (\<exists>t2. pump_loop L t = pump_loop L t2 \<and> following all s2 t2 rest))"
        using pump_round [OF L L0 less.prems True] by blast
      from less.hyps [OF s2(3,2)] obtain s3 \<Delta>3 where s3: "pump_loop L s2 = Some s3"
        "rec_h bs0 w True 0 l a ((log @ \<Delta>2) @ \<Delta>3) s3" "mc_budget (the_mcu s3) \<le> mc_budget (the_mcu s2)"
        "w \<longrightarrow> follows calm (\<lambda>_. ()) (\<lambda>s. s) (pump_loop L) s2 \<Delta>3 s3"
        by blast
      have "follows calm (\<lambda>_. ()) (\<lambda>s. s) (pump_loop L) s (\<Delta>2 @ \<Delta>3) s3" if w
        unfolding follows_def
      proof (intro allI impI)
        fix all t rest
        assume t: "following all s t ((\<Delta>2 @ \<Delta>3) @ rest)" and calm: "calm rest"
        have "following all s t (\<Delta>2 @ (\<Delta>3 @ rest))" using t by simp
        with s2(4) that obtain t2 where t2: "pump_loop L t = pump_loop L t2" "following all s2 t2 (\<Delta>3 @ rest)"
          by blast
        have "follows calm (\<lambda>_. ()) (\<lambda>s. s) (pump_loop L) s2 \<Delta>3 s3" using s3(4) that by simp
        from followsD [OF this t2(2) calm] t2(1)
        show "\<exists>q. pump_loop L t = Some q \<and> () = () \<and> following all s3 q rest" by auto
      qed
      then show ?thesis
        using s2(1,3) s3 by (intro exI [of _ s3] exI [of _ "\<Delta>2 @ \<Delta>3"]) simp
    qed
  qed
qed

section \<open>The main loop\<close>

lemma pump_in_main:
  assumes L: "host_linked caps L" "isr_code L = fw_handlers L0" and L0: "host_linked caps L0"
  shows "followed (rec_h bs0 w False 0 l a) (rec_h bs0 w False 0 l a) w calm any_events (\<lambda>_. ()) (\<lambda>s. s) (pump_irqs L)"
proof (rule followedI)
  fix log and s :: "('c, 'z) host"
  assume rp: "rec_h bs0 w False 0 l a log s"
  then have r: "recording k lossy emitted sink_inv bs0 w False log s" by simp
  have pump: "pump_irqs L u = Option.bind (pump_loop L (u\<lparr>g_in_isr := True\<rparr>)) (\<lambda>u. Some (u\<lparr>g_in_isr := False\<rparr>))"
    if "wired ops m wr False u" for ops m wr and u :: "('c, 'z) host"
    using that L(1) by (cases ops) (simp_all add: pump_irqs_def wired_def host_linked_def mcu_ops_def replay_ops_def)
  have "rec_h bs0 w True 0 l a log (s\<lparr>g_in_isr := True\<rparr>)"
    using recording_upd [OF r, of True "s\<lparr>g_in_isr := True\<rparr>"] rp by (simp add: recording_def wired_def outlet_def paced_def)
  from followedE [OF pump_loop_followed [OF L L0] this] obtain s1 \<Delta> where
    s1: "pump_loop L (s\<lparr>g_in_isr := True\<rparr>) = Some s1" "rec_h bs0 w True 0 l a (log @ \<Delta>) s1"
    "mc_budget (the_mcu s1) \<le> mc_budget (the_mcu s)"
    "w \<Longrightarrow> follows calm (\<lambda>_. ()) (\<lambda>s. s) (pump_loop L) (s\<lparr>g_in_isr := True\<rparr>) \<Delta> s1"
    by (auto)
  let ?s = "s1\<lparr>g_in_isr := False\<rparr>"
  have "rec_h bs0 w False 0 l a (log @ \<Delta>) ?s"
    using recording_upd [OF conjunct1 [OF s1(2)], of False ?s] s1(2)
    by (simp add: recording_def wired_def outlet_def paced_def)
  moreover have "pump_irqs L s = Some ?s"
    using pump [of Ops_mcu MODE_RECORD True s] r s1(1) by (simp add: recording_def)
  moreover have "follows calm (\<lambda>_. ()) (\<lambda>s. s) (pump_irqs L) s \<Delta> ?s" if w
    unfolding follows_def
  proof (intro allI impI)
    fix all t rest
    assume t: "following all s t (\<Delta> @ rest)" and calm: "calm rest"
    have "following all (s\<lparr>g_in_isr := True\<rparr>) (t\<lparr>g_in_isr := True\<rparr>) (\<Delta> @ rest)"
      using t by (auto simp: following_def wired_def)
    from followsD [OF s1(4) [OF that] this calm] obtain t1 where t1:
      "pump_loop L (t\<lparr>g_in_isr := True\<rparr>) = Some t1" "following all s1 t1 rest" by auto
    have "following all ?s (t1\<lparr>g_in_isr := False\<rparr>) rest"
      using t1(2) by (auto simp: following_def wired_def)
    moreover have "wired Ops_replay MODE_REPLAY False False t"
      using following_wired [OF t] r by (simp add: recording_def wired_def)
    ultimately show "\<exists>q. pump_irqs L t = Some q \<and> () = () \<and> following all ?s q rest"
      using pump [of Ops_replay MODE_REPLAY False t] t1(1) by simp
  qed
  ultimately show "\<exists>r \<Delta>. pump_irqs L s = Some r \<and> rec_h bs0 w False 0 l a (log @ \<Delta>) r \<and>
      mc_budget (the_mcu r) \<le> mc_budget (the_mcu s) \<and>
      (w \<longrightarrow> True \<and> follows calm (\<lambda>_. ()) (\<lambda>s. s) (pump_irqs L) s \<Delta> r)"
    using s1(3) by (intro exI [of _ ?s] exI [of _ \<Delta>]) simp
qed

text \<open>An access from the main loop adds one to the bound.\<close>

lemma pay: "rec_h bs0 w h 0 l a log s \<Longrightarrow> rec_h bs0 w h (Suc 0) l (a + 1) log s"
  using paced_weaken [of 0 l a log s "Suc 0" 1 l] by simp

lemma main_access:
  assumes "two_level caps L"
  shows "followed (rec_h bs0 w False 0 l a) (rec_h bs0 w False 0 l (a + 1)) w calm calm fst snd (mmio_read32 L addr)"
    and "followed (rec_h bs0 w False 0 l a) (rec_h bs0 w False 0 l (a + 1)) w calm calm (\<lambda>_. ()) (\<lambda>s. s) (mmio_write32 L addr v)"
proof -
  obtain L0 where L: "host_linked caps L" "isr_code L = fw_handlers L0" "host_linked caps L0"
    using assms by (auto simp: two_level_def)
  note pump = pump_in_main [OF L]
  have "followed (rec_h bs0 w False 0 l (a + 1)) (rec_h bs0 w False 0 l (a + 1)) w calm any_events fst snd
      (\<lambda>s. Option.bind (pump_irqs L s) (\<lambda>s. Some (x, s)))" for x :: u32
    by (rule followed_bind_state [OF pump followed_return, where Hg = "\<lambda>\<Delta>. \<Delta> = []"]) auto
  then have "followed (rec_h bs0 w False (Suc 0) l (a + 1)) (rec_h bs0 w False 0 l (a + 1)) w calm calm fst snd (mmio_read32 L addr)"
    unfolding mmio_read32_access [OF L(1)]
    by (rule followed_bind_pair [OF access_read_followed [OF L(1)]]) auto
  then show "followed (rec_h bs0 w False 0 l a) (rec_h bs0 w False 0 l (a + 1)) w calm calm fst snd (mmio_read32 L addr)"
    by (rule followed_conseq) (use pay in auto)
  have "followed (rec_h bs0 w False (Suc 0) l (a + 1)) (rec_h bs0 w False 0 l (a + 1)) w calm calm (\<lambda>_. ()) (\<lambda>s. s) (mmio_write32 L addr v)"
    unfolding mmio_write32_access [OF L(1)]
    by (rule followed_bind_state [OF access_write_followed [OF L(1)] pump]) auto
  then show "followed (rec_h bs0 w False 0 l a) (rec_h bs0 w False 0 l (a + 1)) w calm calm (\<lambda>_. ()) (\<lambda>s. s) (mmio_write32 L addr v)"
    by (rule followed_conseq) (use pay in auto)
qed

lemma followed_unmasked:
  assumes "\<And>s. g_mask_depth s = 0 \<Longrightarrow> F s = F' s" "followed R R' w P H val st F'"
    and R: "\<And>log s. R log s \<Longrightarrow> rec_h bs0 w h j l a log s"
  shows "followed R R' w P H val st F"
proof (rule followedI)
  fix log s
  assume rs: "R log s"
  have s: "F s = F' s" using assms(1) R [OF rs] by (simp add: recording_def wired_def)
  have t: "F t = F' t" if "following all s t evs" for all t evs
    using assms(1) following_wired [OF that] by (simp add: wired_def)
  obtain r \<Delta> where 1: "F' s = Some r" "R' (log @ \<Delta>) (st r)"
    "mc_budget (the_mcu (st r)) \<le> mc_budget (the_mcu s)" "w \<Longrightarrow> H \<Delta>" "w \<Longrightarrow> follows P val st F' s \<Delta> r"
    using followedE [OF assms(2) rs] by blast
  have "w \<Longrightarrow> follows P val st F s \<Delta> r"
    using 1(5) t unfolding follows_def by fastforce
  with 1 s show "\<exists>r \<Delta>. F s = Some r \<and> R' (log @ \<Delta>) (st r) \<and>
      mc_budget (the_mcu (st r)) \<le> mc_budget (the_mcu s) \<and> (w \<longrightarrow> H \<Delta> \<and> follows P val st F s \<Delta> r)"
    by (intro exI [of _ r] exI [of _ \<Delta>]) simp
qed

lemma followed_after_upd:
  assumes "\<And>fw. fw_ok fw \<Longrightarrow> fw_ok (f fw)" "\<And>fw. st_pending (f fw) = st_pending fw"
    and "followed (rec_h bs0 w h j l a) R' w calm calm val st G"
  shows "followed (rec_h bs0 w h j l a) R' w calm calm val st (\<lambda>s. G (fw_upd f s))"
  using followed_calm_state [OF fw_upd_idle [of f calm] assms(3)] assms(1,2) by simp

lemma skip_followed: "followed (rec_h bs0 w h j l a) (rec_h bs0 w h j l a) w calm calm (\<lambda>_. ()) (\<lambda>s. s) (\<lambda>s. Some s)"
  by (rule followed_return) auto

lemma consume_one_followed:
  assumes L: "two_level caps L"
  shows "followed (rec_h bs0 w False 0 l a) (rec_h bs0 w False 0 l (a + 2)) w calm calm (\<lambda>_. ()) (\<lambda>s. s) (consume_one L)"
proof -
  let ?post = "\<lambda>fw s. mmio_write32 L kGpio0Odr (st_consumed fw) s"
  let ?read = "\<lambda>s. do { (stamp, s) \<leftarrow> mmio_read32 L kSystickCnt s; show_count L stamp s }"
  let ?head = "\<lambda>fw s. do { byte \<leftarrow> rd (st_ring fw) (unat (st_tail fw)); ?read (fw_upd (take_byte byte) s) }"
  let ?R = "rec_h bs0 w False 0 l"
  have "followed (\<lambda>log s. ?R (a + 1) log s \<and> g_state s = fw) (?R (a + 1 + 1)) w calm calm (\<lambda>_. ()) (\<lambda>s. s) (?post fw)" for fw
    by (rule followed_conseq [OF main_access(2) [OF L]]) auto
  from followed_get [where F = ?post, OF this]
  have "followed (?R (a + 1)) (?R (a + 2)) w calm calm (\<lambda>_. ()) (\<lambda>s. s) (\<lambda>s. ?post (g_state s) s)" by simp
  then have "followed (?R (a + 1)) (?R (a + 2)) w calm calm (\<lambda>_. ()) (\<lambda>s. s) (show_count L stamp)" for stamp
    unfolding show_count_def by (intro followed_after_upd [where G = "\<lambda>s. ?post (g_state s) s"]) (simp_all add: fw_ok_def)
  from followed_calm [OF main_access(1) [OF L] this]
  have read: "followed (?R a) (?R (a + 2)) w calm calm (\<lambda>_. ()) (\<lambda>s. s) ?read" .
  have "followed (\<lambda>log s. ?R a log s \<and> g_state s = fw) (?R (a + 2)) w calm calm (\<lambda>_. ()) (\<lambda>s. s) (?head fw)" for fw
  proof (cases "fw_ok fw")
    case False
    then show ?thesis by (auto simp: followed_def recording_def wired_def)
  next
    case True
    then have eq: "?head fw = (\<lambda>s. ?read (fw_upd (take_byte (st_ring fw ! unat (st_tail fw))) s))"
      by (intro ext) (simp add: fw_ok_def)
    have f: "followed (?R a) (?R (a + 2)) w calm calm (\<lambda>_. ()) (\<lambda>s. s)
        (\<lambda>s. ?read (fw_upd (take_byte (st_ring fw ! unat (st_tail fw))) s))"
      by (rule followed_after_upd [OF _ _ read]) (simp_all add: fw_ok_def take_byte_def fw_pos_mod)
    show ?thesis unfolding eq by (rule followed_conseq [OF f]) auto
  qed
  from followed_get [where F = ?head, OF this]
  show ?thesis unfolding consume_in_pieces .
qed

lemma consume_n_followed:
  assumes L: "two_level caps L"
  shows "followed (rec_h bs0 w False 0 l a) (rec_h bs0 w False 0 l (a + 2 * n)) w calm calm (\<lambda>_. ()) (\<lambda>s. s) (consume_n L n)"
proof (induction n arbitrary: a)
  case 0
  have "consume_n L 0 = (\<lambda>s. Some s)" by (rule ext) simp
  then show ?case using skip_followed by simp
next
  case (Suc n)
  have "consume_n L (Suc n) = (\<lambda>s. Option.bind (consume_one L s) (consume_n L n))" by (rule ext) simp
  then show ?case using followed_calm_state [OF consume_one_followed [OF L] Suc.IH [of "a + 2"]] by simp
qed

lemma paced_clear:
  assumes p: "paced 0 (unat n) (a + 2 * unat n) log s" and n: "2 * unat n \<le> a"
    and f: "\<And>st. st_pending (f st) = (if v = kFixed then st_pending st - n else 0)"
  shows "paced 0 0 (next_pace a) log (fw_upd f s)"
proof -
  let ?p = "st_pending (g_state s)" and ?p' = "st_pending (f (g_state s))"
  have "unat ?p' < 2 ^ 32" using unat_u32_lt [of ?p'] by simp
  moreover have "unat ?p' + unat n \<le> unat ?p" if "a < 2 ^ 32"
  proof -
    have "n \<le> ?p" using p n that by (simp add: paced_def word_le_nat_alt)
    then show ?thesis using f [of "g_state s"] unat_sub [of n ?p] by (simp add: word_le_nat_alt)
  qed
  ultimately show ?thesis using p n by (auto simp: paced_def fw_upd_def next_pace_def)
qed

lemma rx_pump_iter_followed:
  assumes L: "two_level caps L"
  shows "followed (rec_h bs0 w False 0 0 a) (rec_h bs0 w False 0 0 (next_pace a)) w calm calm (\<lambda>_. ()) (\<lambda>s. s)
    (rx_pump_iter L v)"
proof -
  let ?R = "rec_h bs0 w False 0"
  have fin: "followed (?R (unat n) (a + 2 * unat n)) (?R 0 (next_pace a)) w calm calm (\<lambda>_. ()) (\<lambda>s. s) (iter_done v n)"
    if "2 * unat n \<le> a" for n
    by (rule followed_unmasked [where F' = "\<lambda>s. Some (fw_upd (iter_clear v n) s)"],
        simp add: iter_done_unmasked, rule fw_upd_followed [where j = 0 and l = "unat n" and a = "a + 2 * unat n"])
      (auto simp: fw_ok_def iter_clear_def intro: paced_clear [OF _ that, of _ _ _ v])
  have "followed (\<lambda>log s. ?R 0 a log s \<and> g_state s = fw) (?R 0 (next_pace a)) w calm calm (\<lambda>_. ()) (\<lambda>s. s) (iter_body L v fw)" for fw
  proof (cases "st_pending fw = 0")
    case True
    have "followed (?R 0 a) (?R 0 (a + 1)) w calm calm (\<lambda>_. ()) (\<lambda>s. s) (iter_body L v fw)"
      using followed_calm [OF main_access(1) [OF L] skip_followed] True by (simp add: iter_body_def [abs_def])
    then show ?thesis by (rule followed_conseq) (auto intro: paced_next)
  next
    case False
    show ?thesis
    proof (cases "2 * unat (st_pending fw) \<le> a")
      case True
      have "followed (?R (unat (st_pending fw)) a) (?R 0 (next_pace a)) w calm calm (\<lambda>_. ()) (\<lambda>s. s) (iter_body L v fw)"
        using followed_calm_state [OF consume_n_followed [OF L] fin [OF True]] False by (simp add: iter_body_def [abs_def])
      then show ?thesis by (rule followed_conseq) (auto simp: paced_def)
    qed (auto simp: followed_def paced_def)
  qed
  from followed_get [where F = "iter_body L v", OF this]
  have "followed (?R 0 a) (?R 0 (next_pace a)) w calm calm (\<lambda>_. ()) (\<lambda>s. s) (\<lambda>s. iter_body L v (g_state s) s)" .
  then show ?thesis
    by (rule followed_unmasked [rotated]) (simp_all add: iter_in_pieces)
qed

lemma rx_pump_loop_followed:
  assumes L: "two_level caps L"
  shows "followed (rec_h bs0 w False 0 0 a) (rec_h bs0 w False 0 0 ((next_pace ^^ n) a)) w calm calm
    (\<lambda>_. ()) (\<lambda>s. s) (rx_pump_loop L v n)"
proof (induction n arbitrary: a)
  case 0
  have "rx_pump_loop L v 0 = (\<lambda>s. Some s)" by (rule ext) simp
  then show ?case using skip_followed by simp
next
  case (Suc n)
  have "rx_pump_loop L v (Suc n) = (\<lambda>s. Option.bind (rx_pump_iter L v s) (rx_pump_loop L v n))"
    by (rule ext) simp
  then show ?case
    using followed_calm_state [OF rx_pump_iter_followed [OF L] Suc.IH] by (simp add: funpow_swap1)
qed

end

end
