(* ===== verification/Faithful_Replay.thy ===== *)
theory Faithful_Replay
  imports Record_Replay
begin

text \<open>
  Whole runs: recording with the vector sink or through the ring and the link, and replaying
  what was recorded.
\<close>

section \<open>Starting and ending a recording\<close>

lemma start_firmware_Some:
  "start_firmware ops s = Some (s\<lparr>g_ops := Some ops, g_writer := False, g_mode := MODE_OFF,
     g_mask_depth := 0, g_in_isr := False, g_divergence := None, g_isr := rx_vectors,
     g_state := rx_pump_empty\<rparr>)"
  by (simp add: start_firmware_def hal_reset_def rx_pump_reset_def rx_pump_install_def hal_set_isr_def
      kIrqUartRx_def kMaxIrqVectors_def wr_def hal_attach_def rx_vectors_def)

lemma rx_pump_empty_ok: "fw_ok rx_pump_empty"
  by (simp add: fw_ok_def rx_pump_empty_def kRingSize_def)

lemma two_level_host_program: "two_level caps (host_program caps)"
proof -
  let ?L = "link \<lparr>vtable = host_vtable caps, isr_code = \<lambda>i s. None, sink_code = host_sinks\<rparr> fw_handlers"
  have "isr_code (?L 1) = fw_handlers (?L 0)" by simp
  moreover have "host_linked caps (?L d)" for d by (rule link_host_linked)
  ultimately show ?thesis unfolding two_level_def host_program_def by blast
qed

lemma call_writer_core:
  assumes "call_writer f s = Some (b, s')" "g_mask_depth s = 0"
    "\<And>tw' s''. f (the_writer s) s = Some (b, tw', s'') \<Longrightarrow> core s'' = core s"
  shows "core s' = core s"
  using assms by (auto simp: call_writer_def bind_eq_Some_conv)

context host_recording
begin

text \<open>A recording that has begun: the header is out, or the sink refused it.\<close>

lemma begin_recording:
  assumes s: "wired Ops_mcu MODE_OFF False False s" "the_writer s = tw_new" "sink_inv s"
    and cap: "kMinBlockBuffer \<le> cap" "unat cap < 4294967277" "unat cap \<le> length buf"
  shows "\<exists>b s'. call_writer (tw_begin host_sinks (Some k) (Some buf) cap build_id seed flags) s = Some (b, s') \<and>
    core s' = core s \<and> (b \<or> lossy) \<and>
    (b \<longrightarrow> recording k lossy emitted sink_inv (emitted s @ header_bytes build_id seed flags)
      (flags AND kFlagRecordWrites \<noteq> 0) False [] (hal_mode_record True s'))"
proof -
  obtain taken tw s1 where 1: "tw_begin host_sinks (Some k) (Some buf) cap build_id seed flags tw_new s = Some (taken, tw, s1)"
    "taken \<or> lossy"
    "if taken then tw_flags tw = flags \<and>
       tw_logged k lossy emitted sink_inv (emitted s @ header_bytes build_id seed flags) [] [] [] tw s1
     else \<not> tw_ok tw \<and> sink_at emitted sink_inv (emitted s) s1"
    using begin_logged [OF s(3) cap] by blast
  let ?s = "s1\<lparr>the_writer := tw\<rparr>"
  have core: "core s1 = core s"
    by (rule tw_begin_keeps [OF 1(1) host_sinks_keep refl]) (use s in \<open>simp add: wired_def\<close>)
  have "wired Ops_mcu MODE_OFF False False s1" using s(1) wired_core [OF core] by simp
  then have "wired Ops_mcu MODE_RECORD True False (hal_mode_record True ?s)"
    by (simp add: wired_def hal_mode_record_def)
  then have "recording k lossy emitted sink_inv (emitted s @ header_bytes build_id seed flags)
      (flags AND kFlagRecordWrites \<noteq> 0) False [] (hal_mode_record True ?s)" if taken
    using that 1(3) logged_out [of "hal_mode_record True ?s" s1]
    by (auto simp: recording_def hal_mode_record_def outlet_def)
  moreover have "call_writer (tw_begin host_sinks (Some k) (Some buf) cap build_id seed flags) s = Some (taken, ?s)"
    using s(2) 1(1) by (simp add: call_writer_def)
  ultimately show ?thesis using 1(2) core by auto
qed

lemma finish_recording:
  assumes r: "recording k lossy emitted sink_inv bs0 w False log s"
  shows "\<exists>b s' hist cur. call_writer (tw_finish host_sinks ts) s = Some (b, s') \<and> core s' = core s \<and>
    tw_closed k lossy emitted sink_inv bs0 (log @ [stop_event ts]) b hist cur (the_writer s') s'"
proof -
  obtain hist cur where l: "tw_logged k lossy emitted sink_inv bs0 log hist cur (the_writer s) s"
    using r by (auto simp: recording_def)
  from finish_logged [OF l, of ts] obtain b tw s1 hist' cur' where
    1: "tw_finish host_sinks ts (the_writer s) s = Some (b, tw, s1)"
    "tw_closed k lossy emitted sink_inv bs0 (log @ [stop_event ts]) b hist' cur' tw s1" by blast
  have "core s1 = core s"
    by (rule tw_finish_keeps [OF 1(1) host_sinks_keep refl]) (use r in \<open>simp add: recording_def wired_def\<close>)
  moreover have "tw_closed k lossy emitted sink_inv bs0 (log @ [stop_event ts]) b hist' cur' tw (s1\<lparr>the_writer := tw\<rparr>)"
    using 1(2) emitted_out [of "s1\<lparr>the_writer := tw\<rparr>" s1] inv_out [of "s1\<lparr>the_writer := tw\<rparr>" s1]
    by (auto simp: tw_closed_def sink_at_def outlet_def split: if_splits)
  ultimately show ?thesis using 1(1) by (auto simp: call_writer_def)
qed

end

section \<open>The two ways the host records\<close>

interpretation vector_recording: host_recording VectorSink_write sink_bytes "\<lambda>_. True" False
  by unfold_locales (auto simp: outlet_def)

definition link_inv :: "u32 \<Rightarrow> ('c, 'z) host \<Rightarrow> bool" where
  "link_inv n s \<longleftrightarrow> rb_ready (the_ring s) \<and> link_per_call s = n"

interpretation link_recording: host_recording Recorder_sink
  "\<lambda>s. link_received s @ rb_contents (the_ring s)" "link_inv n" True for n
proof unfold_locales
  fix s :: "('c, 'z) host" and data :: bytes
  assume "link_inv n s" "length data < 4294967296"
  moreover obtain taken s' where "host_sinks Recorder_sink data s = Some (taken, s')" "rb_ready (the_ring s')"
    "link_received s' @ rb_contents (the_ring s') = (link_received s @ rb_contents (the_ring s)) @ (if taken then data else [])"
    using host_link.sink_law [of s data] calculation by (auto simp: link_inv_def)
  moreover have "link_per_call s' = link_per_call s"
    using calculation(3) by (auto simp: rec_sink_def bind_eq_Some_conv hal_irq_disable_def hal_irq_enable_def Let_def)
  ultimately show "\<exists>taken s'. host_sinks Recorder_sink data s = Some (taken, s') \<and> (taken \<or> True) \<and> link_inv n s' \<and>
      link_received s' @ rb_contents (the_ring s') = (link_received s @ rb_contents (the_ring s)) @ (if taken then data else [])"
    by (auto simp: link_inv_def)
qed (auto simp: outlet_def link_inv_def)

section \<open>Recording into memory\<close>

text \<open>
  What \<^verbatim>\<open>record_run\<close> does: the firmware runs from the empty state, some \<^verbatim>\<open>\<Delta>\<close> is recorded,
  the writer is finished at the time of the part's clock, and the result is read off.
\<close>

definition recorded_run :: "('c, ('c, 'z) host) captures \<Rightarrow> run_config \<Rightarrow> ('c, 'z) host \<Rightarrow>
    ('c, 'z) host \<Rightarrow> event list \<Rightarrow> bool" where
  "recorded_run caps cfg s0 s1 \<Delta> \<longleftrightarrow>
     wired Ops_mcu MODE_RECORD True False s0 \<and> g_state s0 = rx_pump_empty \<and>
     (cfg_flags cfg AND kFlagRecordWrites \<noteq> 0 \<longrightarrow> calm \<Delta> \<and>
       follows calm (\<lambda>_. ()) (\<lambda>s. s)
         (rx_pump_run (host_program caps) (cfg_variant cfg) (cfg_main_iters cfg)) s0 \<Delta> s1)"

lemma sink_code_host_program [simp]: "sink_code (host_program caps) = host_sinks"
  using two_level_host_program [of caps] by (simp add: two_level_def host_linked_def)

lemma vtable_host_program [simp]: "vtable (host_program caps) = host_vtable caps"
  using two_level_host_program [of caps] by (simp add: two_level_def host_linked_def)

lemma hal_now_mcu:
  "wired Ops_mcu m w h s \<Longrightarrow> hal_now (host_program caps) s = Some (mc_cycles (the_mcu s), s)"
  by (simp add: hal_now_def wired_def mcu_ops_def)

lemma paced_start:
  assumes "the_mcu s = mc_init seed tx_total" "g_state s = rx_pump_empty"
  shows "paced 0 0 (5 * unat tx_total) [] s"
  using assms by (simp add: paced_def mc_init_def mc_next_random_def mc_budget_def Let_def rx_pump_empty_def)

text \<open>A run whose clock cannot wrap stays in order to the end, and its length is bounded.\<close>

lemma paced_in_order:
  assumes "paced k l a log s" "a < 2 ^ 32"
  shows "in_order 0 (log @ [stop_event (mc_cycles (the_mcu s))]) = log @ [stop_event (mc_cycles (the_mcu s))]"
    "length log \<le> a"
proof -
  obtain n where n: "mc_cycles (the_mcu s) = of_nat (3 * n)" "n \<le> a" "length log \<le> a"
    "3 * n < 2 ^ 64 \<longrightarrow> in_order 0 log = log \<and> unat (last_ts 0 log) \<le> 3 * n"
    using assms(1) by (auto simp: paced_def)
  have lt: "3 * n < 2 ^ 64" using n(2) assms(2) by simp
  then have "unat (mc_cycles (the_mcu s)) = 3 * n" unfolding n(1) by (subst unat_of_nat) simp
  then have "last_ts 0 log \<le> ev_ts (stop_event (mc_cycles (the_mcu s)))"
    using n(4) lt by (simp add: stop_event_def word_le_nat_alt)
  then show "in_order 0 (log @ [stop_event (mc_cycles (the_mcu s))]) = log @ [stop_event (mc_cycles (the_mcu s))]"
    using n(4) lt by (intro in_order_snoc) simp_all
qed (use assms in \<open>auto simp: paced_def\<close>)

lemma record_run_outcome:
  fixes s :: "('c, 'z) host"
  assumes "length block = 256"
  shows "\<exists>r s' s0 s1 (s2 :: ('c, 'z) host) \<Delta> hist cur. record_run caps block cfg s = Some (r, s') \<and>
    recorded_run caps cfg s0 s1 \<Delta> \<and> (\<forall>e \<in> set \<Delta>. ev_ok e) \<and>
    paced 0 0 ((next_pace ^^ unat (cfg_main_iters cfg)) (5 * unat (cfg_tx_total cfg))) \<Delta> s1 \<and>
    rr_fw r = snapshot (g_state s1) \<and> rr_writer_ok r = tw_ok (the_writer s2) \<and>
    rr_trace r = sink_bytes s2 \<and> rr_events r = tw_events (the_writer s2) \<and>
    tw_closed VectorSink_write False sink_bytes (\<lambda>_. True)
      (header_bytes (build_id_for (cfg_variant cfg)) (cfg_seed cfg) (cfg_flags cfg))
      (\<Delta> @ [stop_event (mc_cycles (the_mcu s1))]) (rr_writer_ok r) hist cur (the_writer s2) s2"
proof -
  let ?L = "host_program caps" and ?bs0 = "header_bytes (build_id_for (cfg_variant cfg)) (cfg_seed cfg) (cfg_flags cfg)"
  let ?w = "cfg_flags cfg AND kFlagRecordWrites \<noteq> 0" and ?a = "5 * unat (cfg_tx_total cfg)"
  define a where "a = s\<lparr>the_mcu := mc_init (cfg_seed cfg) (cfg_tx_total cfg), sink_bytes := [], the_writer := tw_new,
    g_ops := Some Ops_mcu, g_writer := False, g_mode := MODE_OFF, g_mask_depth := 0, g_in_isr := False,
    g_divergence := None, g_isr := rx_vectors, g_state := rx_pump_empty\<rparr>"
  have a: "wired Ops_mcu MODE_OFF False False a" "the_writer a = tw_new" "g_state a = rx_pump_empty" "sink_bytes a = []"
    "the_mcu a = mc_init (cfg_seed cfg) (cfg_tx_total cfg)"
    by (simp_all add: a_def wired_def rx_pump_empty_ok)
  have start: "start_firmware Ops_mcu (s\<lparr>the_mcu := mc_init (cfg_seed cfg) (cfg_tx_total cfg), sink_bytes := [],
      the_writer := tw_new\<rparr>) = Some a"
    by (simp add: start_firmware_Some a_def)
  obtain b where b: "call_writer (tw_begin host_sinks (Some VectorSink_write) (Some block) kBlockBufferBytes
      (build_id_for (cfg_variant cfg)) (cfg_seed cfg) (cfg_flags cfg)) a = Some (True, b)" "core b = core a"
    "recording VectorSink_write False sink_bytes (\<lambda>_. True) ?bs0 ?w False [] (hal_mode_record True b)"
    using vector_recording.begin_recording [OF a(1,2), where cap = kBlockBufferBytes and buf = block and
        build_id = "build_id_for (cfg_variant cfg)" and seed = "cfg_seed cfg" and flags = "cfg_flags cfg"] assms a(4)
    by (auto simp: kBlockBufferBytes_def kMinBlockBuffer_def)
  have "paced 0 0 ?a [] (hal_mode_record True b)"
    using a core_eq(8,9) [OF b(2)] by (intro paced_start) (simp_all add: hal_mode_record_def)
  with b(3) obtain s1 \<Delta> where s1: "rx_pump_run ?L (cfg_variant cfg) (cfg_main_iters cfg) (hal_mode_record True b) = Some s1"
    "vector_recording.rec_h ?bs0 ?w False 0 0 ((next_pace ^^ unat (cfg_main_iters cfg)) ?a) ([] @ \<Delta>) s1"
    "?w \<Longrightarrow> calm \<Delta>" "?w \<Longrightarrow> follows calm (\<lambda>_. ()) (\<lambda>s. s)
      (rx_pump_run ?L (cfg_variant cfg) (cfg_main_iters cfg)) (hal_mode_record True b) \<Delta> s1"
    using followedE [OF vector_recording.rx_pump_loop_followed [OF two_level_host_program, of ?bs0 ?w ?a
        "unat (cfg_main_iters cfg)" caps "cfg_variant cfg"], of "[]" "hal_mode_record True b"]
    unfolding rx_pump_run_def [abs_def] by blast
  obtain ok s2 hist cur where s2: "call_writer (tw_finish host_sinks (mc_cycles (the_mcu s1))) s1 = Some (ok, s2)"
    "core s2 = core s1" "tw_closed VectorSink_write False sink_bytes (\<lambda>_. True) ?bs0
      (([] @ \<Delta>) @ [stop_event (mc_cycles (the_mcu s1))]) ok hist cur (the_writer s2) s2"
    using vector_recording.finish_recording [OF conjunct1 [OF s1(2)]] by blast
  have ok: "ok = tw_ok (the_writer s2)" using s2(3) by (simp add: tw_closed_def)
  have now: "hal_now ?L s1 = Some (mc_cycles (the_mcu s1), s1)"
    using s1(2) by (intro hal_now_mcu [where m = MODE_RECORD and w = True and h = False]) (simp add: recording_def)
  have oks: "\<forall>e \<in> set \<Delta>. ev_ok e" using s1(2) by (simp add: recording_def)
  have run: "recorded_run caps cfg (hal_mode_record True b) s1 \<Delta>"
    using b(3) s1(3,4) core_eq(8) [OF b(2)] a(3)
    by (simp add: recorded_run_def recording_def hal_mode_record_def)
  obtain r where r: "record_run caps block cfg s = Some (r, hal_reset (hal_mode_off s2))"
    "rr_fw r = snapshot (g_state s1)" "rr_trace r = sink_bytes s2" "rr_events r = tw_events (the_writer s2)"
    "rr_writer_ok r = tw_ok (the_writer s2)"
    using start b(1) s1(1) now s2(1) core_eq(8) [OF s2(2)]
    by (simp add: record_run_def Let_def hal_mode_off_def)
  moreover have "tw_closed VectorSink_write False sink_bytes (\<lambda>_. True) ?bs0
      (\<Delta> @ [stop_event (mc_cycles (the_mcu s1))]) (rr_writer_ok r) hist cur (the_writer s2) s2"
    using s2(3) ok r(5) by simp
  moreover have "paced 0 0 ((next_pace ^^ unat (cfg_main_iters cfg)) ?a) \<Delta> s1" using s1(2) by simp
  ultimately show ?thesis using run oks by blast
qed

section \<open>Replaying\<close>

lemma rp_load_trace:
  assumes "d = header_bytes build_id seed flags @ frames_of 0 (0, 0) hist @ put_u32_le 0"
    and "length d \<le> 0xFFFFFFFF" "\<forall>b \<in> set hist. fst b \<noteq> [] \<and> snd b" "\<forall>e \<in> set (hist_events hist). ev_ok e"
  shows "rp_load d rp_new = Some (True, rp_new\<lparr>rp_header := \<lparr>h_magic = kTraceMagic, h_version = kTraceVersion,
      h_flags = flags, h_build_id = build_id, h_seed = seed\<rparr>,
    rp_check_writes := (flags AND kFlagRecordWrites \<noteq> 0), rp_events := hist_events hist\<rparr>)"
proof -
  have "unat (of_nat (length d) :: u32) = length d"
    using assms(2) by (simp add: unat_of_nat)
  from tr_read_trace [OF assms(1) this _ assms(3,4), of tr_new
      "\<lparr>ev_type = 0, ev_ts = 0, ev_addr = 0, ev_value = 0\<rparr>"]
  show ?thesis
    using assms(2) by (auto simp: rp_load_def rp_new_def Let_def intro: exI [of _ "[]"])
qed

lemma replay_follows:
  fixes t :: "('c, 'z) host" and rp :: "'c replay_hal"
  assumes run: "recorded_run caps cfg s0 s1 \<Delta>" and w: "cfg_flags cfg AND kFlagRecordWrites \<noteq> 0"
    and rp: "rp_load d rp_new = Some (True, rp)" "rp_check_writes rp" "rp_capture_fn rp = None"
      "rp_divergence rp = ''''" "rp_cursor rp = 0" "rp_events rp = \<Delta> @ [stop_event ts]"
  shows "\<exists>p t'. replay_run_as caps d (cfg_variant cfg) (cfg_main_iters cfg) t = Some (p, t') \<and>
    pr_loaded p \<and> \<not> pr_diverged p \<and> pr_fw p = snapshot (g_state s1) \<and>
    pr_events_total p = length (\<Delta> @ [stop_event ts]) \<and> pr_events_consumed p = length \<Delta>"
proof -
  let ?all = "\<Delta> @ [stop_event ts]"
  define t0 where "t0 = t\<lparr>the_replay := rp, g_ops := Some Ops_replay, g_writer := False, g_mode := MODE_REPLAY,
    g_mask_depth := 0, g_in_isr := False, g_divergence := None, g_isr := rx_vectors, g_state := rx_pump_empty\<rparr>"
  have start: "start_firmware Ops_replay (t\<lparr>the_replay := rp\<rparr>) = Some (t0\<lparr>g_mode := MODE_OFF\<rparr>)"
    by (simp add: start_firmware_Some t0_def)
  have mode: "hal_mode_replay (t0\<lparr>g_mode := MODE_OFF\<rparr>) = t0" by (simp add: hal_mode_replay_def t0_def)
  have "following ?all s0 t0 (\<Delta> @ [stop_event ts])"
    using rp run by (simp add: following_def wired_def t0_def recorded_run_def rx_pump_empty_ok Let_def)
  moreover have "calm [stop_event ts]" by (simp add: is_irq_def stop_event_def)
  moreover have f: "follows calm (\<lambda>_. ()) (\<lambda>s. s)
      (rx_pump_run (host_program caps) (cfg_variant cfg) (cfg_main_iters cfg)) s0 \<Delta> s1"
    using run w by (simp add: recorded_run_def)
  ultimately obtain t1 where t1: "rx_pump_run (host_program caps) (cfg_variant cfg) (cfg_main_iters cfg) t0 = Some t1"
    "following ?all s1 t1 [stop_event ts]"
    using followsD [OF f] by blast
  have "rp_cursor (the_replay t1) \<le> length ?all"
    "length (drop (rp_cursor (the_replay t1)) ?all) = length [stop_event ts]"
    using t1(2) by (simp_all add: following_def Let_def)
  then have "rp_cursor (the_replay t1) = length \<Delta>" by simp
  moreover have "g_state t1 = g_state s1" "rp_divergence (the_replay t1) = ''''" "g_divergence t1 = None"
    using t1(2) by (simp_all add: following_def wired_def Let_def)
  ultimately show ?thesis
    using rp start mode t1(1)
    by (simp add: replay_run_as_def Let_def hal_diverged_def pr_zero_def)
qed

lemma build_id_variant: "variant_for_build_id (build_id_for v) = Some v"
  by (cases v) (simp_all add: variant_for_build_id_def build_id_for_def kBuildIdBuggy_def kBuildIdFixed_def)

text \<open>Replaying a recording whose writer reports no error and whose trace the loader accepts.\<close>

lemma replay_of_ok_recording:
  fixes s t :: "('c, 'z) host"
  assumes "length block = 256" "cfg_flags cfg AND kFlagRecordWrites \<noteq> 0"
    and "record_run caps block cfg s = Some (r, s')" "rr_writer_ok r" "length (rr_trace r) \<le> 0xFFFFFFFF"
  shows "\<exists>p t'. replay_run caps (rr_trace r) (cfg_main_iters cfg) t = Some (p, t') \<and>
    pr_loaded p \<and> \<not> pr_diverged p \<and> pr_fw p = rr_fw r \<and>
    of_nat (pr_events_total p) = rr_events r \<and> pr_events_consumed p + 1 = pr_events_total p"
proof -
  obtain r2 s2' s0 s1 and s2 :: "('c, 'z) host" and \<Delta> hist cur where r2: "record_run caps block cfg s = Some (r2, s2')"
    "recorded_run caps cfg s0 s1 \<Delta>" "rr_fw r2 = snapshot (g_state s1)"
    "rr_trace r2 = sink_bytes s2" "rr_events r2 = tw_events (the_writer s2)" "\<forall>e \<in> set \<Delta>. ev_ok e"
    "tw_closed VectorSink_write False sink_bytes (\<lambda>_. True)
      (header_bytes (build_id_for (cfg_variant cfg)) (cfg_seed cfg) (cfg_flags cfg))
      (\<Delta> @ [stop_event (mc_cycles (the_mcu s1))]) (rr_writer_ok r2) hist cur (the_writer s2) s2"
    using record_run_outcome [OF assms(1), of caps cfg s] by blast
  have "r2 = r" using r2(1) assms(3) by simp
  note out = r2(2-6) [unfolded this] and closed = r2(7) [unfolded this]
  let ?ts = "mc_cycles (the_mcu s1)"
  have ev: "hist_events hist = \<Delta> @ [stop_event ?ts]"
    using closed assms(4) by (auto simp: tw_closed_def log_events_def split: if_splits)
  have tr: "rr_trace r = header_bytes (build_id_for (cfg_variant cfg)) (cfg_seed cfg) (cfg_flags cfg) @
      frames_of 0 (0, 0) hist @ put_u32_le 0"
    using closed assms(4) out(3) by (auto simp: tw_closed_def sink_at_def hist_bytes_def split: if_splits)
  have rel: "cur = []" "tw_rel VectorSink_write False hist cur (the_writer s2)"
    using closed assms(4) by (auto simp: tw_closed_def split: if_splits)
  then have blocks: "\<forall>b \<in> set hist. fst b \<noteq> [] \<and> snd b"
    and n: "rr_events r = of_nat (length (hist_events hist))"
    using out(4) by (auto simp: tw_rel_def)
  have oks: "\<forall>e \<in> set (hist_events hist). ev_ok e"
    using out(5) ev by (auto simp: stop_event_def)
  let ?rp = "rp_new\<lparr>rp_header := \<lparr>h_magic = kTraceMagic, h_version = kTraceVersion,
      h_flags = cfg_flags cfg, h_build_id = build_id_for (cfg_variant cfg), h_seed = cfg_seed cfg\<rparr>,
    rp_check_writes := (cfg_flags cfg AND kFlagRecordWrites \<noteq> 0), rp_events := hist_events hist\<rparr> :: 'c replay_hal"
  have load: "rp_load (rr_trace r) rp_new = Some (True, ?rp)"
    by (rule rp_load_trace [OF tr assms(5) blocks oks])
  from replay_follows [OF out(1) assms(2) load, of ?ts t] obtain p t' where
    "replay_run_as caps (rr_trace r) (cfg_variant cfg) (cfg_main_iters cfg) t = Some (p, t')"
    "pr_loaded p" "\<not> pr_diverged p" "pr_fw p = snapshot (g_state s1)"
    "pr_events_total p = length (\<Delta> @ [stop_event ?ts])" "pr_events_consumed p = length \<Delta>"
    using assms(2) ev by (auto simp: rp_new_def)
  then show ?thesis
    using load out(2) n ev by (simp add: replay_run_def build_id_variant)
qed

section \<open>How long a trace can get\<close>

lemma length_enc_events: "length (enc_events p es) \<le> 31 * length es"
proof (induction es arbitrary: p)
  case (Cons e es)
  have "length (enc_event p e) \<le> 31"
    using length_enc_event [of p e] by (simp add: kMaxEventBytes_def kVarintMaxBytes_def)
  then show ?case using Cons.IH [of "next_pred p e"] by simp
qed simp

lemma length_frames_of:
  "\<forall>b \<in> set hist. fst b \<noteq> [] \<Longrightarrow> length (frames_of n p hist) \<le> 43 * length (hist_events hist)"
proof (induction n p hist rule: frames_of.induct)
  case (2 n p es taken h)
  then have "es \<noteq> []" "length (frames_of (Suc n) (preds p es) h) \<le> 43 * length (hist_events h)" by simp_all
  then show ?case
    using length_enc_events [of p es] by (cases es) (auto simp: hist_events_def)
qed simp

text \<open>What a configuration must satisfy for its trace to stay below 4 GiB, and that it is enough.\<close>

definition small_run :: "run_config \<Rightarrow> bool" where
  "small_run cfg \<longleftrightarrow> 43 * (unat (cfg_main_iters cfg) + 5 * unat (cfg_tx_total cfg) + 1) + 36 \<le> 0xFFFFFFFF"

lemma record_run_total:
  "length block = 256 \<Longrightarrow> \<exists>r s'. record_run caps block cfg s = Some (r, s')"
  using record_run_outcome [of block caps cfg s] by blast

lemma record_run_small:
  fixes s :: "('c, 'z) host"
  assumes "length block = 256" "small_run cfg"
  shows "\<exists>r s'. record_run caps block cfg s = Some (r, s') \<and> rr_writer_ok r \<and>
    rr_trace r \<noteq> [] \<and> length (rr_trace r) \<le> 0xFFFFFFFF"
proof -
  note small = assms(2) [unfolded small_run_def]
  let ?n = "unat (cfg_main_iters cfg)" and ?a = "5 * unat (cfg_tx_total cfg)"
  obtain r s' and s1 s2 :: "('c, 'z) host" and \<Delta> hist cur where r: "record_run caps block cfg s = Some (r, s')"
    "paced 0 0 ((next_pace ^^ ?n) ?a) \<Delta> s1" "rr_trace r = sink_bytes s2"
    "tw_closed VectorSink_write False sink_bytes (\<lambda>_. True)
      (header_bytes (build_id_for (cfg_variant cfg)) (cfg_seed cfg) (cfg_flags cfg))
      (\<Delta> @ [stop_event (mc_cycles (the_mcu s1))]) (rr_writer_ok r) hist cur (the_writer s2) s2"
    using record_run_outcome [OF assms(1), of caps cfg s] by blast
  have "(next_pace ^^ ?n) ?a = ?a + ?n" using small by (intro next_pace_funpow) simp
  with r(2) have ordered: "in_order 0 (\<Delta> @ [stop_event (mc_cycles (the_mcu s1))]) = \<Delta> @ [stop_event (mc_cycles (the_mcu s1))]"
    and len: "length \<Delta> \<le> ?a + ?n"
    using paced_in_order [of 0 0 "?a + ?n" \<Delta> s1] small by simp_all
  have ok: "rr_writer_ok r" using r(4) ordered by (auto simp: tw_closed_def)
  have "rr_trace r = header_bytes (build_id_for (cfg_variant cfg)) (cfg_seed cfg) (cfg_flags cfg) @
      hist_bytes hist @ put_u32_le 0" "hist_events hist = \<Delta> @ [stop_event (mc_cycles (the_mcu s1))]"
    "\<forall>b \<in> set hist. fst b \<noteq> []"
    using r(3,4) ok ordered by (auto simp: tw_closed_def sink_at_def log_events_def tw_rel_def)
  then have "length (rr_trace r) \<le> 36 + 43 * (length \<Delta> + 1)"
    using length_frames_of [of hist 0 "(0, 0)"] by (simp add: hist_bytes_def)
  then have "length (rr_trace r) \<le> 0xFFFFFFFF" using len small by simp
  moreover have "rr_trace r \<noteq> []"
    using r(3,4) by (auto simp: tw_closed_def sink_at_def header_bytes_def put_u32_le_def split: if_splits)
  ultimately show ?thesis using r(1) ok by blast
qed

section \<open>Properties\<close>


text \<open>
  C2. Recording always ends, whatever the configuration: the dispatch loop cannot run for ever
  and no step reaches undefined behaviour. The trace is the header, one frame per block in
  order, and the terminator exactly when the writer reports no error; then the blocks hold
  every recorded event, and as many as the result says.
\<close>

theorem record_run_trace:
  fixes s :: "('c, 'z) host"
  assumes "length block = 256"
  shows "\<exists>r s' hist. record_run caps block cfg s = Some (r, s') \<and>
    (\<forall>b \<in> set hist. fst b \<noteq> [] \<and> snd b) \<and>
    rr_trace r = header_bytes (build_id_for (cfg_variant cfg)) (cfg_seed cfg) (cfg_flags cfg) @
      frames_of 0 (0, 0) hist @ (if rr_writer_ok r then put_u32_le 0 else []) \<and>
    (rr_writer_ok r \<longrightarrow> rr_events r = of_nat (length (hist_events hist)) \<and>
      (\<exists>log ts. hist_events hist = log @ [stop_event ts]))"
proof -
  from record_run_outcome [OF assms, of caps cfg s] obtain r s' and s1 s2 :: "('c, 'z) host" and \<Delta> hist cur where
    r: "record_run caps block cfg s = Some (r, s')" "rr_trace r = sink_bytes s2" "rr_events r = tw_events (the_writer s2)"
    "tw_closed VectorSink_write False sink_bytes (\<lambda>_. True)
      (header_bytes (build_id_for (cfg_variant cfg)) (cfg_seed cfg) (cfg_flags cfg))
      (\<Delta> @ [stop_event (mc_cycles (the_mcu s1))]) (rr_writer_ok r) hist cur (the_writer s2) s2"
    by blast
  then show ?thesis
    by (intro exI [of _ r] exI [of _ s'] exI [of _ hist])
      (auto simp: tw_closed_def sink_at_def hist_bytes_def tw_rel_def log_events_def split: if_splits)
qed

section \<open>The properties at a concrete run\<close>

text \<open>The machine before anything has run, and no capture function.\<close>

definition boot :: "(unit, unit) host" where
  "boot = \<lparr>g_ops = None, g_writer = False, g_mode = MODE_OFF, g_isr = replicate 8 None, g_mask_depth = 0,
     g_in_isr = False, g_divergence = None, the_writer = tw_new, the_ring = rb_new, rec_started = False,
     g_state = rx_pump_empty, the_replay = rp_new, the_mcu = mc_init 0 0, sink_bytes = [],
     link_received = [], link_per_call = 0, \<dots> = ()\<rparr>"

definition no_captures :: "(unit, (unit, unit) host) captures" where
  "no_captures = (\<lambda>_ s. Some s)"

lemma default_config_sel [simp]:
  "cfg_flags default_config AND kFlagRecordWrites \<noteq> 0" "cfg_main_iters default_config = 6000"
  "cfg_tx_total default_config = 24" "cfg_seed default_config = 1" "cfg_variant default_config = kBuggy"
  by (simp_all add: default_config_def kFlagRecordWrites_def)


theorem record_run_trace_witness:
  "\<exists>r s' hist. record_run no_captures (replicate 256 0) default_config boot = Some (r, s') \<and>
    rr_trace r = header_bytes kBuildIdBuggy 1 kFlagRecordWrites @
      frames_of 0 (0, 0) hist @ (if rr_writer_ok r then put_u32_le 0 else [])"
proof -
  have "length (replicate 256 0 :: bytes) = 256" "build_id_for (cfg_variant default_config) = kBuildIdBuggy"
    "cfg_flags default_config = kFlagRecordWrites" "cfg_seed default_config = 1"
    by (simp_all add: build_id_for_def default_config_def)
  from record_run_trace [OF this(1), of no_captures default_config boot, unfolded this(2-4)] show ?thesis by blast
qed

end
