(* ===== verification/Replay_Determinism.thy ===== *)
theory Replay_Determinism
  imports Faithful_Replay
begin

text \<open>
  Replay by itself, on any list of events whatever: every piece of the firmware returns, and
  what it does is determined by the events, the cursor and the firmware state. Two runs are
  kept side by side that may differ in everything else, such as what an earlier run left
  behind, the divergence already noted, or the function to be called at the capture point.
\<close>

section \<open>Two replays side by side\<close>

definition serving :: "'c set \<Rightarrow> ('c, 'z) host \<Rightarrow> bool" where
  "serving fns s \<longleftrightarrow> g_ops s = Some Ops_replay \<and> g_mode s = MODE_REPLAY \<and> g_isr s = rx_vectors \<and>
     g_mask_depth s = 0 \<and> fw_ok (g_state s) \<and> set_option (rp_capture_fn (the_replay s)) \<subseteq> fns"

definition rp_play :: "'c replay_hal \<Rightarrow> event list \<times> nat \<times> u64 \<times> bool" where
  "rp_play rp = (rp_events rp, rp_cursor rp, rp_now rp, rp_check_writes rp)"

definition rp_watch :: "'c replay_hal \<Rightarrow> nat \<times> 'c option \<times> bool" where
  "rp_watch rp = (rp_capture_at rp, rp_capture_fn rp, rp_captured rp)"

text \<open>
  With \<^verbatim>\<open>b\<close> the two also agree on the capture point and on the part of the state, \<^verbatim>\<open>scratch\<close>,
  that the captures write; with \<^verbatim>\<open>d\<close> they agree on the divergence noted.
\<close>

definition alike :: "'c set \<Rightarrow> ('z \<Rightarrow> 'v) \<Rightarrow> bool \<Rightarrow> bool \<Rightarrow> ('c, 'z) host \<Rightarrow> ('c, 'z) host \<Rightarrow> bool" where
  "alike fns scratch b d s t \<longleftrightarrow> serving fns s \<and> serving fns t \<and> g_in_isr s = g_in_isr t \<and>
     g_state s = g_state t \<and> rp_play (the_replay s) = rp_play (the_replay t) \<and>
     (b \<longrightarrow> rp_watch (the_replay s) = rp_watch (the_replay t) \<and>
       scratch (world.more s) = scratch (world.more t)) \<and>
     (d \<longrightarrow> rp_divergence (the_replay s) = rp_divergence (the_replay t) \<and> g_divergence s = g_divergence t)"

text \<open>
  What a run does to the replay: the cursor moves forward, and the capture fires exactly when
  the run meets the capture point.
\<close>

definition moved :: "'c replay_hal \<Rightarrow> 'c replay_hal \<Rightarrow> bool" where
  "moved rp rp' \<longleftrightarrow> rp_cursor rp \<le> rp_cursor rp' \<and>
     rp_cursor rp' \<le> max (rp_cursor rp) (length (rp_events rp)) \<and> rp_events rp' = rp_events rp \<and>
     rp_check_writes rp' = rp_check_writes rp \<and> rp_header rp' = rp_header rp \<and>
     rp_capture_at rp' = rp_capture_at rp \<and> rp_capture_fn rp' = rp_capture_fn rp \<and>
     (rp_captured rp \<longrightarrow> rp_captured rp') \<and>
     (rp_captured rp' \<and> \<not> rp_captured rp \<longrightarrow>
        rp_cursor rp \<le> rp_capture_at rp \<and> rp_capture_at rp \<le> rp_cursor rp') \<and>
     (rp_capture_fn rp \<noteq> None \<and> rp_cursor rp \<le> rp_capture_at rp \<and> rp_capture_at rp < rp_cursor rp' \<longrightarrow>
        rp_captured rp')"

lemma moved_refl [simp]: "moved rp rp"
  by (auto simp: moved_def)

lemma moved_trans:
  assumes "moved rp rp'" "moved rp' rp''"
  shows "moved rp rp''"
proof -
  have "rp_cursor rp \<le> rp_cursor rp''" "rp_cursor rp \<le> rp_cursor rp'" "rp_cursor rp' \<le> rp_cursor rp''"
    using assms by (auto simp: moved_def)
  then show ?thesis
    using assms by (cases "rp_captured rp'"; cases "rp_capture_at rp < rp_cursor rp'") (auto simp: moved_def)
qed

text \<open>
  As long as the capture does not fire, what the captures write stays as it is; when it fires,
  what they have written satisfies \<^verbatim>\<open>fired\<close>. They leave \<^verbatim>\<open>kept\<close> alone.
\<close>

definition went :: "('z \<Rightarrow> 'v) \<Rightarrow> ('v \<Rightarrow> bool) \<Rightarrow> ('z \<Rightarrow> 'k) \<Rightarrow> ('c, 'z) host \<Rightarrow> ('c, 'z) host \<Rightarrow> bool" where
  "went scratch fired kept s s' \<longleftrightarrow> moved (the_replay s) (the_replay s') \<and> g_in_isr s' = g_in_isr s \<and>
     kept (world.more s') = kept (world.more s) \<and>
     (rp_captured (the_replay s') = rp_captured (the_replay s) \<longrightarrow> scratch (world.more s') = scratch (world.more s)) \<and>
     (rp_captured (the_replay s') \<and> \<not> rp_captured (the_replay s) \<longrightarrow> fired (scratch (world.more s')))"

lemma went_refl [simp]: "went scratch fired kept s s"
  by (simp add: went_def)

lemma went_moved:
  "went scratch fired kept s s' \<Longrightarrow> rp_events (the_replay s') = rp_events (the_replay s) \<and>
     rp_cursor (the_replay s) \<le> rp_cursor (the_replay s') \<and>
     rp_cursor (the_replay s') \<le> max (rp_cursor (the_replay s)) (length (rp_events (the_replay s))) \<and>
     rp_check_writes (the_replay s') = rp_check_writes (the_replay s) \<and>
     rp_capture_at (the_replay s') = rp_capture_at (the_replay s) \<and>
     rp_capture_fn (the_replay s') = rp_capture_fn (the_replay s)"
  by (simp add: went_def moved_def)

lemma went_trans:
  assumes "went scratch fired kept s s'" "went scratch fired kept s' s''"
  shows "went scratch fired kept s s''"
proof -
  have m: "moved (the_replay s) (the_replay s'')" using assms moved_trans by (auto simp: went_def)
  have mono: "rp_captured (the_replay s) \<Longrightarrow> rp_captured (the_replay s')"
    "rp_captured (the_replay s') \<Longrightarrow> rp_captured (the_replay s'')"
    using assms by (auto simp: went_def moved_def)
  then show ?thesis
    using assms m
    by (cases "rp_captured (the_replay s')"; cases "rp_captured (the_replay s)") (auto simp: went_def)
qed

lemma alike_simps [simp]:
  "alike fns scratch b d s t \<Longrightarrow> alike fns scratch b d (rp_diverge m s) (rp_diverge m t)"
  "went scratch fired kept s (rp_diverge m t) = went scratch fired kept s t"
  by (auto simp: alike_def serving_def rp_diverge_def hal_set_divergence_def rp_upd_def rp_play_def
      rp_watch_def Let_def went_def moved_def)

lemma alike_serve [simp]: "alike fns scratch b d s t \<Longrightarrow> alike fns scratch b d (rp_serve e s) (rp_serve e t)"
  by (auto simp: alike_def serving_def rp_serve_def rp_upd_def rp_play_def rp_watch_def)

lemma alike_fw_upd:
  "alike fns scratch b d s t \<Longrightarrow> (\<And>fw. fw_ok fw \<Longrightarrow> fw_ok (f fw)) \<Longrightarrow>
     alike fns scratch b d (fw_upd f s) (fw_upd f t)"
  by (auto simp: alike_def serving_def fw_upd_def)

lemma went_fw_upd [simp]: "went scratch fired kept s (fw_upd f t) = went scratch fired kept s t" "went scratch fired kept (fw_upd f s) t = went scratch fired kept s t"
  by (simp_all add: went_def fw_upd_def)

lemma alike_in_isr [simp]:
  "alike fns scratch b d s t \<Longrightarrow> alike fns scratch b d (s\<lparr>g_in_isr := h\<rparr>) (t\<lparr>g_in_isr := h\<rparr>)"
  by (auto simp: alike_def serving_def)

text \<open>
  A computation that is determined: on two like states it returns, with the same value and like
  states. \<^verbatim>\<open>val\<close> and \<^verbatim>\<open>st\<close> split an outcome as before; \<^verbatim>\<open>R\<close> may restrict the start.
\<close>

definition determined ::
  "'c set \<Rightarrow> ('z \<Rightarrow> 'v) \<Rightarrow> ('v \<Rightarrow> bool) \<Rightarrow> ('z \<Rightarrow> 'k) \<Rightarrow> bool \<Rightarrow> bool \<Rightarrow> (('c, 'z) host \<Rightarrow> bool) \<Rightarrow> ('r \<Rightarrow> 'w) \<Rightarrow> ('r \<Rightarrow> ('c, 'z) host) \<Rightarrow>
   (('c, 'z) host \<Rightarrow> 'r option) \<Rightarrow> bool" where
  "determined fns scratch fired kept b d R val st F \<longleftrightarrow>
     (\<forall>s t. alike fns scratch b d s t \<longrightarrow> R s \<longrightarrow>
        (\<exists>r q. F s = Some r \<and> F t = Some q \<and> val r = val q \<and> alike fns scratch b d (st r) (st q) \<and>
           went scratch fired kept s (st r) \<and> went scratch fired kept t (st q)))"

lemma determinedI:
  assumes "\<And>s t. alike fns scratch b d s t \<Longrightarrow> R s \<Longrightarrow>
    \<exists>r q. F s = Some r \<and> F t = Some q \<and> val r = val q \<and> alike fns scratch b d (st r) (st q) \<and>
      went scratch fired kept s (st r) \<and> went scratch fired kept t (st q)"
  shows "determined fns scratch fired kept b d R val st F"
  using assms unfolding determined_def by blast

lemma determinedE:
  assumes "determined fns scratch fired kept b d R val st F" "alike fns scratch b d s t" "R s"
  obtains r q where "F s = Some r" "F t = Some q" "val r = val q" "alike fns scratch b d (st r) (st q)"
    "went scratch fired kept s (st r)" "went scratch fired kept t (st q)"
  using assms unfolding determined_def by blast

lemma determined_conseq:
  "determined fns scratch fired kept b d R val st F \<Longrightarrow> (\<And>s. R' s \<Longrightarrow> R s) \<Longrightarrow> determined fns scratch fired kept b d R' val st F"
  unfolding determined_def by blast

lemma determined_bind:
  assumes F: "determined fns scratch fired kept b d R valf stf F"
    and G: "\<And>v. determined fns scratch fired kept b d R' val st (G v)" and R: "\<And>s s'. R s \<Longrightarrow> went scratch fired kept s s' \<Longrightarrow> R' s'"
    and G': "\<And>r. G' r = G (valf r) (stf r)"
  shows "determined fns scratch fired kept b d R val st (\<lambda>s. Option.bind (F s) G')"
proof (rule determinedI)
  fix s t
  assume "alike fns scratch b d s t" and Rs: "R s"
  then obtain r q where 1: "F s = Some r" "F t = Some q" "valf r = valf q"
    "alike fns scratch b d (stf r) (stf q)" "went scratch fired kept s (stf r)" "went scratch fired kept t (stf q)"
    by (rule determinedE [OF F])
  obtain r' q' where 2: "G (valf r) (stf r) = Some r'" "G (valf r) (stf q) = Some q'" "val r' = val q'"
    "alike fns scratch b d (st r') (st q')" "went scratch fired kept (stf r) (st r')" "went scratch fired kept (stf q) (st q')"
    by (rule determinedE [OF G 1(4) R [OF Rs 1(5)]])
  have "went scratch fired kept s (st r')" "went scratch fired kept t (st q')"
    using went_trans [OF 1(5) 2(5)] went_trans [OF 1(6) 2(6)] by simp_all
  with 1 2 show "\<exists>r q. Option.bind (F s) G' = Some r \<and> Option.bind (F t) G' = Some q \<and> val r = val q \<and>
      alike fns scratch b d (st r) (st q) \<and> went scratch fired kept s (st r) \<and> went scratch fired kept t (st q)"
    by (intro exI [of _ r'] exI [of _ q']) (simp add: G')
qed

text \<open>The start is only ever restricted by whether a handler runs.\<close>

abbreviation in_handler :: "bool \<Rightarrow> ('c, 'z) host \<Rightarrow> bool" where
  "in_handler h s \<equiv> g_in_isr s = h"

lemma determined_pair:
  assumes "determined fns scratch fired kept b d (in_handler h) fst snd F"
    "\<And>v. determined fns scratch fired kept b d (in_handler h) val st (G v)"
  shows "determined fns scratch fired kept b d (in_handler h) val st (\<lambda>s. Option.bind (F s) (\<lambda>(v, s). G v s))"
  by (rule determined_bind [where G = G, OF assms]) (auto simp: went_def)

lemma determined_state:
  assumes "determined fns scratch fired kept b d (in_handler h) (\<lambda>_. ()) (\<lambda>s. s) F"
    "determined fns scratch fired kept b d (in_handler h) val st G"
  shows "determined fns scratch fired kept b d (in_handler h) val st (\<lambda>s. Option.bind (F s) G)"
  by (rule determined_bind [where G = "\<lambda>_. G", OF assms]) (auto simp: went_def)

lemma determined_return: "determined fns scratch fired kept b d R (\<lambda>_. ()) (\<lambda>s. s) (\<lambda>s. Some s)"
  by (rule determinedI) auto

lemma determined_give: "determined fns scratch fired kept b d R fst snd (\<lambda>s. Some (v, s))"
  by (rule determinedI) auto

lemma determined_fw_upd:
  assumes "\<And>fw. fw_ok fw \<Longrightarrow> fw_ok (f fw)"
    "determined fns scratch fired kept b d (in_handler h) val st G"
  shows "determined fns scratch fired kept b d (in_handler h) val st (\<lambda>s. G (fw_upd f s))"
proof (rule determinedI)
  fix s t
  assume al: "alike fns scratch b d s t" and h: "in_handler h s"
  have "in_handler h (fw_upd f s)" using h by (simp add: fw_upd_def)
  with alike_fw_upd [OF al assms(1)] obtain r q where "G (fw_upd f s) = Some r" "G (fw_upd f t) = Some q"
    "val r = val q" "alike fns scratch b d (st r) (st q)" "went scratch fired kept (fw_upd f s) (st r)" "went scratch fired kept (fw_upd f t) (st q)"
    by (rule determinedE [OF assms(2)])
  then show "\<exists>r q. G (fw_upd f s) = Some r \<and> G (fw_upd f t) = Some q \<and> val r = val q \<and>
      alike fns scratch b d (st r) (st q) \<and> went scratch fired kept s (st r) \<and> went scratch fired kept t (st q)" by auto
qed

text \<open>The firmware state may be looked at: both runs have the same, and it is well formed.\<close>

lemma determined_get:
  assumes "\<And>fw. fw_ok fw \<Longrightarrow> determined fns scratch fired kept b d (\<lambda>s. in_handler h s \<and> g_state s = fw) val st (F fw)"
  shows "determined fns scratch fired kept b d (in_handler h) val st (\<lambda>s. F (g_state s) s)"
proof (rule determinedI)
  fix s t
  assume al: "alike fns scratch b d s t" and h: "in_handler h s"
  then have "fw_ok (g_state s)" "g_state t = g_state s" by (simp_all add: alike_def serving_def)
  then show "\<exists>r q. F (g_state s) s = Some r \<and> F (g_state t) t = Some q \<and> val r = val q \<and>
      alike fns scratch b d (st r) (st q) \<and> went scratch fired kept s (st r) \<and> went scratch fired kept t (st q)"
    using determinedE [OF assms al, of "g_state s"] h by metis
qed


section \<open>The backend\<close>

text \<open>
  Who uses the capture point provides functions that return, write only their own part of the
  state, and write there what the firmware state and the time of the last event determine.
\<close>

locale replay_client =
  fixes caps :: "('c, ('c, 'z) host) captures" and fns :: "'c set" and scratch :: "'z \<Rightarrow> 'v"
    and fired :: "'v \<Rightarrow> bool" and kept :: "'z \<Rightarrow> 'k"
  assumes capture_ends: "fn \<in> fns \<Longrightarrow> \<exists>s'. caps fn s = Some s' \<and>
      world.truncate s' = world.truncate s \<and> kept (world.more s') = kept (world.more s) \<and>
      fired (scratch (world.more s'))"
    and capture_same: "fn \<in> fns \<Longrightarrow> g_state s = g_state t \<Longrightarrow> rp_now (the_replay s) = rp_now (the_replay t) \<Longrightarrow>
      scratch (world.more s) = scratch (world.more t) \<Longrightarrow> caps fn s = Some s' \<Longrightarrow> caps fn t = Some t' \<Longrightarrow>
      scratch (world.more s') = scratch (world.more t')"
begin

abbreviation same where "same \<equiv> alike fns scratch"
abbreviation det where "det b d h \<equiv> determined fns scratch fired kept b d (in_handler h)"

definition past_capture :: "'c replay_hal \<Rightarrow> bool" where
  "past_capture rp \<longleftrightarrow> rp_capture_fn rp = None \<or> rp_captured rp \<or> rp_cursor rp \<noteq> rp_capture_at rp"

lemma truncate_eq:
  assumes "world.truncate s' = world.truncate s"
  shows "g_ops s' = g_ops s" "g_mode s' = g_mode s" "g_isr s' = g_isr s" "g_mask_depth s' = g_mask_depth s"
    "g_in_isr s' = g_in_isr s" "g_state s' = g_state s" "the_replay s' = the_replay s"
    "g_divergence s' = g_divergence s"
  using assms [THEN arg_cong, of g_ops] assms [THEN arg_cong, of g_mode] assms [THEN arg_cong, of g_isr]
    assms [THEN arg_cong, of g_mask_depth] assms [THEN arg_cong, of g_in_isr] assms [THEN arg_cong, of g_state]
    assms [THEN arg_cong, of the_replay] assms [THEN arg_cong, of g_divergence]
  by (simp_all add: world.truncate_def)

lemma maybe_capture:
  assumes "serving fns s"
  shows "\<exists>s'. rp_maybe_capture caps s = Some s' \<and> serving fns s' \<and> g_in_isr s' = g_in_isr s \<and> g_state s' = g_state s \<and>
    rp_play (the_replay s') = rp_play (the_replay s) \<and> past_capture (the_replay s') \<and>
    rp_divergence (the_replay s') = rp_divergence (the_replay s) \<and> g_divergence s' = g_divergence s \<and> went scratch fired kept s s'"
proof (cases "past_capture (the_replay s)")
  case True
  then show ?thesis using assms by (auto simp: rp_maybe_capture_def past_capture_def split: option.split)
next
  case False
  then obtain fn where fn: "rp_capture_fn (the_replay s) = Some fn" "fn \<in> fns" "\<not> rp_captured (the_replay s)"
    "rp_cursor (the_replay s) = rp_capture_at (the_replay s)"
    using assms by (auto simp: past_capture_def serving_def)
  let ?s = "rp_upd (\<lambda>rp. rp\<lparr>rp_captured := True\<rparr>) s"
  obtain s' where s': "caps fn ?s = Some s'" "world.truncate s' = world.truncate ?s" "kept (world.more s') = kept (world.more ?s)"
    "fired (scratch (world.more s'))"
    using capture_ends [OF fn(2)] by blast
  show ?thesis
    using fn s'(1,3,4) truncate_eq [OF s'(2)] assms
    by (auto simp: rp_maybe_capture_def past_capture_def serving_def went_def moved_def rp_upd_def rp_play_def)
qed

lemma maybe_capture_same:
  assumes "same b d s t" "rp_maybe_capture caps s = Some s'" "rp_maybe_capture caps t = Some t'"
  shows "same b d s' t'"
proof -
  have st: "serving fns s" "serving fns t" using assms(1) by (simp_all add: alike_def)
  have "rp_watch (the_replay s') = rp_watch (the_replay t') \<and> scratch (world.more s') = scratch (world.more t')" if b
  proof (cases "past_capture (the_replay s)")
    case True
    then have "s' = s" "t' = t"
      using assms that by (auto simp: rp_maybe_capture_def past_capture_def alike_def rp_watch_def rp_play_def split: option.splits)
    then show ?thesis using assms(1) that by (simp add: alike_def)
  next
    case False
    then obtain fn where fn: "rp_capture_fn (the_replay s) = Some fn" "fn \<in> fns" "\<not> rp_captured (the_replay s)"
      "rp_cursor (the_replay s) = rp_capture_at (the_replay s)"
      using st(1) by (auto simp: past_capture_def serving_def)
    let ?on = "rp_upd (\<lambda>rp :: 'c replay_hal. rp\<lparr>rp_captured := True\<rparr>)"
    have w: "rp_capture_fn (the_replay t) = Some fn" "\<not> rp_captured (the_replay t)"
      "rp_cursor (the_replay t) = rp_capture_at (the_replay t)"
      using assms(1) that fn by (auto simp: alike_def rp_watch_def rp_play_def)
    have 1: "caps fn (?on s) = Some s'" "caps fn (?on t) = Some t'"
      using assms(2,3) fn w by (simp_all add: rp_maybe_capture_def)
    have "scratch (world.more s') = scratch (world.more t')"
      using capture_same [OF fn(2) _ _ _ 1] assms(1) that by (auto simp: alike_def rp_upd_def rp_play_def)
    moreover have "the_replay s' = the_replay (?on s)" "the_replay t' = the_replay (?on t)"
      using capture_ends [OF fn(2), of "?on s"] capture_ends [OF fn(2), of "?on t"] 1 truncate_eq(7) by force+
    ultimately show ?thesis using assms(1) that by (simp add: alike_def rp_upd_def rp_watch_def)
  qed
  then show ?thesis
    using maybe_capture [OF st(1)] maybe_capture [OF st(2)] assms by (auto simp: alike_def)
qed

lemma went_serve:
  "went scratch fired kept s s' \<Longrightarrow> past_capture (the_replay s') \<Longrightarrow>
     rp_cursor (the_replay s') < length (rp_events (the_replay s')) \<Longrightarrow> went scratch fired kept s (rp_serve e s')"
  by (auto simp: went_def moved_def past_capture_def rp_serve_def rp_upd_def)

text \<open>One call of the backend: after the capture, what it does depends on the play alone.\<close>

lemma capture_then:
  assumes G: "\<And>s t. same b d s t \<Longrightarrow> past_capture (the_replay s) \<Longrightarrow> past_capture (the_replay t) \<Longrightarrow>
      \<exists>r q. G s = Some r \<and> G t = Some q \<and> val r = val q \<and> same b d (st r) (st q) \<and>
        (\<forall>u. went scratch fired kept u s \<longrightarrow> went scratch fired kept u (st r)) \<and> (\<forall>u. went scratch fired kept u t \<longrightarrow> went scratch fired kept u (st q))"
  shows "determined fns scratch fired kept b d R val st (\<lambda>s. Option.bind (rp_maybe_capture caps s) G)"
proof (rule determinedI)
  fix s t
  assume al: "same b d s t" "R s"
  have st: "serving fns s" "serving fns t" using al by (simp_all add: alike_def)
  obtain s' t' where 1: "rp_maybe_capture caps s = Some s'" "past_capture (the_replay s')" "went scratch fired kept s s'"
    "rp_maybe_capture caps t = Some t'" "past_capture (the_replay t')" "went scratch fired kept t t'"
    using maybe_capture [OF st(1)] maybe_capture [OF st(2)] by blast
  from G [OF maybe_capture_same [OF al(1) 1(1,4)] 1(2,5)] 1
  show "\<exists>r q. Option.bind (rp_maybe_capture caps s) G = Some r \<and> Option.bind (rp_maybe_capture caps t) G = Some q \<and>
      val r = val q \<and> same b d (st r) (st q) \<and> went scratch fired kept s (st r) \<and> went scratch fired kept t (st q)"
    by auto
qed

lemma same_play:
  "same b d s t \<Longrightarrow> rp_events (the_replay t) = rp_events (the_replay s) \<and> rp_cursor (the_replay t) = rp_cursor (the_replay s) \<and>
     rp_check_writes (the_replay t) = rp_check_writes (the_replay s)"
  by (simp add: alike_def rp_play_def)

lemma read32_determined: "determined fns scratch fired kept b d R fst snd (rp_read32 caps addr)"
  unfolding rp_read32_def Let_def
  by (rule capture_then) (auto simp: same_play went_serve)

lemma write32_determined: "determined fns scratch fired kept b d R (\<lambda>_. ()) (\<lambda>s. s) (rp_write32 caps addr v)"
  unfolding rp_write32_def Let_def
  by (rule capture_then) (auto simp: same_play went_serve)

lemma poll_irq_determined: "determined fns scratch fired kept b d R fst snd (rp_poll_irq caps)"
  unfolding rp_poll_irq_def Let_def
  by (rule capture_then) (auto simp: same_play went_serve)

section \<open>The shim and the handler\<close>

lemma replaying: "same b d s t \<Longrightarrow> g_ops s = Some Ops_replay \<and> g_ops t = Some Ops_replay \<and> g_mode s = MODE_REPLAY \<and>
    g_mode t = MODE_REPLAY \<and> g_mask_depth s = 0 \<and> g_mask_depth t = 0 \<and> g_isr s = rx_vectors \<and> g_isr t = rx_vectors \<and>
    g_in_isr t = g_in_isr s"
  by (simp add: alike_def serving_def)

lemma access_determined:
  assumes L: "host_linked caps L"
  shows "det b d h fst snd (access_read L addr)" "det b d h (\<lambda>_. ()) (\<lambda>s. s) (access_write L addr v)"
proof -
  show "det b d h fst snd (access_read L addr)"
  proof (rule determinedI)
    fix s t
    assume al: "same b d s t" "in_handler h s"
    then obtain r q where 1: "rp_read32 caps addr s = Some r" "rp_read32 caps addr t = Some q" "fst r = fst q"
      "same b d (snd r) (snd q)" "went scratch fired kept s (snd r)" "went scratch fired kept t (snd q)"
      by (rule determinedE [OF read32_determined])
    have "access_read L addr s = Some r" "access_read L addr t = Some q"
      using L 1(1,2) replaying [OF al(1)] replaying [OF 1(4)]
      by (auto simp: access_read_def host_linked_def replay_ops_def split: prod.splits)
    with 1 show "\<exists>r q. access_read L addr s = Some r \<and> access_read L addr t = Some q \<and> fst r = fst q \<and>
      same b d (snd r) (snd q) \<and> went scratch fired kept s (snd r) \<and> went scratch fired kept t (snd q)" by blast
  qed
  show "det b d h (\<lambda>_. ()) (\<lambda>s. s) (access_write L addr v)"
  proof (rule determinedI)
    fix s t
    assume al: "same b d s t" "in_handler h s"
    then obtain r q where 1: "rp_write32 caps addr v s = Some r" "rp_write32 caps addr v t = Some q"
      "same b d r q" "went scratch fired kept s r" "went scratch fired kept t q"
      by (rule determinedE [OF write32_determined])
    have "access_write L addr v s = Some r" "access_write L addr v t = Some q"
      using L 1(1,2) replaying [OF al(1)] replaying [OF 1(3)]
      by (auto simp: access_write_def host_linked_def replay_ops_def)
    with 1 show "\<exists>r q. access_write L addr v s = Some r \<and> access_write L addr v t = Some q \<and> () = () \<and>
      same b d r q \<and> went scratch fired kept s r \<and> went scratch fired kept t q" by blast
  qed
qed

lemma read_then:
  assumes "host_linked caps L" "det b d h (\<lambda>_. ()) (\<lambda>s. s) (pump_irqs L)"
  shows "det b d h fst snd (mmio_read32 L addr)" "det b d h (\<lambda>_. ()) (\<lambda>s. s) (mmio_write32 L addr v)"
  unfolding mmio_read32_access [OF assms(1)] mmio_write32_access [OF assms(1)]
  by (rule determined_pair [OF access_determined(1) [OF assms(1)] determined_state [OF assms(2) determined_give]])
    (rule determined_state [OF access_determined(2) [OF assms(1)] assms(2)])

lemma handler_pump_determined: "det b d True (\<lambda>_. ()) (\<lambda>s. s) (pump_irqs L)"
proof (rule determinedI)
  fix s t
  assume al: "same b d s t" "in_handler True s"
  then have "pump_irqs L s = Some s" "pump_irqs L t = Some t"
    using replaying [OF al(1)] by (simp_all add: pump_irqs_def split: option.split)
  with al show "\<exists>r q. pump_irqs L s = Some r \<and> pump_irqs L t = Some q \<and> () = () \<and> same b d r q \<and> went scratch fired kept s r \<and> went scratch fired kept t q"
    by simp
qed

lemma isr_determined:
  assumes L: "host_linked caps L"
  shows "det b d True (\<lambda>_. ()) (\<lambda>s. s) (isr_uart_rx L)"
proof -
  note read = read_then(1) [OF L handler_pump_determined]
  have upd: "det b d True (\<lambda>_. ()) (\<lambda>s. s) (\<lambda>s. Some (fw_upd f s))" if "\<And>fw. fw_ok fw \<Longrightarrow> fw_ok (f fw)" for f
    by (rule determined_fw_upd [OF that determined_return])
  have "determined fns scratch fired kept b d (\<lambda>s. in_handler True s \<and> g_state s = fw) (\<lambda>_. ()) (\<lambda>s. s) (isr_store dr fw)"
    if ok: "fw_ok fw" for dr fw
  proof -
    have "det b d True (\<lambda>_. ()) (\<lambda>s. s) (isr_store dr fw)"
      using ok by (cases "(st_head fw + 1) mod kRingSize = st_tail fw")
        (auto simp: isr_store_def [abs_def] wr_def fw_ok_def fw_pos_mod intro!: upd [simplified fw_ok_def simp_thms])
    then show ?thesis by (rule determined_conseq) simp
  qed
  from determined_get [OF this]
  have tail: "det b d True (\<lambda>_. ()) (\<lambda>s. s) (\<lambda>s. isr_store dr (g_state s) s)" for dr .
  have "det b d True (\<lambda>_. ()) (\<lambda>s. s) (\<lambda>s. if sr AND kSrRxne = 0 then Some s
      else do { (dr, s) \<leftarrow> mmio_read32 L kUart0Dr s; isr_store dr (g_state s) s })" for sr
    using determined_return determined_pair [OF read tail] by (cases "sr AND kSrRxne = 0") simp_all
  then show ?thesis unfolding isr_in_pieces by (rule determined_pair [OF read])
qed

section \<open>Dispatch\<close>

text \<open>However wild the trace, the dispatch loop ends: every round uses up an event.\<close>

lemma run_isr_determined:
  assumes "isr_code L = fw_handlers L0" "host_linked caps L0"
  shows "det b d True (\<lambda>_. ()) (\<lambda>s. s) (hal_run_isr L vector)"
proof (rule determinedI)
  fix s t
  assume al: "same b d s t" "in_handler True s"
  let ?E = "\<lambda>F. \<exists>r q. F s = Some r \<and> F t = Some q \<and> () = () \<and> same b d r q \<and> went scratch fired kept s r \<and> went scratch fired kept t q"
  show "?E (hal_run_isr L vector)"
  proof (cases "vector = kIrqUartRx")
    case True
    have "?E (isr_uart_rx L0)"
      using isr_determined [OF assms(2), of b] al unfolding determined_def by blast
    then show ?thesis
      using run_rx_isr [OF assms(1)] replaying [OF al(1)] True by simp
  next
    case False
    then have "unat vector \<noteq> 1" by (metis kIrqUartRx_def unat_1 word_unat_eq_iff)
    then have "hal_run_isr L vector u = Some u" if "g_isr u = rx_vectors" for u
      using that by (auto simp: hal_run_isr_def rx_vectors_def kMaxIrqVectors_def word_less_nat_alt)
    then show ?thesis using replaying [OF al(1)] al by auto
  qed
qed

lemma poll_uses_event:
  assumes "rp_poll_irq caps s = Some (vector, s1)" "vector \<noteq> kNoIrq" "same b d s t"
  shows "length (rp_events (the_replay s1)) - rp_cursor (the_replay s1) <
    length (rp_events (the_replay s)) - rp_cursor (the_replay s)"
proof -
  obtain s0 where s0: "rp_maybe_capture caps s = Some s0" "rp_play (the_replay s0) = rp_play (the_replay s)"
    using maybe_capture [of s] assms(3) by (auto simp: alike_def)
  then show ?thesis
    using assms(1,2) by (auto simp: rp_poll_irq_def Let_def rp_serve_def rp_upd_def rp_play_def split: if_splits)
qed

lemma pump_loop_determined:
  assumes L: "host_linked caps L" "isr_code L = fw_handlers L0" "host_linked caps L0"
  shows "det b d True (\<lambda>_. ()) (\<lambda>s. s) (pump_loop L)"
proof (rule determinedI)
  fix s t
  assume "same b d s t" "in_handler True s"
  then show "\<exists>r q. pump_loop L s = Some r \<and> pump_loop L t = Some q \<and> () = () \<and> same b d r q \<and> went scratch fired kept s r \<and> went scratch fired kept t q"
  proof (induction "length (rp_events (the_replay s)) - rp_cursor (the_replay s)" arbitrary: s t rule: less_induct)
    case less
    from less.prems obtain p p' where "rp_poll_irq caps s = Some p" "rp_poll_irq caps t = Some p'"
      "fst p = fst p'" "same b d (snd p) (snd p')" "went scratch fired kept s (snd p)" "went scratch fired kept t (snd p')"
      by (rule determinedE [OF poll_irq_determined])
    then obtain vec s1 t1 where 1: "rp_poll_irq caps s = Some (vec, s1)" "rp_poll_irq caps t = Some (vec, t1)"
      "same b d s1 t1" "went scratch fired kept s s1" "went scratch fired kept t t1"
      by (metis prod.collapse)
    have unfold: "pump_loop L u = (if vec = kNoIrq then Some u1 else Option.bind (hal_run_isr L vec u1) (pump_loop L))"
      if "rp_poll_irq caps u = Some (vec, u1)" "g_ops u = Some Ops_replay" "g_mode u1 = MODE_REPLAY" for u u1
      using that L(1) by (subst pump_loop.simps) (simp add: host_linked_def replay_ops_def)
    note un = unfold [OF 1(1)] unfold [OF 1(2)]
    note r = replaying [OF less.prems(1)] replaying [OF 1(3)]
    show ?case
    proof (cases "vec = kNoIrq")
      case True
      then show ?thesis using un r 1 by auto
    next
      case False
      have h: "in_handler True s1" using 1(4) less.prems(2) by (simp add: went_def)
      from 1(3) this obtain s2 t2 where 2: "hal_run_isr L vec s1 = Some s2" "hal_run_isr L vec t1 = Some t2" "same b d s2 t2"
        "went scratch fired kept s1 s2" "went scratch fired kept t1 t2"
        by (rule determinedE [OF run_isr_determined [OF L(2,3)]])
      have "length (rp_events (the_replay s2)) - rp_cursor (the_replay s2) <
          length (rp_events (the_replay s)) - rp_cursor (the_replay s)"
        using poll_uses_event [OF 1(1) False less.prems(1)] went_moved [OF 2(4)] by (simp, linarith)
      moreover have "in_handler True s2" using h 2(4) by (simp add: went_def)
      ultimately obtain r q where 3: "pump_loop L s2 = Some r" "pump_loop L t2 = Some q" "same b d r q"
        "went scratch fired kept s2 r" "went scratch fired kept t2 q"
        using less.hyps [OF _ 2(3)] by blast
      have "went scratch fired kept s r" "went scratch fired kept t q"
        using 1(4,5) 2(4,5) 3(4,5) by (blast intro: went_trans)+
      then show ?thesis using un r 2(1,2) 3 False by simp
    qed
  qed
qed

lemma pump_irqs_determined:
  assumes L: "host_linked caps L" "isr_code L = fw_handlers L0" "host_linked caps L0"
  shows "det b d False (\<lambda>_. ()) (\<lambda>s. s) (pump_irqs L)"
proof (rule determinedI)
  fix s t
  assume al: "same b d s t" "in_handler False s"
  have "same b d (s\<lparr>g_in_isr := True\<rparr>) (t\<lparr>g_in_isr := True\<rparr>)" "in_handler True (s\<lparr>g_in_isr := True\<rparr>)"
    using al by simp_all
  then obtain r q where 1: "pump_loop L (s\<lparr>g_in_isr := True\<rparr>) = Some r" "pump_loop L (t\<lparr>g_in_isr := True\<rparr>) = Some q"
    "same b d r q" "went scratch fired kept (s\<lparr>g_in_isr := True\<rparr>) r" "went scratch fired kept (t\<lparr>g_in_isr := True\<rparr>) q"
    by (rule determinedE [OF pump_loop_determined [OF L]])
  have "pump_irqs L s = Some (r\<lparr>g_in_isr := False\<rparr>)" "pump_irqs L t = Some (q\<lparr>g_in_isr := False\<rparr>)"
    using replaying [OF al(1)] al(2) L(1) 1(1,2) by (simp_all add: pump_irqs_def host_linked_def replay_ops_def)
  moreover have "went scratch fired kept s (r\<lparr>g_in_isr := False\<rparr>)" "went scratch fired kept t (q\<lparr>g_in_isr := False\<rparr>)"
    using 1(4,5) al replaying [OF al(1)] by (simp_all add: went_def)
  ultimately show "\<exists>r q. pump_irqs L s = Some r \<and> pump_irqs L t = Some q \<and> () = () \<and> same b d r q \<and> went scratch fired kept s r \<and> went scratch fired kept t q"
    using 1(3) by simp
qed

section \<open>The main loop\<close>

lemma main_read_determined:
  assumes "two_level caps L"
  shows "det b d False fst snd (mmio_read32 L addr)" "det b d False (\<lambda>_. ()) (\<lambda>s. s) (mmio_write32 L addr v)"
proof -
  obtain L0 where L: "host_linked caps L" "isr_code L = fw_handlers L0" "host_linked caps L0"
    using assms by (auto simp: two_level_def)
  show "det b d False fst snd (mmio_read32 L addr)" "det b d False (\<lambda>_. ()) (\<lambda>s. s) (mmio_write32 L addr v)"
    by (rule read_then [OF L(1) pump_irqs_determined [OF L]])+
qed

lemma consume_one_determined:
  assumes L: "two_level caps L"
  shows "det b d False (\<lambda>_. ()) (\<lambda>s. s) (consume_one L)"
proof -
  let ?read = "\<lambda>s. do { (stamp, s) \<leftarrow> mmio_read32 L kSystickCnt s; show_count L stamp s }"
  let ?head = "\<lambda>fw s. do { byte \<leftarrow> rd (st_ring fw) (unat (st_tail fw)); ?read (fw_upd (take_byte byte) s) }"
  have "det b d False (\<lambda>_. ()) (\<lambda>s. s) (\<lambda>s. mmio_write32 L kGpio0Odr (st_consumed (g_state s)) s)"
    by (rule determined_get [where F = "\<lambda>fw. mmio_write32 L kGpio0Odr (st_consumed fw)"],
        rule determined_conseq [OF main_read_determined(2) [OF L]]) simp
  then have "det b d False (\<lambda>_. ()) (\<lambda>s. s) (show_count L stamp)" for stamp
    unfolding show_count_def by (intro determined_fw_upd) (simp_all add: fw_ok_def)
  from determined_pair [OF main_read_determined(1) [OF L] this]
  have read: "det b d False (\<lambda>_. ()) (\<lambda>s. s) ?read" .
  have "determined fns scratch fired kept b d (\<lambda>s. in_handler False s \<and> g_state s = fw) (\<lambda>_. ()) (\<lambda>s. s) (?head fw)"
    if ok: "fw_ok fw" for fw
  proof -
    have eq: "?head fw = (\<lambda>s. ?read (fw_upd (take_byte (st_ring fw ! unat (st_tail fw))) s))"
      using ok by (intro ext) (simp add: fw_ok_def)
    have "det b d False (\<lambda>_. ()) (\<lambda>s. s) (?head fw)"
      unfolding eq by (rule determined_fw_upd [OF _ read]) (simp add: fw_ok_def take_byte_def fw_pos_mod)
    then show ?thesis by (rule determined_conseq) simp
  qed
  from determined_get [where F = ?head, OF this] show ?thesis unfolding consume_in_pieces .
qed

lemma consume_n_determined:
  assumes L: "two_level caps L"
  shows "det b d False (\<lambda>_. ()) (\<lambda>s. s) (consume_n L n)"
proof (induction n)
  case 0
  then show ?case using determined_return by simp
next
  case (Suc n)
  then show ?case using determined_state [OF consume_one_determined [OF L] Suc.IH] by simp
qed

lemma iter_determined:
  assumes L: "two_level caps L"
  shows "det b d False (\<lambda>_. ()) (\<lambda>s. s) (rx_pump_iter L v)"
proof -
  have clear: "det b d False (\<lambda>_. ()) (\<lambda>s. s) (iter_done v n)" for n
  proof (rule determinedI)
    fix s t
    assume al: "same b d s t" "in_handler False s"
    have "same b d (fw_upd (iter_clear v n) s) (fw_upd (iter_clear v n) t)"
      using al(1) by (rule alike_fw_upd) (simp add: fw_ok_def iter_clear_def)
    then show "\<exists>r q. iter_done v n s = Some r \<and> iter_done v n t = Some q \<and> () = () \<and> same b d r q \<and> went scratch fired kept s r \<and> went scratch fired kept t q"
      using replaying [OF al(1)] by (simp add: iter_done_unmasked)
  qed
  have "det b d False (\<lambda>_. ()) (\<lambda>s. s) (iter_body L v fw)" for fw
    using determined_pair [OF main_read_determined(1) [OF L] determined_return]
      determined_state [OF consume_n_determined [OF L] clear]
    by (cases "st_pending fw = 0") (simp_all add: iter_body_def [abs_def])
  then have "determined fns scratch fired kept b d (\<lambda>s. in_handler False s \<and> g_state s = fw) (\<lambda>_. ()) (\<lambda>s. s) (iter_body L v fw)" for fw
    by (rule determined_conseq) simp
  from determined_get [where F = "iter_body L v", OF this]
  have body: "det b d False (\<lambda>_. ()) (\<lambda>s. s) (\<lambda>s. iter_body L v (g_state s) s)" .
  show ?thesis
  proof (rule determinedI)
    fix s t
    assume al: "same b d s t" "in_handler False s"
    show "\<exists>r q. rx_pump_iter L v s = Some r \<and> rx_pump_iter L v t = Some q \<and> () = () \<and> same b d r q \<and> went scratch fired kept s r \<and> went scratch fired kept t q"
      using replaying [OF al(1)] body al by (simp add: iter_in_pieces determined_def)
  qed
qed

lemma loop_determined:
  assumes L: "two_level caps L"
  shows "det b d False (\<lambda>_. ()) (\<lambda>s. s) (rx_pump_loop L v n)"
proof (induction n)
  case 0
  then show ?case using determined_return by simp
next
  case (Suc n)
  then show ?case using determined_state [OF iter_determined [OF L] Suc.IH] by simp
qed

lemma run_determined:
  "two_level caps L \<Longrightarrow> det b d False (\<lambda>_. ()) (\<lambda>s. s) (rx_pump_run L v n)"
  unfolding rx_pump_run_def [abs_def] by (rule loop_determined)

end

section \<open>Replaying any bytes\<close>

interpretation plain_replay: replay_client caps "{}" "\<lambda>_. ()" "\<lambda>_. True" "\<lambda>_. ()" for caps
  by unfold_locales simp_all

lemma rp_load_total:
  "\<exists>ok rp'. rp_load d rp = Some (ok, rp') \<and> rp_capture_fn rp' = rp_capture_fn rp \<and>
     rp_divergence rp' = rp_divergence rp \<and> (ok \<longrightarrow> rp_cursor rp' = 0 \<and> rp_now rp' = 0)"
proof (cases "length d > 0xFFFFFFFF")
  case True
  then show ?thesis by (auto simp: rp_load_def)
next
  case False
  then have len: "unat (of_nat (length d) :: u32) \<le> length d" by (simp add: unat_of_nat)
  obtain opened tr where o: "tr_open (Some d) (of_nat (length d)) tr_new = Some (opened, tr)" "tr_inv tr"
    using tr_open_inv [OF len] by blast
  obtain evs tr' where "tr_read_all \<lparr>ev_type = 0, ev_ts = 0, ev_addr = 0, ev_value = 0\<rparr> tr [] = Some (evs, tr')"
    using tr_read_all_total [OF o(2), of "[]" "\<lparr>ev_type = 0, ev_ts = 0, ev_addr = 0, ev_value = 0\<rparr>"] by auto
  then show ?thesis using False o(1) by (auto simp: rp_load_def Let_def)
qed

text \<open>The state both replays of \<^verbatim>\<open>replay_run_as\<close> start the firmware in.\<close>

definition replay_start :: "'c replay_hal \<Rightarrow> ('c, 'z) host \<Rightarrow> ('c, 'z) host" where
  "replay_start rp s = s\<lparr>the_replay := rp, g_ops := Some Ops_replay, g_writer := False, g_mode := MODE_REPLAY,
     g_mask_depth := 0, g_in_isr := False, g_divergence := None, g_isr := rx_vectors, g_state := rx_pump_empty\<rparr>"

lemma start_replay:
  "\<exists>s1. start_firmware Ops_replay (s\<lparr>the_replay := rp\<rparr>) = Some s1 \<and> hal_mode_replay s1 = replay_start rp s"
  by (cases s) (simp add: start_firmware_Some hal_mode_replay_def replay_start_def)

lemma replay_run_as_any:
  fixes s t :: "('c, 'z) host"
  shows "\<exists>p s' t'. replay_run_as caps d v n s = Some (p, s') \<and> replay_run_as caps d v n t = Some (p, t') \<and>
    pr_events_consumed p \<le> pr_events_total p"
proof -
  obtain ok rp where load: "rp_load d (rp_new :: 'c replay_hal) = Some (ok, rp)" "rp_capture_fn rp = None"
    "ok \<longrightarrow> rp_cursor rp = 0"
    using rp_load_total [of d "rp_new :: 'c replay_hal"] by (auto simp: rp_new_def)
  show ?thesis
  proof (cases ok)
    case False
    then show ?thesis using load by (simp add: replay_run_as_def Let_def pr_zero_def)
  next
    case True
    have "alike {} (\<lambda>_. ()) True True (replay_start rp s) (replay_start rp t)" "in_handler False (replay_start rp s)"
      using load(2) by (simp_all add: alike_def serving_def replay_start_def rx_pump_empty_ok)
    then obtain r q where 1: "rx_pump_run (host_program caps) v n (replay_start rp s) = Some r"
      "rx_pump_run (host_program caps) v n (replay_start rp t) = Some q"
      "alike {} (\<lambda>_. ()) True True r q" "went (\<lambda>_. ()) (\<lambda>_. True) (\<lambda>_. ()) (replay_start rp s) r"
      by (rule determinedE [OF plain_replay.run_determined [OF two_level_host_program]])
    have "rp_cursor (the_replay r) \<le> length (rp_events rp)"
      using 1(4) load(3) True by (simp add: went_def moved_def replay_start_def)
    then show ?thesis
      using load(1) True 1(1-3) start_replay [where s = s and rp = rp] start_replay [where s = t and rp = rp]
      by (auto simp: replay_run_as_def Let_def pr_zero_def alike_def rp_play_def hal_diverged_def)
  qed
qed

lemma replay_run_any:
  fixes s t :: "('c, 'z) host"
  shows "\<exists>p s' t'. replay_run caps d n s = Some (p, s') \<and> replay_run caps d n t = Some (p, t') \<and>
    pr_events_consumed p \<le> pr_events_total p"
proof -
  obtain ok rp where "rp_load d (rp_new :: 'c replay_hal) = Some (ok, rp)"
    using rp_load_total [of d "rp_new :: 'c replay_hal"] by blast
  then show ?thesis
    using replay_run_as_any [of caps d _ n s t]
    by (auto simp: replay_run_def pr_zero_def split: option.split)
qed

text \<open>
  C5. Replay can be given anything. For every byte sequence, however damaged, and every number
  of iterations it returns: no access leaves a buffer, the dispatch loop ends, the firmware's
  indices stay in its ring. Its result, the divergence and its message included, is the same
  from whatever static state earlier runs left behind, and no more events are consumed than
  the trace has.
\<close>

theorem replay_total_and_deterministic:
  fixes s t :: "('c, 'z) host"
  shows "\<exists>p s' t'. replay_run caps d n s = Some (p, s') \<and> replay_run caps d n t = Some (p, t') \<and>
    pr_events_consumed p \<le> pr_events_total p"
  by (rule replay_run_any)

end
