(* ===== verification/Buffered_Replay.thy ===== *)
theory Buffered_Replay
  imports Faithful_Replay
begin

text \<open>
  Recording the way a device does it, \<^verbatim>\<open>record_buffered\<close> in \<^verbatim>\<open>host/src/session.cpp\<close>: blocks go
  through the ring and a link that takes a limited number of bytes at a time, drained between
  slices of the run. What arrives is what was recorded, less the blocks the ring refused, and
  a run reported healthy replays exactly.
\<close>

section \<open>Draining beside a recording\<close>

lemma drain_view_eq:
  assumes "drain_view s = drain_view s'"
  shows "g_ops s = g_ops s'" "g_mode s = g_mode s'" "g_writer s = g_writer s'" "g_isr s = g_isr s'"
    "g_mask_depth s = g_mask_depth s'" "g_in_isr s = g_in_isr s'" "g_divergence s = g_divergence s'"
    "g_state s = g_state s'" "the_mcu s = the_mcu s'" "the_writer s = the_writer s'" "link_per_call s = link_per_call s'"
  using assms [THEN arg_cong, of g_ops] assms [THEN arg_cong, of g_mode] assms [THEN arg_cong, of g_writer]
    assms [THEN arg_cong, of g_isr] assms [THEN arg_cong, of g_mask_depth] assms [THEN arg_cong, of g_in_isr]
    assms [THEN arg_cong, of g_divergence] assms [THEN arg_cong, of g_state] assms [THEN arg_cong, of the_mcu]
    assms [THEN arg_cong, of the_writer] assms [THEN arg_cong, of link_per_call]
  by (simp_all add: drain_view_def)

abbreviation sent_bytes :: "('c, 'z) host \<Rightarrow> bytes" where
  "sent_bytes s \<equiv> link_received s @ rb_contents (the_ring s)"

abbreviation link_recorded :: "u32 \<Rightarrow> bytes \<Rightarrow> bool \<Rightarrow> bool \<Rightarrow> event list \<Rightarrow> ('c, 'z) host \<Rightarrow> bool" where
  "link_recorded n \<equiv> recording Recorder_sink True sent_bytes (link_inv n)"

lemma link_logged:
  "tw_logged k b e (link_inv n) bs0 log hist cur tw s \<longleftrightarrow>
     tw_logged k b e (\<lambda>s. rb_ready (the_ring s)) bs0 log hist cur tw s \<and> link_per_call s = n"
  by (auto simp: tw_logged_def sink_at_def link_inv_def)

lemma drain_recording:
  fixes s :: "('c, 'z) host"
  assumes "link_recorded n bs0 w h log s"
  obtains sent s' where "rec_drain (Some link_write) budget s = Some (sent, s')" "drain_view s' = drain_view s"
    "link_recorded n bs0 w h log s'"
proof -
  obtain hist cur where l: "tw_logged Recorder_sink True sent_bytes (\<lambda>s. rb_ready (the_ring s)) bs0 log hist cur (the_writer s) s"
    "link_per_call s = n"
    using assms by (auto simp: recording_def link_logged)
  then have "rb_ready (the_ring s)" by (simp add: tw_logged_def sink_at_def)
  from host_link.drain_keeps_log [OF this l(1), of budget] obtain sent s' where
    s': "rec_drain (Some link_write) budget s = Some (sent, s')" "drain_view s' = drain_view s"
    "tw_logged Recorder_sink True sent_bytes (\<lambda>s. rb_ready (the_ring s)) bs0 log hist cur (the_writer s) s'" by blast
  note e = drain_view_eq [OF s'(2)]
  have "link_recorded n bs0 w h log s'"
    using assms s'(3) l(2) unfolding recording_def wired_def by (auto simp: e link_logged)
  with s' that show thesis by blast
qed

lemma following_drained: "drain_view s' = drain_view s \<Longrightarrow> following all s' t evs = following all s t evs"
  using drain_view_eq(6,8) [of s' s] by (simp add: following_def)

lemma paced_drained: "drain_view s' = drain_view s \<Longrightarrow> paced k l a log s' = paced k l a log s"
  using drain_view_eq(8,9) [of s' s] by (intro paced_same) simp_all

lemma rx_pump_loop_append:
  "rx_pump_loop L v (m + n) s = Option.bind (rx_pump_loop L v m s) (rx_pump_loop L v n)"
  by (induction m arbitrary: s) (auto split: bind_splits)

text \<open>Slices of the run with drains in between: to the replay they are one run.\<close>

definition slices_to :: "('c, ('c, 'z) host) captures \<Rightarrow> variant \<Rightarrow> bool \<Rightarrow> nat \<Rightarrow> event list \<Rightarrow> ('c, 'z) host \<Rightarrow>
    ('c, 'z) host \<Rightarrow> bool" where
  "slices_to caps v w n \<Delta> s s' \<longleftrightarrow>
     (n = 0 \<longrightarrow> \<Delta> = [] \<and> g_state s' = g_state s) \<and>
     (w \<longrightarrow> calm \<Delta> \<and> follows calm (\<lambda>_. ()) (\<lambda>s. s) (rx_pump_loop (host_program caps) v n) s \<Delta> s')"

lemma follows_append:
  assumes "follows calm (\<lambda>_. ()) (\<lambda>s. s) (rx_pump_loop L v m) s \<Delta> s1" "drain_view s2 = drain_view s1"
    and "calm \<Delta>'" "follows calm (\<lambda>_. ()) (\<lambda>s. s) (rx_pump_loop L v n) s2 \<Delta>' s3"
  shows "follows calm (\<lambda>_. ()) (\<lambda>s. s) (rx_pump_loop L v (m + n)) s (\<Delta> @ \<Delta>') s3"
  unfolding follows_def
proof (intro allI impI)
  fix all t rest
  assume t: "following all s t ((\<Delta> @ \<Delta>') @ rest)" "calm rest"
  then have "following all s t (\<Delta> @ (\<Delta>' @ rest))" "calm (\<Delta>' @ rest)" using assms(3) by simp_all
  from followsD [OF assms(1) this] obtain t1 where t1: "rx_pump_loop L v m t = Some t1" "following all s2 t1 (\<Delta>' @ rest)"
    using following_drained [OF assms(2)] by auto
  from followsD [OF assms(4) t1(2) t(2)] t1(1)
  show "\<exists>q. rx_pump_loop L v (m + n) t = Some q \<and> () = () \<and> following all s3 q rest"
    by (auto simp: rx_pump_loop_append)
qed

lemma run_slice_recorded:
  fixes s :: "('c, 'z) host"
  assumes "link_recorded c bs0 w False log s" "paced 0 0 a log s"
  obtains s' \<Delta> where "rx_pump_loop (host_program caps) v n s = Some s'" "link_recorded c bs0 w False (log @ \<Delta>) s'"
    "paced 0 0 ((next_pace ^^ n) a) (log @ \<Delta>) s'" "slices_to caps v w n \<Delta> s s'"
proof (cases n)
  case 0
  have "slices_to caps v w n [] s s" using 0 by (auto simp: slices_to_def follows_def)
  then show thesis using assms 0 by (intro that [of s "[]"]) simp_all
next
  case (Suc m)
  with that show thesis
    using followedE [OF link_recording.rx_pump_loop_followed [OF two_level_host_program, of c bs0 w a n caps v], of log s]
      assms unfolding slices_to_def by blast
qed

lemma run_slices_recorded:
  fixes s :: "('c, 'z) host"
  assumes "link_recorded c bs0 w False log s" "paced 0 0 a log s"
  shows "\<exists>s' \<Delta>. run_slices (host_program caps) v per budget n s = Some s' \<and> link_recorded c bs0 w False (log @ \<Delta>) s' \<and>
    paced 0 0 ((next_pace ^^ (n * unat per)) a) (log @ \<Delta>) s' \<and> slices_to caps v w (n * unat per) \<Delta> s s'"
  using assms
proof (induction n arbitrary: log s a)
  case 0
  have "follows calm (\<lambda>_. ()) (\<lambda>s. s) (rx_pump_loop (host_program caps) v 0) s [] s"
    by (auto simp: follows_def)
  with 0 show ?case by (intro exI [of _ s] exI [of _ "[]"]) (simp add: slices_to_def)
next
  case (Suc n)
  obtain s1 \<Delta>1 where s1: "rx_pump_loop (host_program caps) v (unat per) s = Some s1"
    "link_recorded c bs0 w False (log @ \<Delta>1) s1" "paced 0 0 ((next_pace ^^ unat per) a) (log @ \<Delta>1) s1"
    "slices_to caps v w (unat per) \<Delta>1 s s1"
    using run_slice_recorded [OF Suc.prems] by blast
  obtain sent s2 where s2: "rec_drain (Some link_write) budget s1 = Some (sent, s2)" "drain_view s2 = drain_view s1"
    "link_recorded c bs0 w False (log @ \<Delta>1) s2" using drain_recording [OF s1(2)] by blast
  have "paced 0 0 ((next_pace ^^ unat per) a) (log @ \<Delta>1) s2" using s1(3) paced_drained [OF s2(2)] by blast
  from Suc.IH [OF s2(3) this] obtain s3 \<Delta>2 where s3:
    "run_slices (host_program caps) v per budget n s2 = Some s3" "link_recorded c bs0 w False ((log @ \<Delta>1) @ \<Delta>2) s3"
    "paced 0 0 ((next_pace ^^ (n * unat per)) ((next_pace ^^ unat per) a)) ((log @ \<Delta>1) @ \<Delta>2) s3"
    "slices_to caps v w (n * unat per) \<Delta>2 s2 s3" by blast
  have "slices_to caps v w (Suc n * unat per) (\<Delta>1 @ \<Delta>2) s s3"
    using s1(4) s3(4) follows_append [OF _ s2(2)] drain_view_eq(8) [OF s2(2)] by (auto simp: slices_to_def)
  moreover have "(next_pace ^^ (n * unat per)) ((next_pace ^^ unat per) a) = (next_pace ^^ (Suc n * unat per)) a"
    by (metis add.commute comp_apply funpow_add mult_Suc)
  ultimately show ?case
    using s1 s2 s3 by (intro exI [of _ s3] exI [of _ "\<Delta>1 @ \<Delta>2"]) (simp add: rx_pump_run_def)
qed

section \<open>Emptying the ring\<close>

lemma link_takes_some:
  assumes "link_write bs s = Some (n, s')" "bs \<noteq> []" "link_per_call s \<noteq> 0" "length bs < 4294967296"
  shows "n \<noteq> 0"
proof -
  have "unat (of_nat (length bs) :: u32) = length bs" using assms(4) by (simp add: unat_of_nat take_bit_nat_eq_self)
  then have "(of_nat (length bs) :: u32) \<noteq> 0" using assms(2) by (metis length_0_conv unat_0)
  then show ?thesis using assms(1,3) by (auto simp: link_write_def Let_def split: if_splits)
qed

text \<open>A drain that moves nothing found nothing, if the link takes bytes at all.\<close>

lemma drain_progress:
  assumes r: "rb_ready (the_ring s)" and m: "sent < max_bytes" and c: "link_per_call s \<noteq> 0"
    and d: "rec_drain_loop link_write max_bytes sent s = Some (sent, s')"
  shows "rb_contents (the_ring s) = []"
proof (rule ccontr)
  assume ne: "rb_contents (the_ring s) \<noteq> []"
  obtain n v where peek: "rb_peek True (the_ring s) = Some (n, v)" using ring.peek_not_None [OF r] by blast
  then have n: "n \<noteq> 0" "unat n \<le> length (rb_contents (the_ring s))" "v = Some (take (unat n) (rb_contents (the_ring s)))"
    using ring.peek_law [OF r] ne by auto
  define avail where "avail = (if n > max_bytes - sent then max_bytes - sent else n)"
  have room: "unat (max_bytes - sent) = unat max_bytes - unat sent" using m by (intro unat_sub) (simp add: less_imp_le)
  have "avail \<le> n" "unat avail \<le> unat (max_bytes - sent)" by (auto simp: avail_def word_le_nat_alt not_less word_less_nat_alt)
  moreover have "0 < unat avail" using n(1) m room by (auto simp: avail_def word_less_nat_alt unat_gt_0)
  ultimately have av: "0 < unat avail" "avail \<le> n" "unat sent + unat avail \<le> unat max_bytes"
    using m room by (simp_all add: word_less_nat_alt)
  let ?offered = "take (unat avail) (rb_contents (the_ring s))"
  have len: "length ?offered = unat avail" using av(2) n(2) by (simp add: word_le_nat_alt)
  have slice: "slice (take (unat n) (rb_contents (the_ring s))) 0 (unat avail) = Some ?offered"
    using av(2) n(2) by (simp add: word_le_nat_alt min_def)
  obtain t s1 where o: "link_write ?offered s = Some (t, s1)" "the_ring s1 = the_ring s"
    using host_link.offer_law [of ?offered s] by blast
  have "?offered \<noteq> []" using len av(1) by (metis length_greater_0_conv)
  moreover have "length ?offered < 4294967296" unfolding len using unat_u32_lt [of avail] by simp
  ultimately have t: "t \<noteq> 0" by (intro link_takes_some [OF o(1) _ c])
  define k where "k = (if t > avail then avail else t)"
  have k: "k \<noteq> 0" "k \<le> avail" using t av(1) by (auto simp: k_def)
  have "unat k \<le> length (rb_contents (the_ring s))" using k(2) av(2) n(2) by (simp add: word_le_nat_alt)
  then obtain q where q: "rb_consume k (the_ring s) = (True, q)" "rb_ready q"
    using ring.consume_law [OF r] by blast
  have loop: "rec_drain_loop link_write max_bytes sent s = rec_drain_loop link_write max_bytes (sent + k) (s1\<lparr>the_ring := q\<rparr>)"
    using m peek n(1,3) slice o t q(1)
    by (subst rec_drain_loop.simps) (simp add: Let_def avail_def [symmetric] k_def [symmetric])
  have sk: "unat (sent + k) = unat sent + unat k" and le: "unat sent + unat k \<le> unat max_bytes"
    using k(2) av(3) unat_u32_lt [of max_bytes] by (auto simp: word_le_nat_alt intro: unat_add_no_wrap)
  obtain sent' s2 moved where "rec_drain_loop link_write max_bytes (sent + k) (s1\<lparr>the_ring := q\<rparr>) = Some (sent', s2)"
    "unat sent' = unat (sent + k) + length (moved :: bytes)"
    using host_link.drain_loop_law [of "s1\<lparr>the_ring := q\<rparr>" "sent + k" max_bytes] q(2) sk le by auto
  then have "unat sent = unat (sent + k) + length moved" using d loop by simp
  then show False using sk k(1) by (simp add: unat_gt_0 [symmetric])
qed

lemma drain_all_empties:
  fixes s :: "('c, 'z) host"
  shows "rb_ready (the_ring s) \<Longrightarrow> \<exists>s'. drain_all s = Some s' \<and> sent_bytes s' = sent_bytes s \<and> rb_ready (the_ring s') \<and>
    drain_view s' = drain_view s \<and> (link_per_call s \<noteq> 0 \<longrightarrow> rb_contents (the_ring s') = [])"
proof (induction "length (rb_contents (the_ring s))" arbitrary: s rule: less_induct)
  case less
  obtain sent s1 moved where 1: "rec_drain (Some link_write) 0xFFFF s = Some (sent, s1)" "unat sent = length moved"
    "link_received s1 = link_received s @ moved" "rb_contents (the_ring s) = moved @ rb_contents (the_ring s1)"
    "rb_ready (the_ring s1)" "drain_view s1 = drain_view s"
    using host_link.drain_loop_law [OF less.prems, of 0 "0xFFFF"] by (auto simp: rec_drain_def)
  note e = drain_view_eq [OF 1(6)]
  show ?case
  proof (cases "sent = 0")
    case True
    then have "drain_all s = Some s1" using 1(1) by (simp add: drain_all.simps [of s])
    moreover have "link_per_call s \<noteq> 0 \<Longrightarrow> rb_contents (the_ring s) = []"
      using drain_progress [OF less.prems, of 0 "0xFFFF" s1] 1(1) True by (simp add: rec_drain_def)
    ultimately show ?thesis using 1 True by auto
  next
    case False
    then have "length (rb_contents (the_ring s1)) < length (rb_contents (the_ring s))"
      using 1(2,4) by (auto simp: unat_eq_zero)
    from less.hyps [OF this 1(5)] obtain s2 where "drain_all s1 = Some s2" "sent_bytes s2 = sent_bytes s1"
      "rb_ready (the_ring s2)" "drain_view s2 = drain_view s1" "link_per_call s1 \<noteq> 0 \<longrightarrow> rb_contents (the_ring s2) = []" by blast
    moreover have "drain_all s = drain_all s1"
      using 1(1) False by (subst drain_all.simps) (simp add: word_gt_0)
    ultimately show ?thesis using 1 e(11) by auto
  qed
qed

section \<open>A buffered run\<close>

text \<open>The run that is made: the number of iterations is rounded down to whole slices.\<close>

definition slice_count :: "buffered_config \<Rightarrow> u32" where
  "slice_count bc = (if bc_slices bc \<noteq> 0 then bc_slices bc else 1)"

definition sliced_run :: "buffered_config \<Rightarrow> run_config" where
  "sliced_run bc = (bc_run bc)\<lparr>cfg_main_iters := slice_count bc * (cfg_main_iters (bc_run bc) div slice_count bc)\<rparr>"

definition ring_fits :: "u32 \<Rightarrow> bool" where
  "ring_fits cap \<longleftrightarrow> 32 \<le> cap \<and> cap \<le> 0x80000000 \<and> is_power_of_two cap"

lemma sliced_run_iters:
  "unat (cfg_main_iters (sliced_run bc)) = unat (slice_count bc) * unat (cfg_main_iters (bc_run bc) div slice_count bc)"
proof -
  let ?i = "cfg_main_iters (bc_run bc)" and ?n = "slice_count bc"
  have "unat ?n * unat (?i div ?n) \<le> unat ?i" by (simp add: unat_div mult.commute)
  then have "unat ?n * unat (?i div ?n) < 4294967296" using unat_u32_lt [of ?i] by simp
  then show ?thesis by (simp add: sliced_run_def unat_mult_lem [THEN iffD1] unat_word_ariths)
qed

text \<open>Beginning: the ring is initialised and the header pushed, or the recording is refused.\<close>

lemma buffered_begins:
  fixes s :: "('c, 'z) host"
  assumes s: "wired Ops_mcu MODE_OFF False False s" "the_writer s = tw_new" "link_received s = []"
  obtains s1 where "rec_begin (host_program caps) Recorder_sink (vector_data cap) cap (vector_data kBlockBufferBytes)
      kBlockBufferBytes build_id seed flags s = Some (ring_fits cap, s1)"
    "ring_fits cap \<Longrightarrow> core s1 = core (s\<lparr>rec_started := rec_started s1\<rparr>)"
    "ring_fits cap \<Longrightarrow> link_recorded (link_per_call s) (header_bytes build_id seed flags) (flags AND kFlagRecordWrites \<noteq> 0) False []
       (rec_start s1)"
proof (cases "2 \<le> cap \<and> cap \<le> 0x80000000 \<and> is_power_of_two cap")
  case False
  then have "fst (rb_init st cap rb) = False" for st rb by (auto simp: rb_init_def not_le)
  moreover have "\<not> ring_fits cap" using False by (auto simp: ring_fits_def word_le_nat_alt)
  ultimately show thesis
    using that [of "s\<lparr>the_ring := snd (rb_init (vector_data cap) cap (the_ring s))\<rparr>"]
    by (simp add: rec_begin_def split_beta Let_def)
next
  case True
  then have "cap \<noteq> 0" by auto
  then have data: "vector_data cap = Some (replicate (unat cap) 0)" by (simp add: vector_data_def)
  have block: "kMinBlockBuffer \<le> kBlockBufferBytes" "unat kBlockBufferBytes < 4294967277"
    "unat kBlockBufferBytes \<le> length (replicate 256 0 :: bytes)" "vector_data kBlockBufferBytes = Some (replicate 256 0)"
    by (simp_all add: kMinBlockBuffer_def kBlockOverhead_def kMaxEventBytes_def kVarintMaxBytes_def kBlockBufferBytes_def vector_data_def)
  obtain rb where rb: "rb_init (Some (replicate (unat cap) 0)) cap (the_ring s) = (True, rb)" "rb_ready rb" "rb_contents rb = []"
    "rb_cap rb = cap" using rb_init_ready [of cap "replicate (unat cap) 0" "the_ring s"] True by auto
  let ?t = "s\<lparr>the_ring := rb\<rparr>"
  have t: "wired Ops_mcu MODE_OFF False False ?t" "the_writer ?t = tw_new" "link_inv (link_per_call s) ?t" "sent_bytes ?t = []"
    using s rb by (simp_all add: wired_def link_inv_def)
  obtain b s1 where b: "call_writer (tw_begin host_sinks (Some Recorder_sink) (Some (replicate 256 0)) kBlockBufferBytes build_id seed flags) ?t =
      Some (b, s1)" "core s1 = core ?t"
    "b \<longrightarrow> link_recorded (link_per_call s) (header_bytes build_id seed flags) (flags AND kFlagRecordWrites \<noteq> 0) False [] (hal_mode_record True s1)"
    using link_recording.begin_recording [OF t(1-3) block(1-3), of build_id seed flags] t(4) by auto
  obtain tw s0 where "tw_begin host_sinks (Some Recorder_sink) (Some (replicate 256 0)) kBlockBufferBytes build_id seed flags tw_new ?t =
      Some (b, tw, s0)" using b(1) t(2) by (auto simp: call_writer_def bind_eq_Some_conv)
  from begin_asks_sink [OF block(1-3) this] have "rec_sink (header_bytes build_id seed flags) ?t = Some (b, s0)" by simp
  then have fits: "b = ring_fits cap"
    using rec_sink_cases [of ?t "header_bytes build_id seed flags"] rb True by (auto simp: ring_fits_def word_le_nat_alt)
  have "rec_begin (host_program caps) Recorder_sink (vector_data cap) cap (vector_data kBlockBufferBytes)
      kBlockBufferBytes build_id seed flags s = Some (ring_fits cap, s1)"
    using rb(1) b(1) fits by (simp add: rec_begin_def data block(4))
  moreover have "core s1 = core (s\<lparr>rec_started := rec_started s1\<rparr>)"
    using b(2) core_eq(12) [OF b(2)] by (simp add: core_def)
  moreover have "link_recorded (link_per_call s) (header_bytes build_id seed flags) (flags AND kFlagRecordWrites \<noteq> 0) False [] (rec_start s1)"
    if "ring_fits cap"
  proof -
    have r: "link_recorded (link_per_call s) (header_bytes build_id seed flags) (flags AND kFlagRecordWrites \<noteq> 0) False [] (hal_mode_record True s1)"
      using b(3) that fits by simp
    show ?thesis
      by (rule link_recording.recording_upd [OF r])
        (use r in \<open>simp_all add: recording_def wired_def rec_start_def hal_mode_record_def outlet_def\<close>)
  qed
  ultimately show thesis by (intro that) auto
qed

lemma vector_data_block: "vector_data kBlockBufferBytes = Some (replicate 256 0)"
  by (simp add: vector_data_def kBlockBufferBytes_def)

text \<open>Ending: the writer is finished, and what is still in the ring goes out over the link.\<close>

lemma buffered_ends:
  fixes s :: "('c, 'z) host"
  assumes r: "link_recorded n bs0 w False log s"
  obtains s1 s2 b hist cur rest where "rec_stop (host_program caps) ts s = Some s1" "drain_all s1 = Some s2"
    "tw_closed Recorder_sink True sent_bytes (link_inv n) bs0 (log @ [stop_event ts]) b hist cur (the_writer s1) s1"
    "the_writer s2 = the_writer s1" "g_state s2 = g_state s" "link_received s2 @ rest = sent_bytes s1" "n \<noteq> 0 \<longrightarrow> rest = []"
proof -
  obtain b s1 hist cur where 1: "call_writer (tw_finish host_sinks ts) s = Some (b, s1)" "core s1 = core s"
    "tw_closed Recorder_sink True sent_bytes (link_inv n) bs0 (log @ [stop_event ts]) b hist cur (the_writer s1) s1"
    using link_recording.finish_recording [OF r] by blast
  let ?s = "(hal_mode_off s1)\<lparr>rec_started := False\<rparr>"
  have inv: "link_inv n s1" using 1(3) by (auto simp: tw_closed_def sink_at_def split: if_splits)
  then have "rb_ready (the_ring ?s)" by (simp add: link_inv_def hal_mode_off_def)
  from drain_all_empties [OF this] obtain s2 where 2: "drain_all ?s = Some s2" "sent_bytes s2 = sent_bytes ?s"
    "drain_view s2 = drain_view ?s" "link_per_call ?s \<noteq> 0 \<longrightarrow> rb_contents (the_ring s2) = []" by blast
  have "rec_stop (host_program caps) ts s = Some ?s" using 1(1) by (simp add: rec_stop_def)
  moreover have "tw_closed Recorder_sink True sent_bytes (link_inv n) bs0 (log @ [stop_event ts]) b hist cur (the_writer ?s) ?s"
    using 1(3) by (auto simp: tw_closed_def sink_at_def hal_mode_off_def link_inv_def split: if_splits)
  moreover have "the_writer s2 = the_writer ?s" "g_state s2 = g_state s"
    using drain_view_eq(8,10) [OF 2(3)] core_eq(8) [OF 1(2)] by (simp_all add: hal_mode_off_def)
  moreover have "link_received s2 @ rb_contents (the_ring s2) = sent_bytes ?s" using 2(2) by simp
  moreover have "n \<noteq> 0 \<longrightarrow> rb_contents (the_ring s2) = []" using 2(4) inv by (simp add: link_inv_def hal_mode_off_def)
  ultimately show thesis using 2(1) by (intro that)
qed

lemma record_buffered_refused:
  fixes s :: "('c, 'z) host"
  assumes "\<not> ring_fits (bc_ring_capacity bc)"
  shows "\<exists>s'. record_buffered caps bc s = Some (br_zero, s')"
proof -
  let ?cfg = "bc_run bc" and ?c = "bc_link_per_call bc"
  define a where "a = s\<lparr>the_mcu := mc_init (cfg_seed ?cfg) (cfg_tx_total ?cfg), the_writer := tw_new, the_ring := rb_new,
    rec_started := False, link_received := [], link_per_call := ?c,
    g_ops := Some Ops_mcu, g_writer := False, g_mode := MODE_OFF, g_mask_depth := 0, g_in_isr := False,
    g_divergence := None, g_isr := rx_vectors, g_state := rx_pump_empty\<rparr>"
  have a: "wired Ops_mcu MODE_OFF False False a" "the_writer a = tw_new" "link_received a = []"
    by (simp_all add: a_def wired_def rx_pump_empty_ok)
  have start: "start_firmware Ops_mcu (s\<lparr>the_mcu := mc_init (cfg_seed ?cfg) (cfg_tx_total ?cfg), the_writer := tw_new,
       the_ring := rb_new, rec_started := False, link_received := [], link_per_call := ?c\<rparr>) = Some a"
    by (simp add: start_firmware_Some a_def)
  obtain b where "rec_begin (host_program caps) Recorder_sink (vector_data (bc_ring_capacity bc)) (bc_ring_capacity bc)
      (vector_data kBlockBufferBytes) kBlockBufferBytes (build_id_for (cfg_variant ?cfg)) (cfg_seed ?cfg) (cfg_flags ?cfg) a = Some (False, b)"
    by (rule buffered_begins [OF a, of caps "bc_ring_capacity bc" "build_id_for (cfg_variant ?cfg)" "cfg_seed ?cfg" "cfg_flags ?cfg"])
      (use assms in simp)
  then show ?thesis using start by (simp add: record_buffered_def Let_def)
qed

text \<open>
  What \<^verbatim>\<open>record_buffered\<close> does once begun: the sliced run is made from \<^verbatim>\<open>s0\<close> to \<^verbatim>\<open>s1\<close>, recording
  \<^verbatim>\<open>\<Delta>\<close>; at \<^verbatim>\<open>s2\<close> the writer is finished; the link is drained of all but \<^verbatim>\<open>rest\<close>.
\<close>

definition buffered_run :: "('c, ('c, 'z) host) captures \<Rightarrow> buffered_config \<Rightarrow> buffered_result \<Rightarrow> ('c, 'z) host \<Rightarrow>
    ('c, 'z) host \<Rightarrow> ('c, 'z) host \<Rightarrow> event list \<Rightarrow> history \<Rightarrow> event list \<Rightarrow> bytes \<Rightarrow> bool" where
  "buffered_run caps bc r s0 s1 s2 \<Delta> hist cur rest \<longleftrightarrow>
     recorded_run caps (sliced_run bc) s0 s1 \<Delta> \<and> (\<forall>e \<in> set \<Delta>. ev_ok e) \<and>
     paced 0 0 ((next_pace ^^ unat (cfg_main_iters (sliced_run bc))) (5 * unat (cfg_tx_total (bc_run bc)))) \<Delta> s1 \<and>
     (cfg_main_iters (sliced_run bc) = 0 \<longrightarrow> \<Delta> = [] \<and> g_state s1 = rx_pump_empty) \<and>
     br_began r \<and> br_fw r = snapshot (g_state s1) \<and>
     br_healthy r = (tw_ok (the_writer s2) \<and> br_blocks_lost r = 0 \<and> br_ring_drops r = 0) \<and>
     br_blocks_lost r = tw_blocks_lost (the_writer s2) \<and> br_events r = tw_events (the_writer s2) \<and>
     br_trace r @ rest = sent_bytes s2 \<and> (bc_link_per_call bc \<noteq> 0 \<longrightarrow> rest = []) \<and>
     tw_closed Recorder_sink True sent_bytes (link_inv (bc_link_per_call bc))
      (header_bytes (build_id_for (cfg_variant (bc_run bc))) (cfg_seed (bc_run bc)) (cfg_flags (bc_run bc)))
      (\<Delta> @ [stop_event (mc_cycles (the_mcu s1))]) (tw_ok (the_writer s2)) hist cur (the_writer s2) s2"

lemma record_buffered_outcome:
  fixes s :: "('c, 'z) host"
  assumes "ring_fits (bc_ring_capacity bc)"
  obtains r s' s0 s1 and s2 :: "('c, 'z) host" and \<Delta> hist cur rest where "record_buffered caps bc s = Some (r, s')"
    "buffered_run caps bc r s0 s1 s2 \<Delta> hist cur rest"
proof -
  let ?cfg = "bc_run bc" and ?c = "bc_link_per_call bc"
  let ?bs0 = "header_bytes (build_id_for (cfg_variant ?cfg)) (cfg_seed ?cfg) (cfg_flags ?cfg)"
  let ?w = "cfg_flags ?cfg AND kFlagRecordWrites \<noteq> 0" and ?a = "5 * unat (cfg_tx_total ?cfg)"
  let ?per = "cfg_main_iters ?cfg div slice_count bc"
  define a where "a = s\<lparr>the_mcu := mc_init (cfg_seed ?cfg) (cfg_tx_total ?cfg), the_writer := tw_new, the_ring := rb_new,
    rec_started := False, link_received := [], link_per_call := ?c,
    g_ops := Some Ops_mcu, g_writer := False, g_mode := MODE_OFF, g_mask_depth := 0, g_in_isr := False,
    g_divergence := None, g_isr := rx_vectors, g_state := rx_pump_empty\<rparr>"
  have a: "wired Ops_mcu MODE_OFF False False a" "the_writer a = tw_new" "link_received a = []" "g_state a = rx_pump_empty"
    "the_mcu a = mc_init (cfg_seed ?cfg) (cfg_tx_total ?cfg)" "link_per_call a = ?c"
    by (simp_all add: a_def wired_def rx_pump_empty_ok)
  have start: "start_firmware Ops_mcu (s\<lparr>the_mcu := mc_init (cfg_seed ?cfg) (cfg_tx_total ?cfg), the_writer := tw_new,
       the_ring := rb_new, rec_started := False, link_received := [], link_per_call := ?c\<rparr>) = Some a"
    by (simp add: start_firmware_Some a_def)
  obtain b where b: "rec_begin (host_program caps) Recorder_sink (vector_data (bc_ring_capacity bc)) (bc_ring_capacity bc)
      (vector_data kBlockBufferBytes) kBlockBufferBytes (build_id_for (cfg_variant ?cfg)) (cfg_seed ?cfg) (cfg_flags ?cfg) a = Some (True, b)"
    "core b = core (a\<lparr>rec_started := rec_started b\<rparr>)" "link_recorded ?c ?bs0 ?w False [] (rec_start b)"
    by (rule buffered_begins [OF a(1-3), of caps "bc_ring_capacity bc" "build_id_for (cfg_variant ?cfg)" "cfg_seed ?cfg" "cfg_flags ?cfg"])
      (use assms a(6) in simp)
  have fresh: "g_state (rec_start b) = rx_pump_empty" "the_mcu (rec_start b) = mc_init (cfg_seed ?cfg) (cfg_tx_total ?cfg)"
    using core_eq(8,9) [OF b(2)] a(4,5) by (simp_all add: rec_start_def hal_mode_record_def)
  then have "paced 0 0 ?a [] (rec_start b)" by (intro paced_start) simp_all
  from run_slices_recorded [OF b(3) this, of caps "cfg_variant ?cfg" ?per "bc_drain_budget bc" "unat (slice_count bc)"]
  obtain s1 \<Delta> where s1: "run_slices (host_program caps) (cfg_variant ?cfg) ?per (bc_drain_budget bc) (unat (slice_count bc)) (rec_start b) = Some s1"
    "link_recorded ?c ?bs0 ?w False \<Delta> s1" "paced 0 0 ((next_pace ^^ unat (cfg_main_iters (sliced_run bc))) ?a) \<Delta> s1"
    "slices_to caps (cfg_variant ?cfg) ?w (unat (cfg_main_iters (sliced_run bc))) \<Delta> (rec_start b) s1"
    unfolding sliced_run_iters by auto
  have now: "hal_now (host_program caps) s1 = Some (mc_cycles (the_mcu s1), s1)"
    using s1(2) by (intro hal_now_mcu [where m = MODE_RECORD and w = True and h = False]) (simp add: recording_def)
  obtain s2 s3 ok hist cur rest where 2: "rec_stop (host_program caps) (mc_cycles (the_mcu s1)) s1 = Some s2" "drain_all s2 = Some s3"
    "tw_closed Recorder_sink True sent_bytes (link_inv ?c) ?bs0 (\<Delta> @ [stop_event (mc_cycles (the_mcu s1))]) ok hist cur (the_writer s2) s2"
    "the_writer s3 = the_writer s2" "g_state s3 = g_state s1" "link_received s3 @ rest = sent_bytes s2" "?c \<noteq> 0 \<longrightarrow> rest = []"
    using buffered_ends [OF s1(2)] by blast
  have run: "recorded_run caps (sliced_run bc) (rec_start b) s1 \<Delta>"
    using b(3) fresh(1) s1(4)
    by (simp add: recorded_run_def recording_def slices_to_def rx_pump_run_def [abs_def] sliced_run_iters)
      (simp add: sliced_run_def sliced_run_iters)
  define r where "r = \<lparr>br_trace = link_received s3, br_fw = snapshot (g_state s3),
         br_blocks_lost = tw_blocks_lost (the_writer s3), br_ring_drops = rb_drops (the_ring s3),
         br_bytes_lost = rb_bytes_dropped (the_ring s3), br_high_water = rb_high_water (the_ring s3),
         br_events = tw_events (the_writer s3), br_tx_sent = mc_tx_sent (the_mcu s3),
         br_tx_checksum = mc_tx_checksum (the_mcu s3), br_healthy = rec_healthy s3,
         br_began = True\<rparr>"
  have rec: "record_buffered caps bc s = Some (r, hal_reset s3)"
    using start b(1) s1(1) now 2(1,2) by (simp add: record_buffered_def Let_def slice_count_def [symmetric] r_def)
  have "br_began r" "br_fw r = snapshot (g_state s1)"
    "br_healthy r = (tw_ok (the_writer s2) \<and> br_blocks_lost r = 0 \<and> br_ring_drops r = 0)"
    "br_blocks_lost r = tw_blocks_lost (the_writer s2)" "br_events r = tw_events (the_writer s2)" "br_trace r @ rest = sent_bytes s2"
    using 2(4-6) by (simp_all add: r_def rec_healthy_def)
  moreover have "\<forall>e \<in> set \<Delta>. ev_ok e" using s1(2) by (simp add: recording_def)
  moreover have "cfg_main_iters (sliced_run bc) = 0 \<longrightarrow> \<Delta> = [] \<and> g_state s1 = rx_pump_empty"
    using s1(4) fresh(1) by (simp add: slices_to_def)
  moreover have "ok = tw_ok (the_writer s2)" using 2(3) by (simp add: tw_closed_def)
  ultimately have "buffered_run caps bc r (rec_start b) s1 s2 \<Delta> hist cur rest"
    using run s1(3) 2(3,7) unfolding buffered_run_def by simp
  with rec show thesis by (rule that)
qed

lemma of_nat_u32_0: "length xs < 4294967296 \<Longrightarrow> (of_nat (length xs) :: u32) = 0 \<Longrightarrow> xs = []"
  using nat_dvd_not_less [of "length xs" 4294967296] by (auto simp: word_of_nat_eq_0_iff)

lemma blocks_le_events: "\<forall>b \<in> set hist. fst b \<noteq> [] \<Longrightarrow> length hist \<le> length (hist_events hist)"
proof (induction hist)
  case (Cons b hist)
  then show ?case by (cases "fst b") (auto simp: hist_events_def)
qed simp

lemma br_zero_sel: "br_began br_zero = False" "br_healthy br_zero = False"
  by (simp_all add: br_zero_def)

text \<open>What a healthy run that is small enough leaves in the link.\<close>

lemma healthy_stream:
  fixes s2 :: "('c, 'z) host"
  assumes run: "buffered_run caps bc r s0 s1 s2 \<Delta> hist cur rest" and healthy: "br_healthy r" "bc_link_per_call bc \<noteq> 0"
    and small: "43 * (unat (cfg_main_iters (sliced_run bc)) + 5 * unat (cfg_tx_total (bc_run bc)) + 1) + 36 \<le> 0xFFFFFFFF"
  shows "br_trace r = header_bytes (build_id_for (cfg_variant (bc_run bc))) (cfg_seed (bc_run bc)) (cfg_flags (bc_run bc)) @
      frames_of 0 (0, 0) hist @ put_u32_le 0"
    and "length (br_trace r) \<le> 0xFFFFFFFF" "\<forall>b \<in> set hist. fst b \<noteq> [] \<and> snd b"
    and "hist_events hist = \<Delta> @ [stop_event (mc_cycles (the_mcu s1))]" "\<forall>e \<in> set (hist_events hist). ev_ok e"
    and "br_events r = of_nat (length (hist_events hist))"
proof -
  let ?n = "unat (cfg_main_iters (sliced_run bc))" and ?a = "5 * unat (cfg_tx_total (bc_run bc))" and ?ts = "mc_cycles (the_mcu s1)"
  have out: "\<forall>e \<in> set \<Delta>. ev_ok e" "paced 0 0 ((next_pace ^^ ?n) ?a) \<Delta> s1"
    "br_healthy r = (tw_ok (the_writer s2) \<and> br_blocks_lost r = 0 \<and> br_ring_drops r = 0)"
    "br_blocks_lost r = tw_blocks_lost (the_writer s2)" "br_events r = tw_events (the_writer s2)"
    "br_trace r @ rest = sent_bytes s2" "bc_link_per_call bc \<noteq> 0 \<longrightarrow> rest = []"
    and closed: "tw_closed Recorder_sink True sent_bytes (link_inv (bc_link_per_call bc))
      (header_bytes (build_id_for (cfg_variant (bc_run bc))) (cfg_seed (bc_run bc)) (cfg_flags (bc_run bc)))
      (\<Delta> @ [stop_event ?ts]) (tw_ok (the_writer s2)) hist cur (the_writer s2) s2"
    using run by (simp_all add: buffered_run_def)
  have ok: "tw_ok (the_writer s2)" "tw_blocks_lost (the_writer s2) = 0" "rest = []" using out(3,4,7) healthy by simp_all
  have "(next_pace ^^ ?n) ?a = ?a + ?n" using small by (intro next_pace_funpow) simp
  with out(2) have ordered: "in_order 0 (\<Delta> @ [stop_event ?ts]) = \<Delta> @ [stop_event ?ts]" and len: "length \<Delta> \<le> ?a + ?n"
    using paced_in_order [of 0 0 "?a + ?n" \<Delta> s1] small by simp_all
  have c: "hist_events hist = \<Delta> @ [stop_event ?ts]" "tw_rel Recorder_sink True hist [] (the_writer s2)"
    "br_trace r = header_bytes (build_id_for (cfg_variant (bc_run bc))) (cfg_seed (bc_run bc)) (cfg_flags (bc_run bc)) @
      frames_of 0 (0, 0) hist @ put_u32_le 0"
    using closed ok(1,3) out(6) ordered
    by (auto simp: tw_closed_def log_events_def sink_at_def hist_bytes_def split: if_splits)
  show "br_trace r = header_bytes (build_id_for (cfg_variant (bc_run bc))) (cfg_seed (bc_run bc)) (cfg_flags (bc_run bc)) @
      frames_of 0 (0, 0) hist @ put_u32_le 0" "hist_events hist = \<Delta> @ [stop_event ?ts]" by (rule c)+
  have nonempty: "\<forall>b \<in> set hist. fst b \<noteq> []" using c(2) by (simp add: tw_rel_def)
  have "length hist < 4294967296" using blocks_le_events [OF nonempty] len small c(1) by simp
  with length_filter_le have "length (filter (\<lambda>b. \<not> snd b) hist) < 4294967296" by (rule le_less_trans)
  moreover have "(of_nat (length (filter (\<lambda>b. \<not> snd b) hist)) :: u32) = 0" using c(2) ok(2) by (simp add: tw_rel_def)
  ultimately have "filter (\<lambda>b. \<not> snd b) hist = []"
    using of_nat_u32_0 by blast
  then show "\<forall>b \<in> set hist. fst b \<noteq> [] \<and> snd b" using nonempty by (auto simp: filter_empty_conv)
  show "\<forall>e \<in> set (hist_events hist). ev_ok e" using out(1) c(1) by (auto simp: stop_event_def)
  show "br_events r = of_nat (length (hist_events hist))" using out(5) c(2) by (simp add: tw_rel_def)
  have "length (br_trace r) \<le> 36 + 43 * (length \<Delta> + 1)"
    using length_frames_of [OF nonempty, of 0 "(0, 0)"] c(1,3) by simp
  then show "length (br_trace r) \<le> 0xFFFFFFFF" using len small by simp
qed

section \<open>Properties\<close>



text \<open>
  C30. A sizing run with more slices than iterations runs nothing: the firmware is never
  called, and the one event recorded is the stop event.
\<close>

theorem too_many_slices_run_nothing:
  fixes s :: "('c, 'z) host"
  assumes "ring_fits (bc_ring_capacity bc)" "cfg_main_iters (bc_run bc) < bc_slices bc"
  shows "\<exists>r s'. record_buffered caps bc s = Some (r, s') \<and> br_began r \<and> br_fw r = snapshot rx_pump_empty \<and> br_events r = 1"
proof -
  have "cfg_main_iters (sliced_run bc) = 0"
    using assms(2) by (auto simp: sliced_run_def slice_count_def word_less_nat_alt word_arith_nat_div div_less)
  moreover obtain r s' s0 s1 and s2 :: "('c, 'z) host" and \<Delta> hist cur rest where rec: "record_buffered caps bc s = Some (r, s')"
    and run: "buffered_run caps bc r s0 s1 s2 \<Delta> hist cur rest"
    using record_buffered_outcome [OF assms(1), of caps s] by blast
  ultimately have "\<Delta> = []" "br_fw r = snapshot rx_pump_empty" by (simp_all add: buffered_run_def)
  moreover have "tw_rel Recorder_sink True hist cur (the_writer s2)" "br_events r = tw_events (the_writer s2)"
    "log_events (hist, cur) = in_order 0 (\<Delta> @ [stop_event (mc_cycles (the_mcu s1))])"
    using run by (simp_all add: buffered_run_def tw_closed_def)
  then have "br_events r = of_nat (length (in_order 0 (\<Delta> @ [stop_event (mc_cycles (the_mcu s1))])))"
    by (metis fst_conv log_events_def snd_conv tw_rel_def)
  ultimately show ?thesis using rec run by (auto simp: stop_event_def buffered_run_def)
qed

section \<open>The properties at a concrete run\<close>

text \<open>Two iterations in two slices, through a ring of 128 bytes and a link that takes 8 at a time.\<close>

definition demo_buffered :: buffered_config where
  "demo_buffered = \<lparr>bc_run = default_config\<lparr>cfg_main_iters := 2, cfg_tx_total := 1\<rparr>, bc_ring_capacity = 128,
     bc_drain_budget = 4096, bc_link_per_call = 8, bc_slices = 2\<rparr>"

text \<open>The loops compute by their equations.\<close>

declare rec_drain_loop.simps [code] drain_all.simps [code] pump_loop.simps [code]

lemma demo_buffered_healthy:
  obtains r s' where "record_buffered no_captures demo_buffered boot = Some (r, s')" "br_healthy r"
proof -
  have "map_option (\<lambda>(r, _). br_healthy r) (record_buffered no_captures demo_buffered boot) = Some True" by code_simp
  then show thesis using that by auto
qed



theorem too_many_slices_run_nothing_witness:
  "\<exists>r s'. record_buffered no_captures (demo_buffered\<lparr>bc_slices := 3\<rparr>) boot = Some (r, s') \<and> br_began r \<and> br_events r = 1"
proof -
  have "ring_fits (bc_ring_capacity (demo_buffered\<lparr>bc_slices := 3\<rparr>))"
    "cfg_main_iters (bc_run (demo_buffered\<lparr>bc_slices := 3\<rparr>)) < bc_slices (demo_buffered\<lparr>bc_slices := 3\<rparr>)"
    by (simp_all add: demo_buffered_def ring_fits_def is_power_of_two_def)
  from too_many_slices_run_nothing [OF this, of no_captures boot] show ?thesis by auto
qed

end
