(* ===== verification/Timeline.thy ===== *)
theory Timeline
  imports Replay_Determinism
begin

text \<open>
  Reverse execution, \<^verbatim>\<open>host/src/timeline.cpp\<close>: a recorded run is replayed once with a checkpoint
  every so many iterations of the main loop, and a seek replays from the nearest one.
  \<^verbatim>\<open>pending_\<close> points to a local of the seek; the model keeps what it points to.
\<close>

section \<open>State\<close>

record checkpoint =
  cp_main_iter :: u32
  cp_cursor :: nat
  cp_ts :: u64
  cp_fw :: fw_state

record tl_snapshot =
  sn_event_index :: nat
  sn_ts :: u64
  sn_main_iter :: u32
  sn_state_hash :: u64
  sn_valid :: bool
  sn_fw :: fw_state

definition sn_new :: tl_snapshot where
  "sn_new = \<lparr>sn_event_index = 0, sn_ts = 0, sn_main_iter = 0, sn_state_hash = 0, sn_valid = False,
     sn_fw = rx_pump_empty\<rparr>"

record timeline =
  tl_checkpoints :: "checkpoint list"
  tl_variant :: variant
  tl_main_iters :: u32
  tl_checkpoint_every :: u32
  tl_event_count :: nat
  tl_position :: nat
  tl_last_search_seeks :: u32
  tl_opened :: bool
  tl_error :: string
  tl_pending :: "tl_snapshot option"
  tl_current_iter :: u32

definition tl_new :: timeline where
  "tl_new = \<lparr>tl_checkpoints = [], tl_variant = kBuggy, tl_main_iters = 0, tl_checkpoint_every = 128,
     tl_event_count = 0, tl_position = 0, tl_last_search_seeks = 0, tl_opened = False, tl_error = '''',
     tl_pending = None, tl_current_iter = 0\<rparr>"

text \<open>The member \<^verbatim>\<open>replay_\<close> is the replay backend of the machine; one function is ever called back.\<close>

datatype capture_addr = Timeline_capture

record timeline_world = "capture_addr world" +
  the_timeline :: timeline

type_synonym 'z tl = "'z timeline_world_scheme"

definition tl_upd :: "(timeline \<Rightarrow> timeline) \<Rightarrow> 'z tl \<Rightarrow> 'z tl" where
  "tl_upd f s = s\<lparr>the_timeline := f (the_timeline s)\<rparr>"

section \<open>Operations\<close>

definition tl_install :: "fw_state \<Rightarrow> nat \<Rightarrow> u64 \<Rightarrow> 'z tl \<Rightarrow> 'z tl option" where
  "tl_install state cursor ts s = do {
     let s = rx_pump_reset (hal_reset s);
     s \<leftarrow> rx_pump_install s;
     let s = hal_attach (Some Ops_replay) (rx_pump_restore state s);
     Some (rp_upd (rp_set_cursor cursor ts) (hal_mode_replay s))
   }"

definition tl_capture :: "'z tl \<Rightarrow> 'z tl option" where
  "tl_capture s =
     (case tl_pending (the_timeline s) of
        None \<Rightarrow> Some s
      | Some snap \<Rightarrow> Some (tl_upd (\<lambda>tl. tl\<lparr>tl_pending := Some (snap\<lparr>sn_fw := g_state s,
          sn_state_hash := rx_pump_state_hash (g_state s), sn_ts := rp_now (the_replay s),
          sn_main_iter := tl_current_iter tl, sn_valid := True\<rparr>)\<rparr>) s))"

fun tl_captures :: "(capture_addr, 'z tl) captures" where
  "tl_captures Timeline_capture = tl_capture"

abbreviation tl_program :: "(backend, handler, sink_addr, 'z tl) linkage" where
  "tl_program \<equiv> host_program tl_captures"

definition add_checkpoint :: "u32 \<Rightarrow> 'z tl \<Rightarrow> 'z tl" where
  "add_checkpoint iter s =
     (if iter mod tl_checkpoint_every (the_timeline s) = 0
      then tl_upd (\<lambda>tl. tl\<lparr>tl_checkpoints := tl_checkpoints tl @ [\<lparr>cp_main_iter = iter,
        cp_cursor = rp_cursor (the_replay s), cp_ts = rp_now (the_replay s), cp_fw = g_state s\<rparr>]\<rparr>) s
      else s)"

text \<open>The loops count iterations from \<^verbatim>\<open>iter\<close>; the first argument is how many are left.\<close>

fun open_passes :: "nat \<Rightarrow> u32 \<Rightarrow> 'z tl \<Rightarrow> 'z tl option" where
  "open_passes 0 iter s = Some s"
| "open_passes (Suc n) iter s = (let s = add_checkpoint iter s in do {
     s \<leftarrow> rx_pump_run tl_program (tl_variant (the_timeline s)) 1 s;
     open_passes n (iter + 1) s
   })"

definition tl_open :: "bytes \<Rightarrow> u32 \<Rightarrow> u32 \<Rightarrow> 'z tl \<Rightarrow> (bool \<times> 'z tl) option" where
  "tl_open trace main_iters checkpoint_every s = do {
     let s = tl_upd (\<lambda>tl. tl\<lparr>tl_opened := False, tl_checkpoints := [], tl_error := ''''\<rparr>) s;
     (loaded, rp) \<leftarrow> rp_load trace (the_replay s);
     let s = s\<lparr>the_replay := rp\<rparr>;
     if \<not> loaded then Some (False, tl_upd (\<lambda>tl. tl\<lparr>tl_error := rp_error rp\<rparr>) s)
     else case variant_for_build_id (h_build_id (rp_header rp)) of
       None \<Rightarrow> Some (False,
         tl_upd (\<lambda>tl. tl\<lparr>tl_error := ''trace was recorded by an unknown firmware build''\<rparr>) s)
     | Some variant \<Rightarrow> do {
         let s = tl_upd (\<lambda>tl. tl\<lparr>tl_variant := variant, tl_main_iters := main_iters,
           tl_checkpoint_every := (if checkpoint_every \<noteq> 0 then checkpoint_every else 1)\<rparr>) s;
         s \<leftarrow> tl_install rx_pump_empty 0 0 s;
         let s = rp_upd rp_clear_capture_point s;
         s \<leftarrow> open_passes (unat main_iters) 0 s;
         let s = tl_upd (\<lambda>tl. tl\<lparr>tl_event_count := rp_cursor (the_replay s)\<rparr>) s;
         let s = hal_reset s;
         Some (True, tl_upd (\<lambda>tl. tl\<lparr>tl_position := 0, tl_opened := True\<rparr>) s)
       }
   }"

fun nearest_from :: "checkpoint list \<Rightarrow> nat \<Rightarrow> checkpoint option \<Rightarrow> checkpoint option" where
  "nearest_from [] event_index best = best"
| "nearest_from (cp # cps) event_index best =
     (if cp_cursor cp \<le> event_index then nearest_from cps event_index (Some cp) else best)"

definition tl_nearest :: "nat \<Rightarrow> timeline \<Rightarrow> checkpoint option" where
  "tl_nearest event_index T = nearest_from (tl_checkpoints T) event_index None"

fun seek_passes :: "nat \<Rightarrow> u32 \<Rightarrow> 'z tl \<Rightarrow> 'z tl option" where
  "seek_passes 0 iter s = Some s"
| "seek_passes (Suc n) iter s = (let s = tl_upd (\<lambda>tl. tl\<lparr>tl_current_iter := iter\<rparr>) s in
     if rp_captured (the_replay s) then Some s
     else do {
       s \<leftarrow> rx_pump_run tl_program (tl_variant (the_timeline s)) 1 s;
       seek_passes n (iter + 1) s
     })"

text \<open>A seek once its checkpoint has been chosen.\<close>

definition seek_from :: "checkpoint \<Rightarrow> nat \<Rightarrow> 'z tl \<Rightarrow> (bool \<times> tl_snapshot option \<times> 'z tl) option" where
  "seek_from cp event_index s = do {
     let snap = sn_new\<lparr>sn_event_index := event_index\<rparr>;
     s \<leftarrow> tl_install (cp_fw cp) (cp_cursor cp) (cp_ts cp) s;
     let s = tl_upd (\<lambda>tl. tl\<lparr>tl_pending := Some snap, tl_current_iter := cp_main_iter cp\<rparr>) s;
     let s = rp_upd (rp_set_capture_point event_index (Some Timeline_capture)) s;
     s \<leftarrow> seek_passes (unat (tl_main_iters (the_timeline s)) - unat (cp_main_iter cp)) (cp_main_iter cp) s;
     snap \<leftarrow> tl_pending (the_timeline s);
     let snap = (if \<not> rp_captured (the_replay s)
       then snap\<lparr>sn_fw := g_state s, sn_state_hash := rx_pump_state_hash (g_state s),
         sn_ts := rp_now (the_replay s), sn_main_iter := tl_main_iters (the_timeline s), sn_valid := True\<rparr>
       else snap);
     let s = rp_upd rp_clear_capture_point (tl_upd (\<lambda>tl. tl\<lparr>tl_pending := None\<rparr>) s);
     let s = tl_upd (\<lambda>tl. tl\<lparr>tl_position := event_index\<rparr>) (hal_reset s);
     Some (sn_valid snap, Some snap, s)
   }"

text \<open>\<^verbatim>\<open>out\<close> is a pointer: null, or what it points to before and after the call.\<close>

definition tl_seek :: "nat \<Rightarrow> tl_snapshot option \<Rightarrow> 'z tl \<Rightarrow> (bool \<times> tl_snapshot option \<times> 'z tl) option" where
  "tl_seek event_index out s =
     (let T = the_timeline s in
      if \<not> tl_opened T \<or> out = None then Some (False, out, s)
      else
        let event_index = (if event_index > tl_event_count T then tl_event_count T else event_index) in
        case tl_nearest event_index T of
          None \<Rightarrow> Some (False, out,
            tl_upd (\<lambda>tl. tl\<lparr>tl_error := ''no checkpoint at or before the requested event''\<rparr>) s)
        | Some cp \<Rightarrow> seek_from cp event_index s)"

definition count_seek :: "'z tl \<Rightarrow> 'z tl" where
  "count_seek s = tl_upd (\<lambda>tl. tl\<lparr>tl_last_search_seeks := tl_last_search_seeks tl + 1\<rparr>) s"

partial_function (option) tl_bisect ::
  "(tl_snapshot \<Rightarrow> bool) \<Rightarrow> nat \<Rightarrow> nat \<Rightarrow> tl_snapshot \<Rightarrow> 'z tl \<Rightarrow> (bool \<times> nat \<times> 'z tl) option" where
  "tl_bisect pred lo hi probe s =
     (if lo < hi then do {
        let mid = lo + (hi - lo) div 2;
        (ok, out, s) \<leftarrow> tl_seek mid (Some probe) (count_seek s);
        probe \<leftarrow> out;
        if \<not> ok then Some (False, lo, s)
        else if pred probe then tl_bisect pred lo mid probe s
        else tl_bisect pred (mid + 1) hi probe s
      } else Some (True, lo, s))"

definition tl_find_first ::
  "(tl_snapshot \<Rightarrow> bool) option \<Rightarrow> tl_snapshot option \<Rightarrow> 'z tl \<Rightarrow> (bool \<times> tl_snapshot option \<times> 'z tl) option" where
  "tl_find_first pred out s =
     (case pred of
        None \<Rightarrow> Some (False, out, s)
      | Some p \<Rightarrow>
          if \<not> tl_opened (the_timeline s) \<or> out = None then Some (False, out, s)
          else do {
            let s = tl_upd (\<lambda>tl. tl\<lparr>tl_last_search_seeks := 0\<rparr>) s;
            (ok, end, s) \<leftarrow> tl_seek (tl_event_count (the_timeline s)) (Some sn_new) (count_seek s);
            probe \<leftarrow> end;
            if \<not> ok \<or> \<not> p probe then Some (False, out, s)
            else do {
              (ok, lo, s) \<leftarrow> tl_bisect p 0 (tl_event_count (the_timeline s)) probe s;
              if \<not> ok then Some (False, out, s)
              else tl_seek lo out (count_seek s)
            }
          })"

text \<open>\<^verbatim>\<open>position_ + n\<close> is computed in 64 bits.\<close>

definition tl_step_back :: "nat \<Rightarrow> tl_snapshot option \<Rightarrow> 'z tl \<Rightarrow> (bool \<times> tl_snapshot option \<times> 'z tl) option" where
  "tl_step_back n out s =
     tl_seek (if n > tl_position (the_timeline s) then 0 else tl_position (the_timeline s) - n) out s"

definition tl_step_forward :: "nat \<Rightarrow> tl_snapshot option \<Rightarrow> 'z tl \<Rightarrow> (bool \<times> tl_snapshot option \<times> 'z tl) option" where
  "tl_step_forward n out s = tl_seek ((tl_position (the_timeline s) + n) mod 2 ^ 64) out s"

end
