(* ===== verification/Timeline_Seek.thy ===== *)
theory Timeline_Seek
  imports Timeline
begin

text \<open>
  A seek from a checkpoint finds what replaying from the beginning finds. The pass that built
  the checkpoints, a seek from one of them and a seek from the start are kept side by side.
\<close>

section \<open>The timeline as a client of the capture point\<close>

definition tl_blank :: "capture_addr world" where
  "tl_blank = \<lparr>g_ops = None, g_writer = False, g_mode = MODE_OFF, g_isr = replicate 8 None, g_mask_depth = 0,
     g_in_isr = False, g_divergence = None, the_writer = tw_new, the_ring = rb_new, rec_started = False,
     g_state = rx_pump_empty, the_replay = rp_new, the_mcu = mc_init 0 0, sink_bytes = [],
     link_received = [], link_per_call = 0\<rparr>"

text \<open>The timeline in what a state has beyond the rest of the machine.\<close>

definition tl_part :: "'z timeline_world_ext \<Rightarrow> timeline" where
  "tl_part m = the_timeline (world.extend tl_blank m)"

lemma tl_part_more [simp]: "tl_part (world.more s) = the_timeline s"
  by (cases s) (simp add: tl_part_def world.extend_def)

text \<open>What a capture reads and writes of it, what it leaves there, and the rest.\<close>

definition tl_scratch :: "timeline \<Rightarrow> tl_snapshot option \<times> u32" where
  "tl_scratch T = (tl_pending T, tl_current_iter T)"

definition tl_fired :: "tl_snapshot option \<times> u32 \<Rightarrow> bool" where
  "tl_fired v \<longleftrightarrow> (case fst v of None \<Rightarrow> True | Some snap \<Rightarrow> sn_valid snap)"

definition tl_static :: "timeline \<Rightarrow> timeline \<times> nat option" where
  "tl_static T = (T\<lparr>tl_pending := None, tl_current_iter := 0\<rparr>, map_option sn_event_index (tl_pending T))"

lemma tl_upd_sel [simp]:
  "the_timeline (tl_upd f s) = f (the_timeline s)" "the_replay (tl_upd f s) = the_replay s"
  "g_state (tl_upd f s) = g_state s" "g_in_isr (tl_upd f s) = g_in_isr s"
  "world.truncate (tl_upd f s) = world.truncate s"
  by (simp_all add: tl_upd_def world.truncate_def)

lemma tl_capture_Some:
  "\<exists>s'. tl_capture s = Some s' \<and> world.truncate s' = world.truncate s \<and>
     tl_static (the_timeline s') = tl_static (the_timeline s) \<and> tl_fired (tl_scratch (the_timeline s'))"
  by (cases "tl_pending (the_timeline s)")
    (simp_all add: tl_capture_def tl_static_def tl_fired_def tl_scratch_def)

interpretation timeline_client: replay_client tl_captures UNIV "\<lambda>m. tl_scratch (tl_part m)" tl_fired
  "\<lambda>m. tl_static (tl_part m)"
proof
  fix fn and s :: "'z tl"
  show "\<exists>s'. tl_captures fn s = Some s' \<and> world.truncate s' = world.truncate s \<and>
      tl_static (tl_part (world.more s')) = tl_static (tl_part (world.more s)) \<and>
      tl_fired (tl_scratch (tl_part (world.more s')))"
    using tl_capture_Some [of s] by (cases fn) simp
next
  fix fn and s t s' t' :: "'z tl"
  assume "g_state s = g_state t" "rp_now (the_replay s) = rp_now (the_replay t)"
    "tl_scratch (tl_part (world.more s)) = tl_scratch (tl_part (world.more t))"
    "tl_captures fn s = Some s'" "tl_captures fn t = Some t'"
  then show "tl_scratch (tl_part (world.more s')) = tl_scratch (tl_part (world.more t'))"
    by (cases fn; cases "tl_pending (the_timeline t)") (auto simp: tl_capture_def tl_scratch_def)
qed

abbreviation tl_same :: "bool \<Rightarrow> 'z tl \<Rightarrow> 'z tl \<Rightarrow> bool" where
  "tl_same b \<equiv> alike UNIV (\<lambda>m. tl_scratch (tl_part m)) b False"

abbreviation tl_went :: "'z tl \<Rightarrow> 'z tl \<Rightarrow> bool" where
  "tl_went \<equiv> went (\<lambda>m. tl_scratch (tl_part m)) tl_fired (\<lambda>m. tl_static (tl_part m))"

lemma tl_serving [simp]: "serving UNIV (tl_upd f s) = serving UNIV s"
  by (simp add: serving_def tl_upd_def)

text \<open>One iteration of the main loop, as each of the three runs makes it.\<close>

definition tl_iter :: "variant \<Rightarrow> 'z tl \<Rightarrow> 'z tl option" where
  "tl_iter v s = rx_pump_run tl_program v 1 s"

lemma tl_iter_determined:
  assumes "tl_same b s t" "\<not> g_in_isr s"
  obtains r q where "tl_iter v s = Some r" "tl_iter v t = Some q" "tl_same b r q" "\<not> g_in_isr r"
    "tl_went s r" "tl_went t q"
proof -
  have "g_in_isr s = False" using assms(2) by simp
  from assms(1) this obtain r q where "rx_pump_run tl_program v 1 s = Some r" "rx_pump_run tl_program v 1 t = Some q"
    "tl_same b r q" "tl_went s r" "tl_went t q"
    by (rule determinedE [OF timeline_client.run_determined [OF two_level_host_program]])
  then show thesis using that assms(2) by (auto simp: tl_iter_def went_def)
qed

fun tl_iters :: "variant \<Rightarrow> nat \<Rightarrow> 'z tl \<Rightarrow> 'z tl option" where
  "tl_iters v 0 s = Some s"
| "tl_iters v (Suc n) s = do { s \<leftarrow> tl_iter v s; tl_iters v n s }"

lemma tl_iters_snoc: "tl_iters v (Suc n) s = Option.bind (tl_iters v n s) (tl_iter v)"
proof (induction n arbitrary: s)
  case 0
  then show ?case by (cases "tl_iter v s") simp_all
next
  case (Suc n)
  then show ?case by (cases "tl_iter v s") simp_all
qed

lemma tl_iters_same:
  assumes "tl_same False s t" "\<not> g_in_isr s" "tl_iters v n s = Some r"
  shows "\<exists>q. tl_iters v n t = Some q \<and> tl_same False r q \<and> \<not> g_in_isr r"
  using assms
proof (induction n arbitrary: s t)
  case (Suc n)
  from Suc.prems(1,2) obtain s1 t1 where 1: "tl_iter v s = Some s1" "tl_iter v t = Some t1" "tl_same False s1 t1"
    "\<not> g_in_isr s1" by (rule tl_iter_determined)
  with Suc.IH [OF 1(3,4)] Suc.prems(3) show ?case by simp
qed simp

text \<open>What is left alone: the index of the run, and the events it is replayed from.\<close>

definition tl_index :: "timeline \<Rightarrow> checkpoint list \<times> variant \<times> u32 \<times> nat \<times> bool" where
  "tl_index T = (tl_checkpoints T, tl_variant T, tl_main_iters T, tl_event_count T, tl_opened T)"

definition same_run :: "'z tl \<Rightarrow> 'z tl \<Rightarrow> bool" where
  "same_run s t \<longleftrightarrow> tl_index (the_timeline s) = tl_index (the_timeline t) \<and>
     rp_events (the_replay s) = rp_events (the_replay t) \<and>
     rp_check_writes (the_replay s) = rp_check_writes (the_replay t)"

lemma same_run_refl [simp]: "same_run s s"
  by (simp add: same_run_def)

lemma same_run_sym: "same_run s t \<Longrightarrow> same_run t s"
  by (simp add: same_run_def)

lemma same_run_trans: "same_run s t \<Longrightarrow> same_run t u \<Longrightarrow> same_run s u"
  by (simp add: same_run_def)

lemma tl_static_index: "tl_static T = tl_static T' \<Longrightarrow> tl_index T = tl_index T'"
  by (cases T; cases T') (simp add: tl_static_def tl_index_def)

lemma tl_went_run:
  assumes "tl_went s s'"
  shows "same_run s s'"
proof -
  have "tl_static (the_timeline s') = tl_static (the_timeline s)" using assms by (simp add: went_def)
  from tl_static_index [OF this] went_moved [OF assms] show ?thesis by (simp add: same_run_def)
qed

text \<open>Installing a state, and the start of a pass over the whole run.\<close>

definition installed :: "fw_state \<Rightarrow> nat \<Rightarrow> u64 \<Rightarrow> 'z tl \<Rightarrow> 'z tl" where
  "installed st cursor ts s = rp_upd (rp_set_cursor cursor ts) (s\<lparr>g_ops := Some Ops_replay,
     g_writer := False, g_mode := MODE_REPLAY, g_mask_depth := 0, g_in_isr := False, g_divergence := None,
     g_isr := rx_vectors, g_state := st\<rparr>)"

lemma tl_install_Some: "tl_install st cursor ts s = Some (installed st cursor ts s)"
  by (cases s) (simp add: tl_install_def installed_def hal_reset_def rx_pump_reset_def rx_pump_install_def
      hal_set_isr_def kIrqUartRx_def kMaxIrqVectors_def wr_def hal_attach_def rx_vectors_def
      rx_pump_restore_def hal_mode_replay_def rp_upd_def)

definition pass_start :: "'z tl \<Rightarrow> 'z tl" where
  "pass_start s = rp_upd rp_clear_capture_point (installed rx_pump_empty 0 0 s)"

lemma pass_start_same:
  "rp_events (the_replay s) = rp_events (the_replay t) \<Longrightarrow>
   rp_check_writes (the_replay s) = rp_check_writes (the_replay t) \<Longrightarrow> tl_same False (pass_start s) (pass_start t)"
  by (simp add: alike_def serving_def pass_start_def installed_def rp_upd_def
      rp_clear_capture_point_def rp_set_cursor_def rx_pump_empty_ok rp_play_def)

lemma pass_start_idle [simp]: "\<not> g_in_isr (pass_start s)"
  by (simp add: pass_start_def installed_def rp_upd_def)

text \<open>The checkpoint of the state between two iterations.\<close>

definition ckpt :: "nat \<Rightarrow> 'z tl \<Rightarrow> checkpoint" where
  "ckpt i p = \<lparr>cp_main_iter = of_nat i, cp_cursor = rp_cursor (the_replay p), cp_ts = rp_now (the_replay p),
     cp_fw = g_state p\<rparr>"

lemma ckpt_same: "tl_same b p q \<Longrightarrow> ckpt i p = ckpt i q"
  by (simp add: ckpt_def alike_def rp_play_def)

definition boundary :: "variant \<Rightarrow> 'z tl \<Rightarrow> nat \<Rightarrow> checkpoint \<Rightarrow> bool" where
  "boundary v p0 n cp \<longleftrightarrow> (\<exists>i p. i < n \<and> tl_iters v i p0 = Some p \<and> cp = ckpt i p)"

lemma boundary_same:
  assumes "tl_same False p0 q0" "\<not> g_in_isr p0" "boundary v p0 n cp"
  shows "boundary v q0 n cp"
proof -
  obtain i p where p: "i < n" "tl_iters v i p0 = Some p" "cp = ckpt i p"
    using assms(3) by (auto simp: boundary_def)
  with tl_iters_same [OF assms(1,2) p(2)] show ?thesis by (metis boundary_def ckpt_same)
qed

section \<open>The pass that builds the index\<close>

lemma add_checkpoint_sel [simp]:
  "the_replay (add_checkpoint i s) = the_replay s" "g_in_isr (add_checkpoint i s) = g_in_isr s"
  "tl_variant (the_timeline (add_checkpoint i s)) = tl_variant (the_timeline s)"
  "tl_index ((the_timeline (add_checkpoint i s))\<lparr>tl_checkpoints := []\<rparr>) = tl_index ((the_timeline s)\<lparr>tl_checkpoints := []\<rparr>)"
  by (simp_all add: add_checkpoint_def tl_index_def)

lemma add_checkpoint_same: "tl_same False (add_checkpoint i s) p = tl_same False s p"
  by (simp add: add_checkpoint_def alike_def)

lemma add_checkpoint_list:
  assumes "tl_same False s p"
  shows "\<exists>cps. tl_checkpoints (the_timeline (add_checkpoint (of_nat i) s)) = tl_checkpoints (the_timeline s) @ cps \<and>
    set cps \<subseteq> {ckpt i p} \<and> (i = 0 \<longrightarrow> cps \<noteq> [])"
  using assms by (cases "i = 0") (auto simp: add_checkpoint_def ckpt_def alike_def rp_play_def)

lemma open_passes_index:
  assumes "tl_same False s p" "\<not> g_in_isr s" "tl_iters v i p0 = Some p" "tl_variant (the_timeline s) = v"
  shows "\<exists>s' cps. open_passes n (of_nat i) s = Some s' \<and>
    tl_checkpoints (the_timeline s') = tl_checkpoints (the_timeline s) @ cps \<and> (\<forall>cp \<in> set cps. boundary v p0 (i + n) cp) \<and>
    (i = 0 \<and> 0 < n \<longrightarrow> cps \<noteq> [] \<and> hd cps = ckpt 0 p) \<and>
    tl_index ((the_timeline s')\<lparr>tl_checkpoints := []\<rparr>) = tl_index ((the_timeline s)\<lparr>tl_checkpoints := []\<rparr>) \<and>
    rp_events (the_replay s') = rp_events (the_replay s) \<and> rp_check_writes (the_replay s') = rp_check_writes (the_replay s)"
  using assms
proof (induction n arbitrary: i s p)
  case (Suc n)
  let ?s = "add_checkpoint (of_nat i) s"
  obtain c where c: "tl_checkpoints (the_timeline ?s) = tl_checkpoints (the_timeline s) @ c" "set c \<subseteq> {ckpt i p}"
    "i = 0 \<longrightarrow> c \<noteq> []" using add_checkpoint_list [OF Suc.prems(1)] by blast
  have same: "tl_same False ?s p" "\<not> g_in_isr ?s" using Suc.prems by (simp_all add: add_checkpoint_same)
  obtain s1 p1 where 1: "tl_iter v ?s = Some s1" "tl_iter v p = Some p1" "tl_same False s1 p1" "\<not> g_in_isr s1"
    "tl_went ?s s1" using tl_iter_determined [OF same, of v] by metis
  have run: "same_run ?s s1" by (rule tl_went_run [OF 1(5)])
  have "tl_iters v (Suc i) p0 = Some p1" using Suc.prems(3) 1(2) by (simp only: tl_iters_snoc) simp
  from Suc.IH [OF 1(3,4) this] obtain s' cps where s': "open_passes n (of_nat (Suc i)) s1 = Some s'"
    "tl_checkpoints (the_timeline s') = tl_checkpoints (the_timeline s1) @ cps" "\<forall>cp \<in> set cps. boundary v p0 (Suc i + n) cp"
    "tl_index ((the_timeline s')\<lparr>tl_checkpoints := []\<rparr>) = tl_index ((the_timeline s1)\<lparr>tl_checkpoints := []\<rparr>)"
    "rp_events (the_replay s') = rp_events (the_replay s1)" "rp_check_writes (the_replay s') = rp_check_writes (the_replay s1)"
    using run Suc.prems(4) by (auto simp: same_run_def tl_index_def)
  have idx: "tl_checkpoints (the_timeline s1) = tl_checkpoints (the_timeline s) @ c"
    "tl_index ((the_timeline s1)\<lparr>tl_checkpoints := []\<rparr>) = tl_index ((the_timeline s)\<lparr>tl_checkpoints := []\<rparr>)"
    using run c(1) add_checkpoint_sel(4) [of "of_nat i" s] by (simp_all add: same_run_def tl_index_def)
  have "boundary v p0 (i + Suc n) (ckpt i p)"
    unfolding boundary_def by (intro exI [of _ i] exI [of _ p]) (use Suc.prems(3) in simp)
  then have "\<forall>cp \<in> set (c @ cps). boundary v p0 (i + Suc n) cp" using c(2) s'(3) by auto
  moreover have "i = 0 \<longrightarrow> c @ cps \<noteq> [] \<and> hd (c @ cps) = ckpt 0 p" using c(2,3) by (cases c) auto
  moreover have "open_passes (Suc n) (of_nat i) s = Some s'"
    using 1(1) s'(1) Suc.prems(4) by (simp add: tl_iter_def add.commute)
  ultimately show ?case
    using s'(2,4-6) idx run by (intro exI [of _ s'] exI [of _ "c @ cps"]) (simp add: same_run_def)
qed simp

section \<open>Seeking\<close>

lemma same_run_iter [simp]:
  "same_run (tl_upd (\<lambda>T. T\<lparr>tl_current_iter := i\<rparr>) s) t = same_run s t"
  by (simp add: same_run_def tl_index_def)

lemma iter_same [simp]:
  "tl_same False (tl_upd f s) t = tl_same False s t" "tl_same False s (tl_upd f t) = tl_same False s t"
  "tl_same True s t \<Longrightarrow> tl_same True (tl_upd (\<lambda>T. T\<lparr>tl_current_iter := i\<rparr>) s) (tl_upd (\<lambda>T. T\<lparr>tl_current_iter := i\<rparr>) t)"
  by (auto simp: alike_def tl_scratch_def)

lemma tl_iters_forward:
  "tl_iters v m p = Some p' \<Longrightarrow> tl_same False s p \<Longrightarrow> \<not> g_in_isr s \<Longrightarrow>
     rp_cursor (the_replay p) \<le> rp_cursor (the_replay p')"
proof (induction m arbitrary: p s)
  case (Suc m)
  then obtain r q where 1: "tl_iter v s = Some r" "tl_iter v p = Some q" "tl_same False r q" "\<not> g_in_isr r" "tl_went p q"
    using tl_iter_determined [of False s p v] by metis
  have "rp_cursor (the_replay p) \<le> rp_cursor (the_replay q)" using went_moved [OF 1(5)] by simp
  with Suc.IH [of q r] Suc.prems(1) 1 show ?case by simp
qed simp

text \<open>Before the capture point is met, the passes of a seek are those of the plain run.\<close>

lemma seek_passes_skip:
  assumes "tl_iters v m p = Some p'" "tl_same False s p" "\<not> g_in_isr s" "\<not> rp_captured (the_replay s)"
    "rp_cursor (the_replay p') < rp_capture_at (the_replay s)" "tl_variant (the_timeline s) = v"
  shows "\<exists>s'. seek_passes (m + n) (of_nat i) s = seek_passes n (of_nat (i + m)) s' \<and> tl_same False s' p' \<and>
    \<not> g_in_isr s' \<and> rp_watch (the_replay s') = rp_watch (the_replay s) \<and>
    tl_pending (the_timeline s') = tl_pending (the_timeline s) \<and> same_run s s'"
  using assms
proof (induction m arbitrary: i s p)
  case (Suc m)
  let ?s = "tl_upd (\<lambda>T. T\<lparr>tl_current_iter := of_nat i\<rparr>) s"
  have same: "tl_same False ?s p" "\<not> g_in_isr ?s" using Suc.prems(2,3) by simp_all
  obtain s1 p1 where 1: "tl_iter v ?s = Some s1" "tl_iter v p = Some p1" "tl_same False s1 p1" "\<not> g_in_isr s1"
    "tl_went ?s s1" "tl_went p p1" using tl_iter_determined [OF same, of v] by metis
  have rest: "tl_iters v m p1 = Some p'" using Suc.prems(1) 1(2) by simp
  have "rp_cursor (the_replay p1) \<le> rp_cursor (the_replay p')"
    by (rule tl_iters_forward [OF rest 1(3,4)])
  moreover have "rp_cursor (the_replay s1) = rp_cursor (the_replay p1)" using 1(3) by (simp add: alike_def rp_play_def)
  ultimately have before: "rp_cursor (the_replay s1) < rp_capture_at (the_replay s)" using Suc.prems(5) by simp
  then have quiet: "\<not> rp_captured (the_replay s1)" using 1(5) Suc.prems(4) by (auto simp: went_def moved_def)
  then have keep: "rp_watch (the_replay s1) = rp_watch (the_replay s)" "tl_pending (the_timeline s1) = tl_pending (the_timeline s)"
    using 1(5) Suc.prems(4) went_moved [OF 1(5)] by (auto simp: went_def rp_watch_def tl_scratch_def)
  have run: "same_run s s1" using tl_went_run [OF 1(5)] by simp
  then have "tl_variant (the_timeline s1) = v" using Suc.prems(6) by (simp add: same_run_def tl_index_def)
  from Suc.IH [OF rest 1(3,4) quiet _ this, of "Suc i"] keep(1) Suc.prems(5)
  obtain s' where s': "seek_passes (m + n) (of_nat (Suc i)) s1 = seek_passes n (of_nat (Suc i + m)) s'" "tl_same False s' p'"
    "\<not> g_in_isr s'" "rp_watch (the_replay s') = rp_watch (the_replay s1)"
    "tl_pending (the_timeline s') = tl_pending (the_timeline s1)" "same_run s1 s'"
    by (auto simp: rp_watch_def)
  moreover have "seek_passes (Suc m + n) (of_nat i) s = seek_passes (m + n) (of_nat (Suc i)) s1"
    using 1(1) Suc.prems(4,6) by (simp add: tl_iter_def add.commute)
  ultimately show ?case
    using keep same_run_trans [OF run] by (intro exI [of _ s']) simp
qed auto

text \<open>What a capture has left in the pending snapshot is marked valid.\<close>

definition tl_marked :: "'z tl \<Rightarrow> bool" where
  "tl_marked s \<longleftrightarrow> (rp_captured (the_replay s) \<longrightarrow> tl_fired (tl_scratch (the_timeline s)))"

lemma tl_marked_iter [simp]: "tl_marked (tl_upd (\<lambda>T. T\<lparr>tl_current_iter := i\<rparr>) s) = tl_marked s"
  by (simp add: tl_marked_def tl_fired_def tl_scratch_def)

lemma tl_marked_went: "tl_went s s' \<Longrightarrow> tl_marked s \<Longrightarrow> tl_marked s'"
  by (auto simp: tl_marked_def went_def)

text \<open>The event a seek is for, and the count of a search, stay as they are.\<close>

definition seeking :: "'z tl \<Rightarrow> 'z tl \<Rightarrow> bool" where
  "seeking s t \<longleftrightarrow> map_option sn_event_index (tl_pending (the_timeline s)) = map_option sn_event_index (tl_pending (the_timeline t)) \<and>
     tl_last_search_seeks (the_timeline s) = tl_last_search_seeks (the_timeline t)"

lemma seeking_refl [simp]: "seeking s s"
  by (simp add: seeking_def)

lemma seeking_iter [simp]: "seeking (tl_upd (\<lambda>T. T\<lparr>tl_current_iter := i\<rparr>) s) t = seeking s t"
  by (simp add: seeking_def)

lemma seeking_trans: "seeking s t \<Longrightarrow> seeking t u \<Longrightarrow> seeking s u"
  by (simp add: seeking_def)

lemma tl_went_seeking: "tl_went s s' \<Longrightarrow> seeking s s'"
proof -
  assume "tl_went s s'"
  then have "tl_static (the_timeline s') = tl_static (the_timeline s)" by (simp add: went_def)
  then show ?thesis
    by (cases "the_timeline s"; cases "the_timeline s'") (simp add: tl_static_def seeking_def)
qed

lemma seeking_pending: "seeking s t \<Longrightarrow> (tl_pending (the_timeline s) = None) = (tl_pending (the_timeline t) = None)"
  by (metis map_option_is_None seeking_def)

lemma seek_passes_determined:
  assumes "tl_same True s t" "\<not> g_in_isr s" "tl_variant (the_timeline s) = v" "tl_variant (the_timeline t) = v"
    "tl_marked s" "tl_pending (the_timeline s) \<noteq> None"
  shows "\<exists>r q. seek_passes n i s = Some r \<and> seek_passes n i t = Some q \<and> tl_same True r q \<and> \<not> g_in_isr r \<and>
    tl_marked r \<and> same_run s r \<and> same_run t q \<and> seeking s r"
  using assms
proof (induction n arbitrary: i s t)
  case (Suc n)
  let ?f = "tl_upd (\<lambda>T. T\<lparr>tl_current_iter := i\<rparr>)"
  have same: "tl_same True (?f s) (?f t)" "\<not> g_in_isr (?f s)" using Suc.prems(1,2) by simp_all
  have cap: "rp_captured (the_replay t) = rp_captured (the_replay s)"
    using Suc.prems(1) by (simp add: alike_def rp_watch_def)
  show ?case
  proof (cases "rp_captured (the_replay s)")
    case True
    then show ?thesis
      using same cap Suc.prems by (auto simp: same_run_def tl_index_def seeking_def)
  next
    case False
    obtain s1 t1 where 1: "tl_iter v (?f s) = Some s1" "tl_iter v (?f t) = Some t1" "tl_same True s1 t1" "\<not> g_in_isr s1"
      "tl_went (?f s) s1" "tl_went (?f t) t1" using tl_iter_determined [OF same, of v] by metis
    have run: "same_run s s1" "same_run t t1" using tl_went_run [OF 1(5)] tl_went_run [OF 1(6)] by simp_all
    have "tl_marked s1" using tl_marked_went [OF 1(5)] Suc.prems(5) by simp
    moreover have sk: "seeking s s1" using tl_went_seeking [OF 1(5)] by simp
    moreover have "tl_pending (the_timeline s1) \<noteq> None" using seeking_pending [OF sk] Suc.prems(6) by blast
    moreover have "tl_variant (the_timeline s1) = v" "tl_variant (the_timeline t1) = v"
      using run Suc.prems(3,4) by (simp_all add: same_run_def tl_index_def)
    ultimately obtain r q where "seek_passes n (i + 1) s1 = Some r" "seek_passes n (i + 1) t1 = Some q" "tl_same True r q"
      "\<not> g_in_isr r" "tl_marked r" "same_run s1 r" "same_run t1 q" "seeking s1 r"
      using Suc.IH [OF 1(3,4), of "i + 1"] by blast
    with run same_run_trans seeking_trans [OF sk] 1(1,2) False cap Suc.prems(3,4) show ?thesis
      by (intro exI [of _ r] exI [of _ q]) (auto simp: tl_iter_def)
  qed
qed auto

text \<open>A seek in three parts: the start at the checkpoint, the passes, reading off the answer.\<close>

definition seek_start :: "checkpoint \<Rightarrow> nat \<Rightarrow> 'z tl \<Rightarrow> 'z tl" where
  "seek_start cp k s = rp_upd (rp_set_capture_point k (Some Timeline_capture))
     (tl_upd (\<lambda>T. T\<lparr>tl_pending := Some (sn_new\<lparr>sn_event_index := k\<rparr>), tl_current_iter := cp_main_iter cp\<rparr>)
       (installed (cp_fw cp) (cp_cursor cp) (cp_ts cp) s))"

definition seek_answer :: "'z tl \<Rightarrow> tl_snapshot option" where
  "seek_answer s = map_option (\<lambda>snap. if \<not> rp_captured (the_replay s)
     then snap\<lparr>sn_fw := g_state s, sn_state_hash := rx_pump_state_hash (g_state s),
       sn_ts := rp_now (the_replay s), sn_main_iter := tl_main_iters (the_timeline s), sn_valid := True\<rparr>
     else snap) (tl_pending (the_timeline s))"

definition seek_end :: "nat \<Rightarrow> 'z tl \<Rightarrow> 'z tl" where
  "seek_end k s = tl_upd (\<lambda>T. T\<lparr>tl_position := k\<rparr>) (hal_reset
     (rp_upd rp_clear_capture_point (tl_upd (\<lambda>T. T\<lparr>tl_pending := None\<rparr>) s)))"

lemma seek_in_parts:
  "seek_from cp k s = do {
     r \<leftarrow> seek_passes (unat (tl_main_iters (the_timeline s)) - unat (cp_main_iter cp)) (cp_main_iter cp) (seek_start cp k s);
     snap \<leftarrow> seek_answer r;
     Some (sn_valid snap, Some snap, seek_end k r) }"
proof -
  have "tl_main_iters (the_timeline (seek_start cp k s)) = tl_main_iters (the_timeline s)"
    by (simp add: seek_start_def installed_def rp_upd_def tl_upd_def)
  then show ?thesis
    by (simp add: seek_from_def tl_install_Some Let_def seek_start_def [symmetric] seek_answer_def seek_end_def
      bind_map_option comp_def)
qed

lemma seek_start_run: "same_run (seek_start cp k s) s"
  by (simp add: same_run_def seek_start_def installed_def rp_upd_def tl_upd_def rp_set_capture_point_def
      rp_set_cursor_def tl_index_def)

lemma seek_end_run: "same_run (seek_end k s) s"
  by (simp add: same_run_def seek_end_def rp_upd_def tl_upd_def rp_clear_capture_point_def hal_reset_def tl_index_def)

lemma seek_start_ready:
  "\<not> g_in_isr (seek_start cp k s)" "\<not> rp_captured (the_replay (seek_start cp k s))"
  "tl_pending (the_timeline (seek_start cp k s)) = Some (sn_new\<lparr>sn_event_index := k\<rparr>)"
  "rp_watch (the_replay (seek_start cp k s)) = (k, Some Timeline_capture, False)"
  by (simp_all add: seek_start_def installed_def rp_upd_def tl_upd_def rp_set_capture_point_def rp_watch_def)

lemma seek_start_serving: "fw_ok (cp_fw cp) \<Longrightarrow> serving UNIV (seek_start cp k s)"
  by (simp add: seek_start_def serving_def installed_def rp_upd_def tl_upd_def)

lemma seek_start_same:
  "same_run s t \<Longrightarrow> fw_ok (cp_fw cp) \<Longrightarrow> tl_same True (seek_start cp k s) (seek_start cp k t)"
  by (simp add: alike_def seek_start_serving same_run_def)
    (simp add: seek_start_def installed_def rp_upd_def tl_upd_def rp_set_capture_point_def rp_set_cursor_def
      rp_play_def rp_watch_def tl_scratch_def)

lemma seek_answer_same:
  assumes "tl_same True r q" "same_run r q" "tl_marked r" "tl_pending (the_timeline r) \<noteq> None"
  shows "seek_answer q = seek_answer r \<and> (\<exists>snap. seek_answer r = Some snap \<and> sn_valid snap)"
  using assms by (auto simp: seek_answer_def alike_def rp_watch_def rp_play_def tl_scratch_def same_run_def
      tl_index_def tl_marked_def tl_fired_def)

text \<open>From like states, the passes of a seek give the same answer.\<close>

lemma seek_passes_answer:
  assumes "tl_same True s t" "\<not> g_in_isr s" "same_run s t" "\<not> rp_captured (the_replay s)"
    "tl_pending (the_timeline s) \<noteq> None"
  shows "\<exists>r q snap. seek_passes n i s = Some r \<and> seek_passes n i t = Some q \<and> seek_answer r = Some snap \<and>
    seek_answer q = Some snap \<and> sn_valid snap \<and> same_run s r \<and> same_run t q \<and> seeking s r"
proof -
  have "tl_marked s" using assms(4) by (simp add: tl_marked_def)
  moreover have "tl_variant (the_timeline t) = tl_variant (the_timeline s)"
    using assms(3) by (simp add: same_run_def tl_index_def)
  ultimately obtain r q where 1: "seek_passes n i s = Some r" "seek_passes n i t = Some q" "tl_same True r q" "tl_marked r"
    "same_run s r" "same_run t q" "seeking s r"
    using seek_passes_determined [OF assms(1,2) refl, of n i] assms(5) by blast
  have "same_run r q" using 1(5,6) assms(3) by (simp add: same_run_def)
  moreover have "tl_pending (the_timeline r) \<noteq> None" using seeking_pending [OF 1(7)] assms(5) by blast
  ultimately show ?thesis using 1 seek_answer_same [OF 1(3) _ 1(4)] by metis
qed

lemma seek_from_same:
  assumes "same_run s t" "fw_ok (cp_fw cp)"
  shows "\<exists>snap s' t'. seek_from cp k s = Some (True, Some snap, s') \<and> seek_from cp k t = Some (True, Some snap, t') \<and>
    same_run s' s \<and> same_run t' t \<and> sn_event_index snap = k \<and> tl_position (the_timeline s') = k \<and>
    tl_last_search_seeks (the_timeline s') = tl_last_search_seeks (the_timeline s)"
proof -
  have run: "same_run (seek_start cp k s) (seek_start cp k t)"
    using assms(1) seek_start_run [of cp k s] seek_start_run [of cp k t] by (simp add: same_run_def)
  let ?n = "unat (tl_main_iters (the_timeline s)) - unat (cp_main_iter cp)"
  obtain r q snap where 1: "seek_passes ?n (cp_main_iter cp) (seek_start cp k s) = Some r"
    "seek_passes ?n (cp_main_iter cp) (seek_start cp k t) = Some q" "seek_answer r = Some snap" "seek_answer q = Some snap"
    "sn_valid snap" "same_run (seek_start cp k s) r" "same_run (seek_start cp k t) q" "seeking (seek_start cp k s) r"
    using seek_passes_answer [OF seek_start_same [OF assms] seek_start_ready(1) run seek_start_ready(2)] seek_start_ready(3)
    by blast
  have "sn_event_index snap = k" "tl_last_search_seeks (the_timeline r) = tl_last_search_seeks (the_timeline s)"
    using 1(3,8) seek_start_ready(3) [of cp k s]
    by (auto simp: seek_answer_def seeking_def) (simp_all add: seek_start_def installed_def rp_upd_def tl_upd_def)
  moreover have "tl_last_search_seeks (the_timeline (seek_end k r)) = tl_last_search_seeks (the_timeline r)"
    "tl_position (the_timeline (seek_end k r)) = k"
    by (simp_all add: seek_end_def rp_upd_def tl_upd_def hal_reset_def)
  moreover have "tl_main_iters (the_timeline t) = tl_main_iters (the_timeline s)"
    using assms(1) by (simp add: same_run_def tl_index_def)
  ultimately show ?thesis
    using 1 seek_start_run [of cp k s] seek_start_run [of cp k t] seek_end_run [of k r] seek_end_run [of k q]
    by (auto simp: seek_in_parts same_run_def)
qed

text \<open>The start of the run as a checkpoint.\<close>

definition start_checkpoint :: checkpoint where
  "start_checkpoint = \<lparr>cp_main_iter = 0, cp_cursor = 0, cp_ts = 0, cp_fw = rx_pump_empty\<rparr>"

lemma ckpt_start: "ckpt 0 (pass_start s) = start_checkpoint"
  by (simp add: ckpt_def start_checkpoint_def pass_start_def installed_def rp_upd_def rp_set_cursor_def
      rp_clear_capture_point_def)

text \<open>A seek from a checkpoint that lies before the event, and the seek from the start.\<close>

lemma seek_from_checkpoint:
  assumes "boundary (tl_variant (the_timeline s)) (pass_start s) (unat (tl_main_iters (the_timeline s))) cp"
    "cp_cursor cp < k \<or> cp = start_checkpoint"
  shows "\<exists>snap s1 s2. seek_from cp k s = Some (True, Some snap, s1) \<and> seek_from start_checkpoint k s = Some (True, Some snap, s2)"
proof (cases "cp = start_checkpoint")
  case True
  then show ?thesis
    using seek_from_same [OF same_run_refl, of cp k s] by (auto simp: start_checkpoint_def rx_pump_empty_ok)
next
  case False
  let ?v = "tl_variant (the_timeline s)" and ?N = "unat (tl_main_iters (the_timeline s))"
  obtain i p where p: "i < ?N" "tl_iters ?v i (pass_start s) = Some p" "cp = ckpt i p"
    using assms(1) by (auto simp: boundary_def)
  have k: "rp_cursor (the_replay p) < k" using assms(2) False p(3) by (simp add: ckpt_def)
  let ?a = "seek_start start_checkpoint k s" and ?b = "seek_start cp k s"
  have "tl_same False ?a (pass_start s)"
    by (simp add: alike_def seek_start_serving start_checkpoint_def rx_pump_empty_ok)
      (simp add: seek_start_def serving_def pass_start_def installed_def rp_upd_def tl_upd_def rp_set_capture_point_def
        rp_set_cursor_def rp_clear_capture_point_def rp_play_def rx_pump_empty_ok)
  moreover have "tl_variant (the_timeline ?a) = ?v"
    using seek_start_run [of start_checkpoint k s] by (simp add: same_run_def tl_index_def)
  moreover have "rp_cursor (the_replay p) < rp_capture_at (the_replay ?a)"
    using k seek_start_ready(4) [of start_checkpoint k s] by (simp add: rp_watch_def)
  ultimately obtain s1 where s1: "seek_passes (i + (?N - i)) (of_nat 0) ?a = seek_passes (?N - i) (of_nat (0 + i)) s1"
    "tl_same False s1 p" "\<not> g_in_isr s1" "rp_watch (the_replay s1) = rp_watch (the_replay ?a)"
    "tl_pending (the_timeline s1) = tl_pending (the_timeline ?a)" "same_run ?a s1"
    using seek_passes_skip [OF p(2), of ?a "?N - i" 0] seek_start_ready [of start_checkpoint k s] by blast
  let ?s1 = "tl_upd (\<lambda>T. T\<lparr>tl_current_iter := of_nat i\<rparr>) s1"
  obtain n where n: "?N - i = Suc n" using p(1) by (metis Suc_diff_Suc)
  have i: "unat (of_nat i :: u32) = i" using p(1) unat_u32_lt [of "tl_main_iters (the_timeline s)"] by simp
  have ok: "fw_ok (cp_fw cp)" using s1(2) p(3) by (simp add: alike_def serving_def ckpt_def)
  have run: "same_run ?s1 ?b"
    using s1(6) seek_start_run [of start_checkpoint k s] seek_start_run [of cp k s] by (simp add: same_run_def tl_index_def)
  have "rp_play (the_replay ?b) = rp_play (the_replay s1)"
    using s1(2) run p(3) by (simp add: alike_def same_run_def rp_play_def ckpt_def seek_start_def installed_def
        rp_upd_def tl_upd_def rp_set_capture_point_def rp_set_cursor_def)
  moreover have "g_state ?b = g_state s1" using s1(2) p(3)
    by (simp add: alike_def ckpt_def seek_start_def installed_def rp_upd_def tl_upd_def)
  moreover have "tl_scratch (the_timeline ?s1) = tl_scratch (the_timeline ?b)"
    using s1(5) seek_start_ready(3) [of _ k s] p(3)
    by (simp add: tl_scratch_def) (simp add: seek_start_def ckpt_def rp_upd_def tl_upd_def)
  ultimately have same: "tl_same True ?s1 ?b"
    using s1(2-4) seek_start_ready [of _ k s] seek_start_serving [OF ok, of k s]
    by (simp add: alike_def)
  have "\<not> g_in_isr ?s1" "\<not> rp_captured (the_replay ?s1)" "tl_pending (the_timeline ?s1) \<noteq> None"
    using s1(3-5) seek_start_ready [of start_checkpoint k s] by (simp_all add: rp_watch_def)
  then obtain r q snap where 2: "seek_passes (Suc n) (of_nat i) ?s1 = Some r" "seek_passes (Suc n) (of_nat i) ?b = Some q"
    "seek_answer r = Some snap" "seek_answer q = Some snap" "sn_valid snap"
    using seek_passes_answer [OF same _ run, of "Suc n" "of_nat i"] by blast
  have "seek_passes (Suc n) (of_nat i) ?s1 = seek_passes (Suc n) (of_nat i) s1" by (simp add: tl_upd_def)
  moreover have "i + (?N - i) = ?N" using p(1) by simp
  ultimately have "seek_passes ?N 0 ?a = Some r" using s1(1) 2(1) n by (simp del: seek_passes.simps)
  moreover have "seek_passes (?N - unat (cp_main_iter cp)) (cp_main_iter cp) ?b = Some q"
    using 2(2) n i p(3) by (simp add: ckpt_def del: seek_passes.simps)
  ultimately show ?thesis using 2(3-5) by (simp add: seek_in_parts start_checkpoint_def del: seek_passes.simps)
qed

section \<open>An opened timeline\<close>

text \<open>
  The index is right: every checkpoint is the state between two iterations of the run from the
  start, and the first is the start itself.
\<close>

definition indexed :: "'z tl \<Rightarrow> bool" where
  "indexed s \<longleftrightarrow> (let T = the_timeline s in tl_opened T \<and> 
     (0 < tl_main_iters T \<longrightarrow> tl_checkpoints T \<noteq> [] \<and> hd (tl_checkpoints T) = start_checkpoint) \<and>
     (\<forall>cp \<in> set (tl_checkpoints T). boundary (tl_variant T) (pass_start s) (unat (tl_main_iters T)) cp))"

lemma indexed_run:
  assumes "same_run s t" "indexed s"
  shows "indexed t"
proof -
  have "tl_index (the_timeline t) = tl_index (the_timeline s)" using assms(1) by (simp add: same_run_def)
  then show ?thesis
    using assms boundary_same [OF pass_start_same pass_start_idle, of s t]
    by (auto simp: indexed_def tl_index_def same_run_def Let_def)
qed

lemma indexed_fw_ok:
  assumes "indexed s" "cp \<in> set (tl_checkpoints (the_timeline s))"
  shows "fw_ok (cp_fw cp)"
proof -
  obtain i p where p: "tl_iters (tl_variant (the_timeline s)) i (pass_start s) = Some p" "cp = ckpt i p"
    using assms by (auto simp: indexed_def boundary_def Let_def)
  have "tl_same False (pass_start s) (pass_start s)" by (rule pass_start_same) simp_all
  from tl_iters_same [OF this pass_start_idle p(1)] show ?thesis
    using p(2) by (auto simp: ckpt_def alike_def serving_def)
qed

text \<open>The two ends of opening: the state the passes start from, and what is set after them.\<close>

definition open_start :: "variant \<Rightarrow> u32 \<Rightarrow> u32 \<Rightarrow> capture_addr replay_hal \<Rightarrow> 'z tl \<Rightarrow> 'z tl" where
  "open_start v n every rp s = tl_upd (\<lambda>T. T\<lparr>tl_opened := False, tl_checkpoints := [], tl_error := '''',
     tl_variant := v, tl_main_iters := n, tl_checkpoint_every := (if every \<noteq> 0 then every else 1)\<rparr>)
     (s\<lparr>the_replay := rp\<rparr>)"

definition open_end :: "'z tl \<Rightarrow> 'z tl" where
  "open_end r = tl_upd (\<lambda>T. T\<lparr>tl_position := 0, tl_opened := True\<rparr>)
     (hal_reset (tl_upd (\<lambda>T. T\<lparr>tl_event_count := rp_cursor (the_replay r)\<rparr>) r))"

lemma open_end_sel [simp]:
  "tl_checkpoints (the_timeline (open_end r)) = tl_checkpoints (the_timeline r)"
  "tl_variant (the_timeline (open_end r)) = tl_variant (the_timeline r)"
  "tl_main_iters (the_timeline (open_end r)) = tl_main_iters (the_timeline r)"
  "tl_event_count (the_timeline (open_end r)) = rp_cursor (the_replay r)"
  "tl_opened (the_timeline (open_end r))" "the_replay (open_end r) = the_replay r"
  by (simp_all add: open_end_def hal_reset_def tl_upd_def)

lemma pass_start_sel [simp]:
  "the_timeline (pass_start s) = the_timeline s" "rp_events (the_replay (pass_start s)) = rp_events (the_replay s)"
  "rp_check_writes (the_replay (pass_start s)) = rp_check_writes (the_replay s)"
  by (simp_all add: pass_start_def installed_def rp_upd_def rp_clear_capture_point_def rp_set_cursor_def)

lemma open_start_sel [simp]:
  "tl_variant (the_timeline (open_start v n every rp s)) = v" "tl_main_iters (the_timeline (open_start v n every rp s)) = n"
  "tl_checkpoints (the_timeline (open_start v n every rp s)) = []" "the_replay (open_start v n every rp s) = rp"
  "tl_checkpoint_every (the_timeline (open_start v n every rp s)) = (if every \<noteq> 0 then every else 1)"
  by (simp_all add: open_start_def tl_upd_def)

lemma tl_open_loaded:
  assumes "rp_load trace (the_replay s) = Some (True, rp)" "variant_for_build_id (h_build_id (rp_header rp)) = Some v"
    and "open_passes (unat n) 0 (pass_start (open_start v n every rp s)) = Some r"
  shows "tl_open trace n every s = Some (True, open_end r)"
proof -
  have "open_start v n every rp s = tl_upd (\<lambda>T. T\<lparr>tl_variant := v, tl_main_iters := n,
      tl_checkpoint_every := (if every \<noteq> 0 then every else 1)\<rparr>)
      ((tl_upd (\<lambda>T. T\<lparr>tl_opened := False, tl_checkpoints := [], tl_error := ''''\<rparr>) s)\<lparr>the_replay := rp\<rparr>)"
    by (cases s) (simp add: open_start_def tl_upd_def)
  then show ?thesis
    using assms by (simp add: tl_open_def tl_install_Some Let_def pass_start_def open_end_def)
qed

lemma open_passes_opened:
  "\<exists>r. open_passes (unat n) 0 (pass_start (open_start v n every rp s)) = Some r \<and> indexed (open_end r) \<and>
     tl_main_iters (the_timeline (open_end r)) = n \<and> tl_variant (the_timeline (open_end r)) = v \<and>
     rp_events (the_replay r) = rp_events rp \<and> rp_check_writes (the_replay r) = rp_check_writes rp"
proof -
  let ?x = "open_start v n every rp s"
  have same: "tl_same False (pass_start ?x) (pass_start ?x)" by (rule pass_start_same) simp_all
  obtain r cps where r: "open_passes (unat n) (of_nat 0) (pass_start ?x) = Some r"
    "tl_checkpoints (the_timeline r) = tl_checkpoints (the_timeline (pass_start ?x)) @ cps"
    "\<forall>cp \<in> set cps. boundary v (pass_start ?x) (0 + unat n) cp" "0 < unat n \<longrightarrow> cps \<noteq> [] \<and> hd cps = ckpt 0 (pass_start ?x)"
    "tl_index ((the_timeline r)\<lparr>tl_checkpoints := []\<rparr>) = tl_index ((the_timeline (pass_start ?x))\<lparr>tl_checkpoints := []\<rparr>)"
    "rp_events (the_replay r) = rp_events (the_replay (pass_start ?x))"
    "rp_check_writes (the_replay r) = rp_check_writes (the_replay (pass_start ?x))"
    using open_passes_index [OF same pass_start_idle, of v 0 "pass_start ?x" "unat n"] by auto
  have t: "tl_checkpoints (the_timeline r) = cps" "tl_main_iters (the_timeline r) = n" "tl_variant (the_timeline r) = v"
    using r(2,5) by (simp_all add: tl_index_def)
  have "0 < n \<longleftrightarrow> 0 < unat n" by (simp add: word_less_nat_alt)
  then have "indexed (open_end r)"
    using r(3,4,6,7) t boundary_same [OF pass_start_same pass_start_idle, of ?x "open_end r"]
    by (auto simp: indexed_def Let_def ckpt_start)
  then show ?thesis using r(1,6,7) t by simp
qed

lemma tl_open_indexed:
  assumes "tl_open trace n every s = Some (True, s')"
  shows "indexed s' \<and> tl_main_iters (the_timeline s') = n"
proof -
  obtain rp v where v: "rp_load trace (the_replay s) = Some (True, rp)" "variant_for_build_id (h_build_id (rp_header rp)) = Some v"
    using assms by (auto simp: tl_open_def Let_def bind_eq_Some_conv split: if_splits option.splits)
  obtain r where "open_passes (unat n) 0 (pass_start (open_start v n every rp s)) = Some r" "indexed (open_end r)"
    "tl_main_iters (the_timeline (open_end r)) = n" using open_passes_opened by blast
  with tl_open_loaded [OF v this(1)] assms show ?thesis by simp
qed

end
