(* ===== verification/Timeline_Search.thy ===== *)
theory Timeline_Search
  imports Timeline_Seek
begin

text \<open>
  Moving about in an opened timeline: every move succeeds, what it shows depends only on the
  event it goes to, and a search by bisection finds the first event at which a monotonic
  predicate holds.
\<close>

section \<open>One move\<close>

lemma nearest_from_before:
  "nearest_from cps k best = Some cp \<Longrightarrow> best = Some cp \<or> cp \<in> set cps \<and> cp_cursor cp \<le> k"
  by (induction cps k best rule: nearest_from.induct) (auto split: if_splits)

lemma nearest_from_best: "nearest_from cps k (Some b) \<noteq> None"
  by (induction cps arbitrary: b) auto

lemma nearest_indexed:
  assumes "indexed s" "0 < tl_main_iters (the_timeline s)"
  obtains cp where "tl_nearest k (the_timeline s) = Some cp" "cp \<in> set (tl_checkpoints (the_timeline s))"
    "cp_cursor cp \<le> k" "fw_ok (cp_fw cp)"
    "boundary (tl_variant (the_timeline s)) (pass_start s) (unat (tl_main_iters (the_timeline s))) cp"
proof -
  obtain cps where cps: "tl_checkpoints (the_timeline s) = start_checkpoint # cps"
    using assms by (cases "tl_checkpoints (the_timeline s)") (auto simp: indexed_def Let_def)
  have "tl_nearest k (the_timeline s) \<noteq> None"
    using nearest_from_best [of cps k start_checkpoint] cps by (simp add: tl_nearest_def start_checkpoint_def)
  then obtain cp where cp: "tl_nearest k (the_timeline s) = Some cp" by blast
  with nearest_from_before [of _ k None cp] have "cp \<in> set (tl_checkpoints (the_timeline s))" "cp_cursor cp \<le> k"
    by (auto simp: tl_nearest_def)
  then show thesis
    using that [OF cp] indexed_fw_ok [OF assms(1)] assms(1) by (auto simp: indexed_def Let_def)
qed

lemma tl_seek_from:
  "tl_opened (the_timeline s) \<Longrightarrow> tl_nearest (min k (tl_event_count (the_timeline s))) (the_timeline s) = Some cp \<Longrightarrow>
     tl_seek k (Some b) s = seek_from cp (min k (tl_event_count (the_timeline s))) s"
  by (auto simp: tl_seek_def Let_def min_def)

lemma tl_seek_indexed:
  assumes "indexed s" "0 < tl_main_iters (the_timeline s)" "same_run s t"
  shows "\<exists>snap s' t'. tl_seek k (Some o1) s = Some (True, Some snap, s') \<and> tl_seek k (Some o2) t = Some (True, Some snap, t') \<and>
    same_run s' s \<and> same_run t' t \<and> sn_event_index snap = min k (tl_event_count (the_timeline s)) \<and>
    tl_position (the_timeline s') = min k (tl_event_count (the_timeline s)) \<and>
    tl_last_search_seeks (the_timeline s') = tl_last_search_seeks (the_timeline s)"
proof -
  let ?k = "min k (tl_event_count (the_timeline s))"
  have i: "tl_index (the_timeline t) = tl_index (the_timeline s)" using assms(3) by (simp add: same_run_def)
  obtain cp where cp: "tl_nearest ?k (the_timeline s) = Some cp" "fw_ok (cp_fw cp)"
    using nearest_indexed [OF assms(1,2)] by blast
  have "tl_nearest ?k (the_timeline t) = Some cp" using cp(1) i by (simp add: tl_nearest_def tl_index_def)
  moreover have "tl_opened (the_timeline s)" using assms(1) by (simp add: indexed_def Let_def)
  ultimately have "tl_seek k (Some o1) s = seek_from cp ?k s" "tl_seek k (Some o2) t = seek_from cp ?k t"
    using tl_seek_from [of s k cp] tl_seek_from [of t k cp] cp(1) i by (simp_all add: tl_index_def)
  then show ?thesis
    using seek_from_same [OF assms(3) cp(2), of ?k] by simp
qed

text \<open>What is seen at an event, read off by a seek.\<close>

definition seen :: "'z tl \<Rightarrow> nat \<Rightarrow> tl_snapshot" where
  "seen s k = (case tl_seek k (Some sn_new) s of Some (_, Some snap, _) \<Rightarrow> snap | _ \<Rightarrow> sn_new)"

lemma tl_seek_seen:
  assumes "indexed s" "0 < tl_main_iters (the_timeline s)" "same_run s t"
  obtains t' where "tl_seek k (Some b) t = Some (True, Some (seen s k), t')" "same_run t t'" "same_run s t'"
    "tl_position (the_timeline t') = min k (tl_event_count (the_timeline t))"
    "tl_last_search_seeks (the_timeline t') = tl_last_search_seeks (the_timeline t)"
    "sn_event_index (seen s k) = min k (tl_event_count (the_timeline s))"
proof -
  have it: "indexed t" by (rule indexed_run [OF assms(3,1)])
  have i: "tl_index (the_timeline t) = tl_index (the_timeline s)" using assms(3) by (simp add: same_run_def)
  then have "0 < tl_main_iters (the_timeline t)" using assms(2) by (simp add: tl_index_def)
  from tl_seek_indexed [OF it this same_run_sym [OF assms(3)], of k b sn_new]
  obtain snap t' s' where 1: "tl_seek k (Some b) t = Some (True, Some snap, t')" "tl_seek k (Some sn_new) s = Some (True, Some snap, s')"
    "same_run t' t" "sn_event_index snap = min k (tl_event_count (the_timeline t))"
    "tl_position (the_timeline t') = min k (tl_event_count (the_timeline t))"
    "tl_last_search_seeks (the_timeline t') = tl_last_search_seeks (the_timeline t)" by blast
  then have "seen s k = snap" by (simp add: seen_def)
  then show thesis
    using that 1 i assms(3) same_run_sym [OF 1(3)] same_run_trans [OF assms(3)] by (simp add: tl_index_def)
qed

section \<open>Bisection\<close>

lemma count_seek_run [simp]: "same_run s (count_seek t) = same_run s t"
  by (simp add: same_run_def count_seek_def tl_index_def)

lemma count_seek_seeks:
  "unat (tl_last_search_seeks (the_timeline (count_seek s))) \<le> unat (tl_last_search_seeks (the_timeline s)) + 1"
  by (simp add: count_seek_def unat_word_ariths)

text \<open>
  The loop invariant: the predicate holds at \<^verbatim>\<open>hi\<close> and at nothing below \<^verbatim>\<open>lo\<close>. The measure is
  halved by every seek.
\<close>

definition rising :: "(tl_snapshot \<Rightarrow> bool) \<Rightarrow> 'z tl \<Rightarrow> bool" where
  "rising pred s \<longleftrightarrow> (\<forall>i j. i \<le> j \<longrightarrow> j \<le> tl_event_count (the_timeline s) \<longrightarrow> pred (seen s i) \<longrightarrow> pred (seen s j))"

definition first_at :: "(tl_snapshot \<Rightarrow> bool) \<Rightarrow> 'z tl \<Rightarrow> nat \<Rightarrow> bool" where
  "first_at pred s k \<longleftrightarrow> pred (seen s k) \<and> (\<forall>i < k. \<not> pred (seen s i))"

lemma tl_bisect_finds:
  assumes "indexed s" "0 < tl_main_iters (the_timeline s)" "rising pred s"
    and "same_run s t" "lo \<le> hi" "hi \<le> tl_event_count (the_timeline s)" "pred (seen s hi)" "\<forall>i < lo. \<not> pred (seen s i)"
    and "hi - lo < 2 ^ m"
  shows "\<exists>k t'. tl_bisect pred lo hi probe t = Some (True, k, t') \<and> first_at pred s k \<and> k \<le> hi \<and> same_run s t' \<and>
    unat (tl_last_search_seeks (the_timeline t')) \<le> unat (tl_last_search_seeks (the_timeline t)) + m"
  using assms(4-)
proof (induction m arbitrary: lo hi probe t)
  case 0
  then have "lo = hi" by simp
  then show ?case using 0 by (subst tl_bisect.simps) (auto simp: first_at_def)
next
  case (Suc m)
  show ?case
  proof (cases "lo < hi")
    case False
    then show ?thesis using Suc.prems by (subst tl_bisect.simps) (auto simp: first_at_def)
  next
    case True
    let ?mid = "lo + (hi - lo) div 2"
    have mid: "lo \<le> ?mid" "?mid < hi" "?mid - lo < 2 ^ m" "hi - (?mid + 1) < 2 ^ m"
      using True Suc.prems(6) by auto
    obtain t1 where t1: "tl_seek ?mid (Some probe) (count_seek t) = Some (True, Some (seen s ?mid), t1)" "same_run s t1"
      "tl_last_search_seeks (the_timeline t1) = tl_last_search_seeks (the_timeline (count_seek t))"
      using tl_seek_seen [OF assms(1,2), of "count_seek t" ?mid probe] Suc.prems(1) by auto
    have seeks: "unat (tl_last_search_seeks (the_timeline t1)) + m \<le> unat (tl_last_search_seeks (the_timeline t)) + Suc m"
      using count_seek_seeks [of t] t1(3) by simp
    have step: "tl_bisect pred lo hi probe t = (if pred (seen s ?mid) then tl_bisect pred lo ?mid (seen s ?mid) t1
        else tl_bisect pred (?mid + 1) hi (seen s ?mid) t1)"
      using True t1(1) by (subst tl_bisect.simps) (simp add: Let_def)
    show ?thesis
    proof (cases "pred (seen s ?mid)")
      case holds: True
      have "?mid \<le> tl_event_count (the_timeline s)" using mid(2) Suc.prems(3) by simp
      from Suc.IH [OF t1(2) mid(1) this holds Suc.prems(5) mid(3), of "seen s ?mid"] obtain k t' where
        "tl_bisect pred lo ?mid (seen s ?mid) t1 = Some (True, k, t')" "first_at pred s k" "k \<le> ?mid" "same_run s t'"
        "unat (tl_last_search_seeks (the_timeline t')) \<le> unat (tl_last_search_seeks (the_timeline t1)) + m" by blast
      then show ?thesis
        using step holds mid(2) seeks by (intro exI [of _ k] exI [of _ t']) simp
    next
      case fails: False
      have "\<forall>i < ?mid + 1. \<not> pred (seen s i)"
      proof (intro allI impI)
        fix i
        assume "i < ?mid + 1"
        then show "\<not> pred (seen s i)"
          using assms(3) [unfolded rising_def, rule_format, of i ?mid] fails mid(2) Suc.prems(3) by auto
      qed
      moreover have "?mid + 1 \<le> hi" using mid(2) by simp
      ultimately obtain k t' where
        "tl_bisect pred (?mid + 1) hi (seen s ?mid) t1 = Some (True, k, t')" "first_at pred s k" "k \<le> hi" "same_run s t'"
        "unat (tl_last_search_seeks (the_timeline t')) \<le> unat (tl_last_search_seeks (the_timeline t1)) + m"
        using Suc.IH [OF t1(2) _ Suc.prems(3,4) _ mid(4), of "seen s ?mid"] by blast
      then show ?thesis
        using step fails seeks by (intro exI [of _ k] exI [of _ t']) simp
    qed
  qed
qed

lemma tl_find_first_finds:
  assumes s: "indexed s" "0 < tl_main_iters (the_timeline s)" and rise: "rising pred s" and t: "same_run s t"
    and small: "tl_event_count (the_timeline s) < 2 ^ m"
  shows "\<exists>t'. same_run s t' \<and> unat (tl_last_search_seeks (the_timeline t')) \<le> m + 2 \<and>
    (if \<exists>k \<le> tl_event_count (the_timeline s). pred (seen s k)
     then \<exists>k \<le> tl_event_count (the_timeline s). first_at pred s k \<and>
       tl_find_first (Some pred) (Some b) t = Some (True, Some (seen s k), t') \<and> tl_position (the_timeline t') = k
     else tl_find_first (Some pred) (Some b) t = Some (False, Some b, t'))"
proof -
  let ?N = "tl_event_count (the_timeline s)"
  have it: "tl_index (the_timeline t) = tl_index (the_timeline s)" using t by (simp add: same_run_def)
  have T: "tl_opened (the_timeline t)" "tl_event_count (the_timeline t) = ?N"
    using s(1) it by (simp_all add: indexed_def Let_def tl_index_def)
  define u where "u = tl_upd (\<lambda>T. T\<lparr>tl_last_search_seeks := 0\<rparr>) t"
  have u: "same_run s u" "tl_last_search_seeks (the_timeline u) = 0"
    using t by (simp_all add: u_def same_run_def tl_index_def)
  obtain t1 where t1: "tl_seek ?N (Some sn_new) (count_seek u) = Some (True, Some (seen s ?N), t1)" "same_run s t1"
    "tl_last_search_seeks (the_timeline t1) = tl_last_search_seeks (the_timeline (count_seek u))"
    using tl_seek_seen [OF s, of "count_seek u" ?N sn_new] u(1) by auto
  have one: "tl_last_search_seeks (the_timeline t1) = 1" using t1(3) u(2) by (simp add: count_seek_def)
  have cnt: "tl_event_count (the_timeline u) = ?N" "tl_event_count (the_timeline t1) = ?N"
    using u(1) t1(2) by (simp_all add: same_run_def tl_index_def)
  have find: "tl_find_first (Some pred) (Some b) t = (if \<not> pred (seen s ?N) then Some (False, Some b, t1)
      else do { (ok, lo, s') \<leftarrow> tl_bisect pred 0 ?N (seen s ?N) t1;
        if \<not> ok then Some (False, Some b, s') else tl_seek lo (Some b) (count_seek s') })"
    using T t1(1) cnt by (simp add: tl_find_first_def u_def [symmetric] Let_def)
  show ?thesis
  proof (cases "pred (seen s ?N)")
    case False
    have "\<not> (\<exists>k \<le> ?N. pred (seen s k))"
      using rise False unfolding rising_def by blast
    then show ?thesis
      using find False t1(2) one by (intro exI [of _ t1]) simp
  next
    case True
    obtain k t2 where t2: "tl_bisect pred 0 ?N (seen s ?N) t1 = Some (True, k, t2)" "first_at pred s k" "k \<le> ?N" "same_run s t2"
      "unat (tl_last_search_seeks (the_timeline t2)) \<le> unat (tl_last_search_seeks (the_timeline t1)) + m"
      using tl_bisect_finds [OF s rise t1(2), of 0 ?N m "seen s ?N"] True small by auto
    obtain t3 where t3: "tl_seek k (Some b) (count_seek t2) = Some (True, Some (seen s k), t3)" "same_run s t3"
      "tl_last_search_seeks (the_timeline t3) = tl_last_search_seeks (the_timeline (count_seek t2))"
      "tl_position (the_timeline t3) = min k (tl_event_count (the_timeline (count_seek t2)))"
      using tl_seek_seen [OF s, of "count_seek t2" k b] t2(4) by auto
    have "tl_event_count (the_timeline (count_seek t2)) = ?N" using t2(4) by (simp add: same_run_def tl_index_def count_seek_def)
    then have at: "tl_position (the_timeline t3) = k" using t3(4) t2(3) by simp
    have "unat (tl_last_search_seeks (the_timeline t3)) \<le> m + 2"
      using count_seek_seeks [of t2] t2(5) t3(3) one by simp
    moreover have "tl_find_first (Some pred) (Some b) t = Some (True, Some (seen s k), t3)"
      using find True t2(1) t3(1) by simp
    ultimately show ?thesis using t2(2,3) t3(2) at True by auto
  qed
qed

section \<open>Any sequence of moves\<close>

datatype tl_move = To nat | Back nat | Forward nat

fun make_move :: "tl_move \<Rightarrow> 'z tl \<Rightarrow> (bool \<times> tl_snapshot option \<times> 'z tl) option" where
  "make_move (To k) s = tl_seek k (Some sn_new) s"
| "make_move (Back n) s = tl_step_back n (Some sn_new) s"
| "make_move (Forward n) s = tl_step_forward n (Some sn_new) s"

fun make_moves :: "tl_move list \<Rightarrow> 'z tl \<Rightarrow> 'z tl option" where
  "make_moves [] s = Some s"
| "make_moves (m # ms) s = do { (_, _, s) \<leftarrow> make_move m s; make_moves ms s }"

text \<open>Where the moves lead.\<close>

fun move_target :: "nat \<Rightarrow> nat \<Rightarrow> tl_move \<Rightarrow> nat" where
  "move_target count pos (To k) = min k count"
| "move_target count pos (Back n) = min (pos - n) count"
| "move_target count pos (Forward n) = min ((pos + n) mod 2 ^ 64) count"

lemma make_move_seen:
  assumes "indexed s" "0 < tl_main_iters (the_timeline s)" "same_run s t"
  obtains t' where "make_move m t = Some (True, Some (seen s (move_target (tl_event_count (the_timeline s))
      (tl_position (the_timeline t)) m)), t')" "same_run s t'"
    "tl_position (the_timeline t') = move_target (tl_event_count (the_timeline s)) (tl_position (the_timeline t)) m"
proof -
  define k where "k = (case m of To k \<Rightarrow> k | Back n \<Rightarrow> tl_position (the_timeline t) - n
    | Forward n \<Rightarrow> (tl_position (the_timeline t) + n) mod 2 ^ 64)"
  have k: "make_move m t = tl_seek k (Some sn_new) t"
    "move_target (tl_event_count (the_timeline s)) (tl_position (the_timeline t)) m = min k (tl_event_count (the_timeline s))"
    by (cases m; simp add: k_def tl_step_back_def tl_step_forward_def)+
  have cnt: "tl_event_count (the_timeline t) = tl_event_count (the_timeline s)"
    using assms(3) by (simp add: same_run_def tl_index_def)
  have clamp: "seen s k = seen s (min k (tl_event_count (the_timeline s)))"
    by (simp add: seen_def tl_seek_def Let_def min_def)
  obtain t' where "tl_seek k (Some sn_new) t = Some (True, Some (seen s k), t')" "same_run s t'"
    "tl_position (the_timeline t') = min k (tl_event_count (the_timeline t))"
    using tl_seek_seen [OF assms, of k sn_new] by blast
  then show thesis using that k clamp cnt by simp
qed

lemma make_moves_run:
  assumes "indexed s" "0 < tl_main_iters (the_timeline s)" "same_run s t"
  shows "\<exists>t'. make_moves ms t = Some t' \<and> same_run s t'"
  using assms(3)
proof (induction ms arbitrary: t)
  case (Cons m ms)
  obtain t1 where "make_move m t = Some (True, Some (seen s (move_target (tl_event_count (the_timeline s))
      (tl_position (the_timeline t)) m)), t1)" "same_run s t1"
    using make_move_seen [OF assms(1,2) Cons.prems] by blast
  with Cons.IH show ?case by simp
qed simp

end
