(* ===== verification/Timeline_Example.thy ===== *)
theory Timeline_Example
  imports Timeline_Search
begin

text \<open>
  A small recorded run, worked out by hand: the firmware idles, receives a byte, consumes it,
  idles. It is the run the timeline's properties are instantiated on, and the one that shows
  a seek's answer depend on where the checkpoints are.
\<close>

section \<open>The run\<close>

definition demo_events :: "event list" where
  "demo_events = [mk_event EV_MMIO_READ 3 kSystickCnt 3, mk_event EV_IRQ_ENTER 3 kIrqUartRx 0,
     mk_event EV_MMIO_READ 6 kUart0Sr 3, mk_event EV_MMIO_READ 9 kUart0Dr 0x41,
     mk_event EV_MMIO_READ 12 kSystickCnt 12, mk_event EV_MMIO_READ 15 kSystickCnt 15]"

lemma pump_go': "g_ops s = Some Ops_replay \<Longrightarrow> rp_poll_irq tl_captures s = Some (kIrqUartRx, s1) \<Longrightarrow>
  g_mode s1 = MODE_REPLAY \<Longrightarrow> hal_run_isr tl_program kIrqUartRx s1 = Some s2 \<Longrightarrow> pump_loop tl_program s = pump_loop tl_program s2"
  by (subst pump_loop.simps) (simp add: replay_ops_def kIrqUartRx_def kNoIrq_def)

lemma host_isr: "isr_code (host_program caps) = fw_handlers (link \<lparr>vtable = host_vtable caps, isr_code = \<lambda>i s. None, sink_code = host_sinks\<rparr> fw_handlers 0)"
  by (simp add: host_program_def)

lemmas ev_defs = mmio_read32_def mmio_write32_def pump_irqs_def replay_ops_def rp_read32_def rp_write32_def rp_poll_irq_def
  rp_serve_def rp_upd_def fw_upd_def isr_uart_rx_def hal_run_isr_def Let_def

definition shown :: "'z tl \<Rightarrow> bool" where
  "shown s \<longleftrightarrow> g_ops s = Some Ops_replay \<and> g_mode s = MODE_REPLAY \<and> g_isr s = rx_vectors \<and> g_mask_depth s = 0 \<and>
     rp_events (the_replay s) = demo_events \<and> \<not> rp_check_writes (the_replay s)"

lemma shownD: "shown s \<Longrightarrow> g_ops s = Some Ops_replay" "shown s \<Longrightarrow> g_mode s = MODE_REPLAY"
  "shown s \<Longrightarrow> g_isr s = rx_vectors" "shown s \<Longrightarrow> g_mask_depth s = 0" "shown s \<Longrightarrow> rp_events (the_replay s) = demo_events"
  "shown s \<Longrightarrow> \<not> rp_check_writes (the_replay s)"
  by (simp_all add: shown_def)

definition quiet :: "nat \<Rightarrow> 'z tl \<Rightarrow> bool" where
  "quiet n s \<longleftrightarrow> rp_capture_fn (the_replay s) = None \<or> rp_captured (the_replay s) \<or> n < rp_capture_at (the_replay s)"

lemma quiet_capture: "quiet n s \<Longrightarrow> rp_cursor (the_replay s) \<le> n \<Longrightarrow> rp_maybe_capture tl_captures s = Some s"
  by (auto simp: quiet_def rp_maybe_capture_def split: option.split)

lemma quiet_upd [simp]:
  "quiet n (s\<lparr>g_state := fw\<rparr>) = quiet n s" "quiet n (s\<lparr>g_in_isr := b\<rparr>) = quiet n s"
  "quiet n (s\<lparr>the_replay := (the_replay s)\<lparr>rp_cursor := c, rp_events_served := e, rp_now := t\<rparr>\<rparr>) = quiet n s"
  by (simp_all add: quiet_def)

lemma quiet_pump: "shown s \<Longrightarrow> quiet n s \<Longrightarrow> rp_cursor (the_replay s) \<le> n \<Longrightarrow> rp_cursor (the_replay s) \<in> {0, 2, 3, 4, 5, 6} \<Longrightarrow> pump_loop tl_program s = Some s"
  by (subst pump_loop.simps) (auto simp: shown_def quiet_capture rp_poll_irq_def replay_ops_def demo_events_def Let_def)

definition fw1 :: fw_state where
  "fw1 = rx_pump_empty\<lparr>st_ring := (replicate 16 0)[0 := 0x41], st_head := 1, st_pending := 1\<rparr>"

lemmas demo_eval = ev_defs rx_vectors_def kMaxIrqVectors_def kIrqUartRx_def demo_events_def mk_event_def host_isr
  rx_pump_empty_def kRingSize_def wr_def kSrRxne_def fw1_def

lemma demo_isr:
  assumes "shown s" "quiet 4 s" "rp_cursor (the_replay s) = 2" "g_in_isr s" "g_state s = rx_pump_empty"
  shows "hal_run_isr tl_program kIrqUartRx s = Some (s\<lparr>the_replay := (the_replay s)\<lparr>rp_cursor := 4,
    rp_events_served := 2 + rp_events_served (the_replay s), rp_now := 9\<rparr>, g_state := fw1\<rparr>)"
  by (simp add: shownD [OF assms(1)] assms(2-) quiet_capture [where n = 4] demo_eval)

lemma demo_pump:
  assumes "shown s" "quiet 4 s" "rp_cursor (the_replay s) = 1" "g_in_isr s" "g_state s = rx_pump_empty"
  shows "pump_loop tl_program s = Some (s\<lparr>the_replay := (the_replay s)\<lparr>rp_cursor := 4,
    rp_events_served := 3 + rp_events_served (the_replay s), rp_now := 9\<rparr>, g_state := fw1\<rparr>)"
proof -
  let ?s1 = "s\<lparr>the_replay := (the_replay s)\<lparr>rp_cursor := 2, rp_events_served := rp_events_served (the_replay s) + 1, rp_now := 3\<rparr>\<rparr>"
  let ?s2 = "s\<lparr>the_replay := (the_replay s)\<lparr>rp_cursor := 4, rp_events_served := 3 + rp_events_served (the_replay s), rp_now := 9\<rparr>,
    g_state := fw1\<rparr>"
  have "rp_poll_irq tl_captures s = Some (kIrqUartRx, ?s1)"
    by (simp add: shownD [OF assms(1)] assms(2-) quiet_capture [where n = 4] rp_poll_irq_def rp_serve_def rp_upd_def
      demo_events_def Let_def numeral_2_eq_2)
  moreover have "shown ?s1" using assms(1) by (simp add: shown_def)
  then have "hal_run_isr tl_program kIrqUartRx ?s1 = Some ?s2"
    using demo_isr [of ?s1] assms by simp
  moreover have "shown ?s2" using assms(1) by (simp add: shown_def)
  then have "pump_loop tl_program ?s2 = Some ?s2"
    using assms(2) by (intro quiet_pump [where n = 4]) simp_all
  ultimately show ?thesis
    using pump_go' [of s ?s1 ?s2] shownD [OF assms(1)] by simp
qed

definition demo_at :: "nat \<Rightarrow> fw_state \<Rightarrow> 'z tl \<Rightarrow> bool" where
  "demo_at c fw s \<longleftrightarrow> shown s \<and> \<not> g_in_isr s \<and> g_state s = fw \<and> rp_cursor (the_replay s) = c"

lemma shown_upd [simp]:
  "shown (s\<lparr>g_state := fw\<rparr>) = shown s" "shown (s\<lparr>g_in_isr := h\<rparr>) = shown s"
  "shown (s\<lparr>the_replay := (the_replay s)\<lparr>rp_cursor := c, rp_events_served := e, rp_now := t\<rparr>\<rparr>) = shown s"
  "shown (s\<lparr>the_replay := (the_replay s)\<lparr>rp_captured := b\<rparr>\<rparr>) = shown s" "shown (s\<lparr>the_timeline := T\<rparr>) = shown s"
  by (simp_all add: shown_def)

lemma pending_empty: "st_pending rx_pump_empty = 0"
  by (simp add: rx_pump_empty_def)

lemma demo_iter0:
  assumes "demo_at 0 rx_pump_empty s" "quiet 4 s"
  shows "\<exists>s1. tl_iter kBuggy s = Some s1 \<and> demo_at 4 fw1 s1 \<and> the_timeline s1 = the_timeline s \<and>
     rp_watch (the_replay s1) = rp_watch (the_replay s)"
proof -
  have v: "shown s" "\<not> g_in_isr s" "g_state s = rx_pump_empty" "rp_cursor (the_replay s) = 0"
    using assms(1) by (simp_all add: demo_at_def)
  let ?s1 = "s\<lparr>the_replay := (the_replay s)\<lparr>rp_cursor := 1, rp_events_served := rp_events_served (the_replay s) + 1, rp_now := 3\<rparr>, g_in_isr := True\<rparr>"
  have "shown ?s1" using v(1) by simp
  note p = demo_pump [of ?s1, simplified, OF this [simplified] assms(2) v(3)]
  show ?thesis
    by (simp add: tl_iter_def rx_pump_run_def rx_pump_iter_def shownD [OF v(1)] v(2-) assms(2) quiet_capture [where n = 4] ev_defs
      demo_events_def p pending_empty)
      (use v(1) in \<open>simp add: demo_at_def shown_def rp_watch_def\<close>)
qed

definition ahead :: "nat \<Rightarrow> u64 \<Rightarrow> 'z tl \<Rightarrow> 'z tl" where
  "ahead c ts s = s\<lparr>the_replay := (the_replay s)\<lparr>rp_cursor := c, rp_events_served := rp_events_served (the_replay s) + 1, rp_now := ts\<rparr>\<rparr>"

lemma rp_read_demo:
  assumes "rp_maybe_capture tl_captures s = Some s1" "shown s1" "rp_cursor (the_replay s1) = c" "c \<in> {4, 5}"
  shows "rp_read32 tl_captures kSystickCnt s = Some (if c = 4 then 12 else 15, ahead (c + 1) (if c = 4 then 12 else 15) s1)"
  using assms(4)
  by (elim insertE) (simp_all add: rp_read32_def assms(1,3) shownD [OF assms(2)] demo_events_def Let_def rp_serve_def rp_upd_def ahead_def)

lemma mmio_demo:
  assumes "shown s" "rp_read32 tl_captures a s = Some (v, s2)" "shown s2" "\<not> g_in_isr s2"
  shows "mmio_read32 tl_program a s = Option.bind (pump_loop tl_program (s2\<lparr>g_in_isr := True\<rparr>)) (\<lambda>s. Some (v, s\<lparr>g_in_isr := False\<rparr>))"
  using assms(2,4) shownD [OF assms(1)] shownD [OF assms(3)]
  by (simp add: mmio_read32_def replay_ops_def pump_irqs_def)

lemma demo_read:
  assumes "shown s" "rp_maybe_capture tl_captures s = Some s1" "shown s1" "\<not> g_in_isr s1" "c \<in> {4, 5}" "rp_cursor (the_replay s1) = c"
  shows "mmio_read32 tl_program kSystickCnt s = 
    Option.bind (pump_loop tl_program ((ahead (c + 1) (if c = 4 then 12 else 15) s1)\<lparr>g_in_isr := True\<rparr>))
      (\<lambda>s. Some (if c = 4 then 12 else 15, s\<lparr>g_in_isr := False\<rparr>))"
  by (rule mmio_demo [OF assms(1) rp_read_demo [OF assms(2,3,6,5)]]) (use assms(3,4) in \<open>simp_all add: ahead_def\<close>)

lemma demo_write:
  assumes "shown s" "\<not> g_in_isr s" "quiet n s" "rp_cursor (the_replay s) \<le> n" "rp_cursor (the_replay s) \<in> {0,2,3,4,5,6}"
  shows "mmio_write32 tl_program a v s = Some (s\<lparr>g_in_isr := False\<rparr>)"
proof -
  have "pump_loop tl_program (s\<lparr>g_in_isr := True\<rparr>) = Some (s\<lparr>g_in_isr := True\<rparr>)"
    by (rule quiet_pump [where n = n]) (use assms in simp_all)
  then show ?thesis
    by (simp add: mmio_write32_def replay_ops_def rp_write32_def quiet_capture [OF assms(3,4)] shownD [OF assms(1)] assms(2) Let_def pump_irqs_def)
qed

definition fw1t :: fw_state where "fw1t = take_byte 0x41 fw1"
definition fw2 :: fw_state where "fw2 = fw1t\<lparr>st_last_stamp := 12, st_pending := 0\<rparr>"

lemma fw1_sel: "st_pending fw1 = 1" "rd (st_ring fw1) (unat (st_tail fw1)) = Some 0x41"
  by (simp_all add: fw1_def rx_pump_empty_def kRingSize_def)

lemma demo_consume:
  assumes "demo_at 4 fw1 s" "quiet 4 s" "pump_loop tl_program ((ahead 5 12 (s\<lparr>g_state := fw1t\<rparr>))\<lparr>g_in_isr := True\<rparr>) = Some s1"
    "shown s1" "quiet 9 s1" "rp_cursor (the_replay s1) = 5" "g_state s1 = fw1t"
  shows "tl_iter kBuggy s = Some (s1\<lparr>g_in_isr := False, g_state := fw2\<rparr>)"
proof -
  have v: "shown s" "\<not> g_in_isr s" "g_state s = fw1" "rp_cursor (the_replay s) = 4"
    using assms(1) by (simp_all add: demo_at_def)
  have "mmio_read32 tl_program kSystickCnt (s\<lparr>g_state := fw1t\<rparr>) = Some (12, s1\<lparr>g_in_isr := False\<rparr>)"
    using demo_read [of "s\<lparr>g_state := fw1t\<rparr>" "s\<lparr>g_state := fw1t\<rparr>" 4] v quiet_capture [of 4 "s\<lparr>g_state := fw1t\<rparr>"] assms(2,3) by simp
  moreover have "mmio_write32 tl_program a b (s1\<lparr>g_in_isr := False, g_state := fw1t\<lparr>st_last_stamp := 12\<rparr>\<rparr>) =
      Some (s1\<lparr>g_in_isr := False, g_state := fw1t\<lparr>st_last_stamp := 12\<rparr>\<rparr>)" for a b
    using demo_write [of "s1\<lparr>g_in_isr := False, g_state := fw1t\<lparr>st_last_stamp := 12\<rparr>\<rparr>" 9 a b] assms(4-7) by simp
  ultimately have "consume_one tl_program s = Some (s1\<lparr>g_in_isr := False, g_state := fw1t\<lparr>st_last_stamp := 12\<rparr>\<rparr>)"
    using v assms(7) by (simp add: consume_in_pieces fw1_sel show_count_def fw_upd_def fw1t_def)
  then show ?thesis
    by (simp add: tl_iter_def rx_pump_run_def rx_pump_iter_def v fw1_sel fw_upd_def fw2_def)
qed

definition taken :: "tl_snapshot \<Rightarrow> 'z tl \<Rightarrow> 'z tl" where
  "taken sn s = s\<lparr>the_replay := (the_replay s)\<lparr>rp_captured := True\<rparr>, the_timeline := (the_timeline s)\<lparr>tl_pending :=
     Some (sn\<lparr>sn_fw := g_state s, sn_state_hash := rx_pump_state_hash (g_state s), sn_ts := rp_now (the_replay s),
       sn_main_iter := tl_current_iter (the_timeline s), sn_valid := True\<rparr>)\<rparr>\<rparr>"

definition armed :: "tl_snapshot \<Rightarrow> 'z tl \<Rightarrow> bool" where
  "armed sn s \<longleftrightarrow> rp_watch (the_replay s) = (5, Some Timeline_capture, False) \<and> tl_pending (the_timeline s) = Some sn"

lemma armed_upd [simp]:
  "armed sn (s\<lparr>g_state := fw\<rparr>) = armed sn s" "armed sn (s\<lparr>g_in_isr := h\<rparr>) = armed sn s" "armed sn (ahead c ts s) = armed sn s"
  by (simp_all add: armed_def ahead_def rp_watch_def)

lemma armed_quiet: "armed sn s \<Longrightarrow> quiet 4 s"
  by (simp add: armed_def quiet_def rp_watch_def)

lemma armed_taken: "armed sn s \<Longrightarrow> rp_cursor (the_replay s) = 5 \<Longrightarrow> rp_maybe_capture tl_captures s = Some (taken sn s)"
  by (simp add: armed_def rp_maybe_capture_def rp_watch_def taken_def tl_capture_def rp_upd_def tl_upd_def)

lemma taken_sel [simp]:
  "shown (taken sn s) = shown s" "g_in_isr (taken sn s) = g_in_isr s" "g_state (taken sn s) = g_state s"
  "rp_cursor (the_replay (taken sn s)) = rp_cursor (the_replay s)" "quiet n (taken sn s)" "rp_captured (the_replay (taken sn s))"
  "tl_variant (the_timeline (taken sn s)) = tl_variant (the_timeline s)"
  by (simp_all add: taken_def shown_def quiet_def)

lemma ahead_sel [simp]:
  "shown (ahead c ts s) = shown s" "g_in_isr (ahead c ts s) = g_in_isr s" "g_state (ahead c ts s) = g_state s"
  "rp_cursor (the_replay (ahead c ts s)) = c" "quiet n (ahead c ts s) = quiet n s" "the_timeline (ahead c ts s) = the_timeline s"
  "rp_captured (the_replay (ahead c ts s)) = rp_captured (the_replay s)"
  by (simp_all add: ahead_def shown_def)

lemma due_pump:
  assumes "shown s" "armed sn s" "rp_cursor (the_replay s) = 5"
  shows "pump_loop tl_program s = Some (taken sn s)"
  using armed_taken [OF assms(2,3)] assms(3) shownD [OF assms(1)] shownD [of "taken sn s"] assms(1)
  by (subst pump_loop.simps) (simp add: replay_ops_def rp_poll_irq_def demo_events_def Let_def)

lemma demo_iter1:
  assumes "demo_at 4 fw1 s" "quiet 9 s"
  shows "\<exists>s1. tl_iter kBuggy s = Some s1 \<and> demo_at 5 fw2 s1 \<and> the_timeline s1 = the_timeline s \<and>
     rp_watch (the_replay s1) = rp_watch (the_replay s)"
proof -
  let ?x = "(ahead 5 12 (s\<lparr>g_state := fw1t\<rparr>))\<lparr>g_in_isr := True\<rparr>"
  have v: "shown s" using assms(1) by (simp add: demo_at_def)
  have "pump_loop tl_program ?x = Some ?x"
    by (rule quiet_pump [where n = 9]) (use v assms(2) in simp_all)
  moreover have "quiet 4 s" using assms(2) by (auto simp: quiet_def)
  ultimately have "tl_iter kBuggy s = Some (?x\<lparr>g_in_isr := False, g_state := fw2\<rparr>)"
    using demo_consume [OF assms(1), of ?x] v assms(2) by simp
  then show ?thesis using v by (simp add: demo_at_def) (simp add: ahead_def rp_watch_def)
qed

lemma demo_iter1_armed:
  assumes "demo_at 4 fw1 s" "armed sn s"
  shows "\<exists>s1 snap. tl_iter kBuggy s = Some s1 \<and> rp_captured (the_replay s1) \<and> tl_pending (the_timeline s1) = Some snap \<and>
    sn_fw snap = fw1t \<and> sn_main_iter snap = tl_current_iter (the_timeline s) \<and> sn_valid snap"
proof -
  let ?x = "(ahead 5 12 (s\<lparr>g_state := fw1t\<rparr>))\<lparr>g_in_isr := True\<rparr>"
  have v: "shown s" using assms(1) by (simp add: demo_at_def)
  have "pump_loop tl_program ?x = Some (taken sn ?x)"
    by (rule due_pump) (use v assms(2) in simp_all)
  then have "tl_iter kBuggy s = Some ((taken sn ?x)\<lparr>g_in_isr := False, g_state := fw2\<rparr>)"
    using demo_consume [OF assms(1) armed_quiet [OF assms(2)], of "taken sn ?x"] v by simp
  then show ?thesis by (simp add: taken_def)
qed

lemma demo_iter2_armed:
  assumes "demo_at 5 fw2 s" "armed sn s"
  shows "\<exists>s1 snap. tl_iter kBuggy s = Some s1 \<and> rp_captured (the_replay s1) \<and> tl_pending (the_timeline s1) = Some snap \<and>
    sn_fw snap = fw2 \<and> sn_main_iter snap = tl_current_iter (the_timeline s) \<and> sn_valid snap"
proof -
  have v: "shown s" "\<not> g_in_isr s" "g_state s = fw2" "rp_cursor (the_replay s) = 5" using assms(1) by (simp_all add: demo_at_def)
  let ?x = "(ahead 6 15 (taken sn s))\<lparr>g_in_isr := True\<rparr>"
  have "pump_loop tl_program ?x = Some ?x"
    by (rule quiet_pump [where n = 9]) (use v in simp_all)
  then have "mmio_read32 tl_program kSystickCnt s = Some (15, ?x\<lparr>g_in_isr := False\<rparr>)"
    using demo_read [OF v(1) armed_taken [OF assms(2) v(4)], of 5] v by simp
  moreover have "st_pending fw2 = 0" by (simp add: fw2_def)
  ultimately have "tl_iter kBuggy s = Some (?x\<lparr>g_in_isr := False\<rparr>)"
    by (simp add: tl_iter_def rx_pump_run_def rx_pump_iter_def v)
  then show ?thesis using v by (simp add: taken_def)
qed

lemma demo_seek_start:
  assumes "tl_main_iters (the_timeline s) = 3" "tl_variant (the_timeline s) = kBuggy"
    "rp_events (the_replay s) = demo_events" "\<not> rp_check_writes (the_replay s)"
  shows "\<exists>snap s'. seek_from start_checkpoint 5 s = Some (True, Some snap, s') \<and> sn_fw snap = fw1t \<and> sn_main_iter snap = 1"
proof -
  let ?i = "\<lambda>i. tl_upd (\<lambda>T. T\<lparr>tl_current_iter := i\<rparr>)"
  let ?a = "?i 0 (seek_start start_checkpoint 5 s)"
  have "demo_at 0 rx_pump_empty ?a" using assms
    by (simp add: demo_at_def shown_def seek_start_def installed_def start_checkpoint_def rp_upd_def tl_upd_def
        rp_set_capture_point_def rp_set_cursor_def)
  moreover have "armed (sn_new\<lparr>sn_event_index := 5\<rparr>) ?a"
    using seek_start_ready(3,4) [of start_checkpoint 5 s] by (simp add: armed_def)
  ultimately obtain s1 where s1: "tl_iter kBuggy ?a = Some s1" "demo_at 4 fw1 s1" "the_timeline s1 = the_timeline ?a"
    "rp_watch (the_replay s1) = rp_watch (the_replay ?a)" using demo_iter0 armed_quiet by blast
  have "demo_at 4 fw1 (?i 1 s1)" "armed (sn_new\<lparr>sn_event_index := 5\<rparr>) (?i 1 s1)"
    using s1(2,4) \<open>armed _ ?a\<close> s1(3) by (simp_all add: demo_at_def armed_def shown_def tl_upd_def)
  from demo_iter1_armed [OF this] obtain s2 snap where s2: "tl_iter kBuggy (?i 1 s1) = Some s2" "rp_captured (the_replay s2)"
    "tl_pending (the_timeline s2) = Some snap" "sn_fw snap = fw1t" "sn_main_iter snap = 1" "sn_valid snap" by auto
  have nc: "\<not> rp_captured (the_replay (seek_start start_checkpoint 5 s))" "\<not> rp_captured (the_replay s1)"
    using seek_start_ready(2,4) [of start_checkpoint 5 s] s1(4) by (simp_all add: rp_watch_def)
  have var: "tl_variant (the_timeline (seek_start start_checkpoint 5 s)) = kBuggy" "tl_variant (the_timeline s1) = kBuggy"
    using seek_start_run [of start_checkpoint 5 s] assms(2) s1(3) by (simp_all add: same_run_def tl_index_def)
  have "seek_passes 3 0 (seek_start start_checkpoint 5 s) = Some (?i 2 s2)"
    using s1(1) s2(1,2) nc var by (simp add: numeral_3_eq_3 tl_iter_def)
  then show ?thesis
    using s2 assms(1) by (simp add: seek_in_parts start_checkpoint_def seek_answer_def)
qed

lemma demo_seek_checkpoint:
  assumes "tl_main_iters (the_timeline s) = 3" "tl_variant (the_timeline s) = kBuggy"
    "rp_events (the_replay s) = demo_events" "\<not> rp_check_writes (the_replay s)" "demo_at 5 fw2 p"
  shows "\<exists>snap s'. seek_from (ckpt 2 p) 5 s = Some (True, Some snap, s') \<and> sn_fw snap = fw2 \<and> sn_main_iter snap = 2"
proof -
  let ?i = "\<lambda>i. tl_upd (\<lambda>T. T\<lparr>tl_current_iter := i\<rparr>)"
  let ?a = "?i 2 (seek_start (ckpt 2 p) 5 s)"
  have "demo_at 5 fw2 ?a" using assms
    by (simp add: demo_at_def shown_def seek_start_def installed_def ckpt_def rp_upd_def tl_upd_def
        rp_set_capture_point_def rp_set_cursor_def)
  moreover have "armed (sn_new\<lparr>sn_event_index := 5\<rparr>) ?a"
    using seek_start_ready(3,4) [of "ckpt 2 p" 5 s] by (simp add: armed_def)
  ultimately obtain s2 snap where s2: "tl_iter kBuggy ?a = Some s2" "rp_captured (the_replay s2)"
    "tl_pending (the_timeline s2) = Some snap" "sn_fw snap = fw2" "sn_main_iter snap = 2" "sn_valid snap"
    using demo_iter2_armed [of ?a "sn_new\<lparr>sn_event_index := 5\<rparr>"] by auto
  have "tl_variant (the_timeline (seek_start (ckpt 2 p) 5 s)) = kBuggy"
    using seek_start_run [of "ckpt 2 p" 5 s] assms(2) by (simp add: same_run_def tl_index_def)
  then have "seek_passes (Suc 0) 2 (seek_start (ckpt 2 p) 5 s) = Some s2"
    using s2(1) seek_start_ready(2) [of "ckpt 2 p" 5 s] by (simp add: tl_iter_def)
  then show ?thesis
    using s2 assms(1) by (simp add: seek_in_parts ckpt_def seek_answer_def)
qed

lemma demo_at_add [simp]: "demo_at c fw (add_checkpoint i s) = demo_at c fw s" "quiet n (add_checkpoint i s) = quiet n s"
  by (simp_all add: add_checkpoint_def demo_at_def shown_def tl_upd_def quiet_def)

lemma add_checkpoint_timeline:
  "tl_checkpoints (the_timeline (add_checkpoint i s)) = tl_checkpoints (the_timeline s) @
     (if i mod tl_checkpoint_every (the_timeline s) = 0 then [\<lparr>cp_main_iter = i,
        cp_cursor = rp_cursor (the_replay s), cp_ts = rp_now (the_replay s), cp_fw = g_state s\<rparr>] else [])"
  "tl_checkpoint_every (the_timeline (add_checkpoint i s)) = tl_checkpoint_every (the_timeline s)"
  by (simp_all add: add_checkpoint_def)

text \<open>Opening the run with every number of iterations between checkpoints.\<close>

lemma demo_passes:
  fixes s :: "'z tl"
  assumes "rp_events rp = demo_events" "\<not> rp_check_writes rp"
  shows "\<exists>r (p1 :: 'z tl) (p2 :: 'z tl). open_passes 3 0 (pass_start (open_start kBuggy 3 every rp s)) = Some r \<and> 5 \<le> rp_cursor (the_replay r) \<and>
    demo_at 5 fw2 p2 \<and> demo_at 4 fw1 p1 \<and>
    (every = 1 \<longrightarrow> tl_checkpoints (the_timeline r) = [start_checkpoint, ckpt 1 p1, ckpt 2 p2]) \<and>
    (every = 128 \<longrightarrow> tl_checkpoints (the_timeline r) = [start_checkpoint])"
proof -
  define a where "a = pass_start (open_start kBuggy 3 every rp s)"
  have a: "demo_at 0 rx_pump_empty a" "rp_capture_fn (the_replay a) = None" "tl_checkpoints (the_timeline a) = []"
    "tl_checkpoint_every (the_timeline a) = (if every \<noteq> 0 then every else 1)" "tl_variant (the_timeline a) = kBuggy"
    using assms by (simp_all add: a_def demo_at_def shown_def)
      (simp_all add: pass_start_def installed_def rp_upd_def rp_set_cursor_def rp_clear_capture_point_def)
  let ?b = "add_checkpoint 0 a"
  have "quiet 4 a" using a(2) by (simp add: quiet_def)
  then obtain s1 where s1: "tl_iter kBuggy ?b = Some s1" "demo_at 4 fw1 s1" "the_timeline s1 = the_timeline ?b"
    "rp_watch (the_replay s1) = rp_watch (the_replay ?b)" using demo_iter0 [of ?b] a(1) by auto
  let ?c = "add_checkpoint 1 s1"
  have "quiet 9 s1" using s1(4) a(2) by (simp add: quiet_def rp_watch_def)
  then obtain s2 where s2: "tl_iter kBuggy ?c = Some s2" "demo_at 5 fw2 s2" "the_timeline s2 = the_timeline ?c"
    using demo_iter1 [of ?c] s1(2) by auto
  let ?d = "add_checkpoint 2 s2"
  have d: "demo_at 5 fw2 ?d" using s2(2) by simp
  have "tl_same False ?d ?d" "\<not> g_in_isr ?d" using d unfolding demo_at_def
    by (simp_all add: alike_def serving_def shown_def) (simp_all add: fw2_def fw1t_def take_byte_def fw1_def rx_pump_empty_def fw_ok_def kRingSize_def)
  then obtain s3 where s3: "tl_iter kBuggy ?d = Some s3" "tl_went ?d s3" by (rule tl_iter_determined)
  have "open_passes 3 0 a = Some s3"
    using s1(1,3) s2(1,3) s3(1) a(5) by (simp add: numeral_3_eq_3 tl_iter_def)
  moreover have "5 \<le> rp_cursor (the_replay s3)" using went_moved [OF s3(2)] d by (simp add: demo_at_def)
  moreover have "tl_checkpoints (the_timeline s3) = tl_checkpoints (the_timeline ?d)"
    using tl_went_run [OF s3(2)] by (simp add: same_run_def tl_index_def)
  moreover have "ckpt 0 a = start_checkpoint" by (simp add: a_def ckpt_start)
  moreover have "tl_checkpoint_every (the_timeline s1) = (if every \<noteq> 0 then every else 1)"
    "tl_checkpoint_every (the_timeline s2) = (if every \<noteq> 0 then every else 1)"
    using s1(3) s2(3) a(4) by (simp_all add: add_checkpoint_timeline)
  ultimately have "open_passes 3 0 a = Some s3 \<and> 5 \<le> rp_cursor (the_replay s3) \<and>
      (every = 1 \<longrightarrow> tl_checkpoints (the_timeline s3) = [start_checkpoint, ckpt 1 s1, ckpt 2 s2]) \<and>
      (every = 128 \<longrightarrow> tl_checkpoints (the_timeline s3) = [start_checkpoint])"
    using a(3,4) by (simp add: add_checkpoint_timeline s1(3) s2(3) ckpt_def)
  with s1(2) s2(2) show ?thesis unfolding a_def by blast
qed

definition demo_trace :: bytes where
  "demo_trace = header_bytes kBuildIdBuggy 1 0 @ frames_of 0 (0, 0) [(demo_events, True)] @ put_u32_le 0"

lemma demo_trace_loads:
  "\<exists>rp :: 'c replay_hal. rp_load demo_trace rp_new = Some (True, rp) \<and> h_build_id (rp_header rp) = kBuildIdBuggy \<and>
     rp_events rp = demo_events \<and> \<not> rp_check_writes rp"
proof -
  have "length (frames_of 0 (0, 0) [(demo_events, True)]) \<le> 43 * length (hist_events [(demo_events, True)])"
    by (rule length_frames_of) (simp add: demo_events_def)
  then have len: "length demo_trace \<le> 0xFFFFFFFF"
    by (simp add: demo_trace_def hist_events_def demo_events_def)
  have "\<forall>e \<in> set (hist_events [(demo_events, True)]). ev_ok e"
    by (simp add: hist_events_def demo_events_def)
  from rp_load_trace [OF demo_trace_def len _ this]
  have "rp_load demo_trace rp_new = Some (True, rp_new\<lparr>rp_header := \<lparr>h_magic = kTraceMagic,
      h_version = kTraceVersion, h_flags = 0, h_build_id = kBuildIdBuggy, h_seed = 1\<rparr>,
      rp_check_writes := False, rp_events := demo_events\<rparr> :: 'c replay_hal)"
    by (simp add: hist_events_def demo_events_def)
  then show ?thesis by (intro exI) auto
qed

lemma demo_opens:
  fixes s :: "'z tl"
  assumes "the_replay s = rp_new"
  shows "\<exists>s' (p1 :: 'z tl) (p2 :: 'z tl). tl_open demo_trace 3 every s = Some (True, s') \<and> tl_main_iters (the_timeline s') = 3 \<and>
    tl_variant (the_timeline s') = kBuggy \<and> rp_events (the_replay s') = demo_events \<and> \<not> rp_check_writes (the_replay s') \<and>
    5 \<le> tl_event_count (the_timeline s') \<and> demo_at 5 fw2 p2 \<and> demo_at 4 fw1 p1 \<and>
    (every = 1 \<longrightarrow> tl_checkpoints (the_timeline s') = [start_checkpoint, ckpt 1 p1, ckpt 2 p2]) \<and>
    (every = 128 \<longrightarrow> tl_checkpoints (the_timeline s') = [start_checkpoint])"
proof -
  obtain rp :: "capture_addr replay_hal" where rp: "rp_load demo_trace rp_new = Some (True, rp)" "h_build_id (rp_header rp) = kBuildIdBuggy"
    "rp_events rp = demo_events" "\<not> rp_check_writes rp" using demo_trace_loads by blast
  obtain r p1 p2 :: "'z tl" where r: "open_passes 3 0 (pass_start (open_start kBuggy 3 every rp s)) = Some r" "5 \<le> rp_cursor (the_replay r)"
    "demo_at 5 fw2 p2" "demo_at 4 fw1 p1"
    "every = 1 \<longrightarrow> tl_checkpoints (the_timeline r) = [start_checkpoint, ckpt 1 p1, ckpt 2 p2]"
    "every = 128 \<longrightarrow> tl_checkpoints (the_timeline r) = [start_checkpoint]" using demo_passes [OF rp(3,4), of every s] by blast
  have "variant_for_build_id (h_build_id (rp_header rp)) = Some kBuggy" using rp(2) by (simp add: variant_for_build_id_def)
  from tl_open_loaded [of demo_trace s rp, OF _ this] rp(1) r(1) assms
  have op: "tl_open demo_trace 3 every s = Some (True, open_end r)" by simp
  obtain r' where r': "open_passes 3 0 (pass_start (open_start kBuggy 3 every rp s)) = Some r'"
    "tl_main_iters (the_timeline (open_end r')) = 3" "tl_variant (the_timeline (open_end r')) = kBuggy"
    "rp_events (the_replay r') = rp_events rp" "rp_check_writes (the_replay r') = rp_check_writes rp"
    using open_passes_opened [of 3 kBuggy every rp s] by auto
  have "r' = r" using r(1) r'(1) by simp
  then have "tl_main_iters (the_timeline (open_end r)) = 3" "tl_variant (the_timeline (open_end r)) = kBuggy"
    "rp_events (the_replay (open_end r)) = demo_events" "\<not> rp_check_writes (the_replay (open_end r))"
    "5 \<le> tl_event_count (the_timeline (open_end r))"
    "tl_checkpoints (the_timeline (open_end r)) = tl_checkpoints (the_timeline r)"
    using r'(2-) r(2) rp(3,4) by simp_all
  with op r(3-6) show ?thesis by metis
qed

end
