(* ===== verification/Timeline_Properties.thy ===== *)
theory Timeline_Properties
  imports Timeline_Example
begin

text \<open>The properties of the timeline, after any sequence of moves in an opened one.\<close>

section \<open>Opening\<close>

text \<open>
  C25. Opening succeeds exactly on the traces that load and name a known firmware build, and
  never fails to return, whatever the bytes are. A timeline that did not open answers every
  seek with false and leaves the caller's snapshot as it was.
\<close>

theorem tl_open_total:
  "\<exists>ok s'. tl_open trace n every s = Some (ok, s') \<and> tl_opened (the_timeline s') = ok \<and>
     ok = (\<exists>rp v. rp_load trace (the_replay s) = Some (True, rp) \<and>
       variant_for_build_id (h_build_id (rp_header rp)) = Some v) \<and>
     (ok \<or> tl_seek k b s' = Some (False, b, s'))"
proof -
  obtain ok rp where load: "rp_load trace (the_replay s) = Some (ok, rp)"
    using rp_load_total [of trace "the_replay s"] by blast
  show ?thesis
  proof (cases "ok \<and> variant_for_build_id (h_build_id (rp_header rp)) \<noteq> None")
    case True
    then obtain v where v: "ok" "variant_for_build_id (h_build_id (rp_header rp)) = Some v" by blast
    obtain r where "open_passes (unat n) 0 (pass_start (open_start v n every rp s)) = Some r"
      using open_passes_opened by blast
    with tl_open_loaded [OF _ v(2) this] load v show ?thesis by (intro exI [of _ True]) simp
  next
    case False
    then show ?thesis using load
      by (cases ok) (auto simp: tl_open_def Let_def tl_seek_def)
  qed
qed

text \<open>
  C22. The index is an invariant: from the opening on and through any moves, every checkpoint
  holds the firmware state, the event and the time that replaying that many iterations from
  the beginning leads to, and the first checkpoint is the beginning.
\<close>

theorem checkpoints_stay_right:
  assumes "tl_open trace n every s = Some (True, s0)" "0 < n"
  shows "\<exists>s1. make_moves ms s0 = Some s1 \<and> indexed s1 \<and> tl_main_iters (the_timeline s1) = n"
proof -
  have i: "indexed s0" "tl_main_iters (the_timeline s0) = n" using tl_open_indexed [OF assms(1)] by auto
  then obtain s1 where s1: "make_moves ms s0 = Some s1" "same_run s0 s1"
    using make_moves_run [OF i(1) _ same_run_refl] assms(2) by auto
  with indexed_run [OF s1(2) i(1)] i(2) show ?thesis by (auto simp: same_run_def tl_index_def)
qed

section \<open>Seeking\<close>

lemma moved_timeline:
  assumes "tl_open trace n every s = Some (True, s0)" "0 < n" "make_moves ms s0 = Some s1"
  shows "indexed s0" "0 < tl_main_iters (the_timeline s0)" "same_run s0 s1"
  using tl_open_indexed [OF assms(1)] make_moves_run [of s0 s0 ms] assms(2,3) by auto

text \<open>
  C20. A seek finds what replaying from the beginning finds. In an opened timeline, with
  whatever interval between checkpoints and after whatever moves, seeking an event gives the
  snapshot that a replay from the start of the run takes at that event, as long as no later
  checkpoint sits exactly on it. An event past the end stands for the end.
\<close>

theorem seek_is_reexecution:
  assumes "tl_open trace n every s = Some (True, s0)" "0 < n" "make_moves ms s0 = Some s1"
    and "\<forall>cp \<in> set (tl_checkpoints (the_timeline s0)).
      cp_cursor cp = min k (tl_event_count (the_timeline s0)) \<longrightarrow> cp_main_iter cp = 0"
  shows "\<exists>snap s2 s3. tl_seek k (Some b) s1 = Some (True, Some snap, s2) \<and>
    seek_from start_checkpoint (min k (tl_event_count (the_timeline s0))) s1 = Some (True, Some snap, s3) \<and>
    sn_event_index snap = min k (tl_event_count (the_timeline s0))"
proof -
  note m = moved_timeline [OF assms(1-3)]
  let ?k = "min k (tl_event_count (the_timeline s0))"
  have i: "tl_index (the_timeline s1) = tl_index (the_timeline s0)" using m(3) by (simp add: same_run_def)
  have i1: "indexed s1" "0 < tl_main_iters (the_timeline s1)"
    using indexed_run [OF m(3,1)] m(2) i by (simp_all add: tl_index_def)
  obtain cp where cp: "tl_nearest ?k (the_timeline s1) = Some cp" "cp \<in> set (tl_checkpoints (the_timeline s1))"
    "cp_cursor cp \<le> ?k" "boundary (tl_variant (the_timeline s1)) (pass_start s1) (unat (tl_main_iters (the_timeline s1))) cp"
    using nearest_indexed [OF i1] by blast
  have "cp_cursor cp < ?k \<or> cp = start_checkpoint"
  proof (cases "cp_cursor cp < ?k")
    case False
    then have "cp_main_iter cp = 0" using assms(4) cp(2,3) i by (auto simp: tl_index_def)
    moreover obtain j p where j: "j < unat (tl_main_iters (the_timeline s1))"
      "tl_iters (tl_variant (the_timeline s1)) j (pass_start s1) = Some p" "cp = ckpt j p"
      using cp(4) by (auto simp: boundary_def)
    moreover have "unat (of_nat j :: u32) = j" using j(1) unat_u32_lt [of "tl_main_iters (the_timeline s1)"] by simp
    ultimately have "j = 0" by (metis checkpoint.select_convs(1) ckpt_def unat_0)
    then have "pass_start s1 = p" using j(2) by simp
    then show ?thesis using j(3) \<open>j = 0\<close> ckpt_start [of s1] by simp
  qed simp
  from seek_from_checkpoint [OF cp(4) this] obtain snap s2 s3 where
    2: "seek_from cp ?k s1 = Some (True, Some snap, s2)" "seek_from start_checkpoint ?k s1 = Some (True, Some snap, s3)" by blast
  have "tl_seek k (Some b) s1 = seek_from cp ?k s1"
    using tl_seek_from [of s1 k cp b] cp(1) i i1(1) by (simp add: tl_index_def indexed_def Let_def)
  moreover have "sn_event_index snap = ?k"
    using seek_from_same [OF same_run_refl, of cp ?k s1] 2(1) indexed_fw_ok [OF i1(1) cp(2)] by auto
  ultimately show ?thesis using 2 by auto
qed

text \<open>
  C23. Navigation has no memory but the position. After any moves, the next move succeeds, it
  goes where the arithmetic of positions says, clamped to the end of the run, and it shows
  what a seek there shows straight after opening: walking back retraces the run.
\<close>

theorem navigation_is_repeatable:
  assumes "tl_open trace n every s = Some (True, s0)" "0 < n"
  shows "\<exists>s1 s2. make_moves ms s0 = Some s1 \<and>
    (let k = move_target (tl_event_count (the_timeline s0)) (tl_position (the_timeline s1)) m in
     make_move m s1 = Some (True, Some (seen s0 k), s2) \<and> tl_position (the_timeline s2) = k \<and>
     sn_event_index (seen s0 k) = k)"
proof -
  have i: "indexed s0" "0 < tl_main_iters (the_timeline s0)" using tl_open_indexed [OF assms(1)] assms(2) by auto
  obtain s1 where s1: "make_moves ms s0 = Some s1" using make_moves_run [OF i same_run_refl] by blast
  note m = moved_timeline [OF assms s1]
  let ?k = "move_target (tl_event_count (the_timeline s0)) (tl_position (the_timeline s1)) m"
  obtain s2 where "make_move m s1 = Some (True, Some (seen s0 ?k), s2)" "tl_position (the_timeline s2) = ?k"
    using make_move_seen [OF m] by blast
  moreover have "min ?k (tl_event_count (the_timeline s0)) = ?k" by (cases m) auto
  then have "sn_event_index (seen s0 ?k) = ?k"
    using tl_seek_seen [OF m(1,2) same_run_refl, of ?k] by metis
  ultimately show ?thesis using s1 by (simp add: Let_def)
qed

text \<open>
  C24. A search finds the first event at which a monotonic predicate holds, and shows it; a
  predicate that never holds is reported and the caller's snapshot left alone. Of a run of
  fewer than \<^verbatim>\<open>2 ^ m\<close> events it makes at most \<^verbatim>\<open>m + 2\<close> seeks.
\<close>

theorem find_first_is_right:
  assumes "tl_open trace n every s = Some (True, s0)" "0 < n" "make_moves ms s0 = Some s1"
    and "rising pred s0" "tl_event_count (the_timeline s0) < 2 ^ m"
  shows "\<exists>s2. unat (tl_last_search_seeks (the_timeline s2)) \<le> m + 2 \<and>
    (if \<exists>k \<le> tl_event_count (the_timeline s0). pred (seen s0 k)
     then \<exists>k \<le> tl_event_count (the_timeline s0). pred (seen s0 k) \<and> (\<forall>i < k. \<not> pred (seen s0 i)) \<and>
       tl_find_first (Some pred) (Some b) s1 = Some (True, Some (seen s0 k), s2)
     else tl_find_first (Some pred) (Some b) s1 = Some (False, Some b, s2))"
proof -
  note m = moved_timeline [OF assms(1-3)]
  from tl_find_first_finds [OF m(1,2) assms(4) m(3) assms(5), of b] show ?thesis
    unfolding first_at_def by (metis (no_types, lifting))
qed

text \<open>
  C21. Where the checkpoints are shows. The same trace, opened with a checkpoint at every
  iteration and with one every 128, answers a seek of event 5 with two different firmware
  states: with a checkpoint exactly on the event the state at the start of the third
  iteration, without one the state in the middle of the second, before it cleared the count
  of pending bytes.
\<close>

theorem seek_depends_on_checkpoints:
  fixes s :: "'z tl"
  assumes "the_replay s = rp_new"
  shows "\<exists>dense sparse a b s1 s2. tl_open demo_trace 3 1 s = Some (True, dense) \<and> tl_open demo_trace 3 128 s = Some (True, sparse) \<and>
    tl_seek 5 (Some sn_new) dense = Some (True, Some a, s1) \<and> tl_seek 5 (Some sn_new) sparse = Some (True, Some b, s2) \<and>
    sn_main_iter a = 2 \<and> sn_main_iter b = 1 \<and>
    st_pending (sn_fw a) = 0 \<and> st_pending (sn_fw b) = 1"
proof -
  have fws: "st_pending fw2 = 0" "st_pending fw1t = 1"
    by (simp_all add: fw2_def fw1t_def fw1_def take_byte_def)
  obtain dense p1 p2 :: "'z tl" where d: "tl_open demo_trace 3 1 s = Some (True, dense)" "tl_main_iters (the_timeline dense) = 3"
    "tl_variant (the_timeline dense) = kBuggy" "rp_events (the_replay dense) = demo_events" "\<not> rp_check_writes (the_replay dense)"
    "5 \<le> tl_event_count (the_timeline dense)" "demo_at 5 fw2 p2" "demo_at 4 fw1 p1"
    "tl_checkpoints (the_timeline dense) = [start_checkpoint, ckpt 1 p1, ckpt 2 p2]"
    using demo_opens [OF assms, of 1] by blast
  obtain sparse :: "'z tl" where e: "tl_open demo_trace 3 128 s = Some (True, sparse)" "tl_main_iters (the_timeline sparse) = 3"
    "tl_variant (the_timeline sparse) = kBuggy" "rp_events (the_replay sparse) = demo_events" "\<not> rp_check_writes (the_replay sparse)"
    "5 \<le> tl_event_count (the_timeline sparse)" "tl_checkpoints (the_timeline sparse) = [start_checkpoint]"
    using demo_opens [OF assms, of 128] by blast
  have "tl_opened (the_timeline dense)" "tl_opened (the_timeline sparse)"
    using tl_open_indexed [OF d(1)] tl_open_indexed [OF e(1)] by (simp_all add: indexed_def Let_def)
  moreover have "tl_nearest (min 5 (tl_event_count (the_timeline dense))) (the_timeline dense) = Some (ckpt 2 p2)"
    "tl_nearest (min 5 (tl_event_count (the_timeline sparse))) (the_timeline sparse) = Some start_checkpoint"
    using d(6-9) e(6,7) by (simp_all add: tl_nearest_def start_checkpoint_def ckpt_def demo_at_def)
  ultimately have "tl_seek 5 (Some sn_new) dense = seek_from (ckpt 2 p2) 5 dense"
    "tl_seek 5 (Some sn_new) sparse = seek_from start_checkpoint 5 sparse"
    using tl_seek_from [of dense 5] tl_seek_from [of sparse 5] d(6) e(6) by simp_all
  moreover obtain a s1 where "seek_from (ckpt 2 p2) 5 dense = Some (True, Some a, s1)" "sn_fw a = fw2" "sn_main_iter a = 2"
    using demo_seek_checkpoint [OF d(2-5,7)] by blast
  moreover obtain b s2 where "seek_from start_checkpoint 5 sparse = Some (True, Some b, s2)" "sn_fw b = fw1t" "sn_main_iter b = 1"
    using demo_seek_start [OF e(2-5)] by blast
  ultimately show ?thesis
    using d(1) e(1) fws by auto
qed

section \<open>Witnesses\<close>

definition demo_timeline :: timeline_world where
  "demo_timeline = world.extend tl_blank (timeline_world.fields tl_new)"

lemma demo_timeline_replay: "the_replay demo_timeline = rp_new"
  by (simp add: demo_timeline_def tl_blank_def world.defs timeline_world.defs)

lemma demo_opened:
  obtains s0 where "tl_open demo_trace 3 128 demo_timeline = Some (True, s0)" "5 \<le> tl_event_count (the_timeline s0)"
    "tl_checkpoints (the_timeline s0) = [start_checkpoint]"
  using demo_opens [OF demo_timeline_replay, of 128] by auto

theorem checkpoints_stay_right_witness:
  "\<exists>s0 s1. tl_open demo_trace 3 128 demo_timeline = Some (True, s0) \<and> make_moves [To 5, Back 1] s0 = Some s1 \<and> indexed s1"
proof -
  obtain s0 where "tl_open demo_trace 3 128 demo_timeline = Some (True, s0)" using demo_opened by blast
  with checkpoints_stay_right [OF this, of "[To 5, Back 1]"] show ?thesis by auto
qed

theorem seek_is_reexecution_witness:
  "\<exists>s0 s1 snap s2 s3. tl_open demo_trace 3 128 demo_timeline = Some (True, s0) \<and> make_moves [To 2, Forward 1] s0 = Some s1 \<and>
    tl_seek 5 (Some sn_new) s1 = Some (True, Some snap, s2) \<and>
    seek_from start_checkpoint 5 s1 = Some (True, Some snap, s3) \<and> sn_event_index snap = 5"
proof -
  obtain s0 where s0: "tl_open demo_trace 3 128 demo_timeline = Some (True, s0)" "5 \<le> tl_event_count (the_timeline s0)"
    "tl_checkpoints (the_timeline s0) = [start_checkpoint]" using demo_opened by blast
  obtain s1 where s1: "make_moves [To 2, Forward 1] s0 = Some s1"
    using tl_open_indexed [OF s0(1)] make_moves_run [of s0 s0 "[To 2, Forward 1]"] by auto
  have "\<forall>cp \<in> set (tl_checkpoints (the_timeline s0)). cp_cursor cp = min 5 (tl_event_count (the_timeline s0)) \<longrightarrow> cp_main_iter cp = 0"
    using s0(3) by (simp add: start_checkpoint_def)
  from seek_is_reexecution [OF s0(1) _ s1 this, of sn_new] s0 s1 show ?thesis by auto
qed

theorem navigation_is_repeatable_witness:
  "\<exists>s0 s1 s2. tl_open demo_trace 3 128 demo_timeline = Some (True, s0) \<and> make_moves [To 3] s0 = Some s1 \<and>
    make_move (Back 1) s1 = Some (True, Some (seen s0 (tl_position (the_timeline s2))), s2)"
proof -
  obtain s0 where "tl_open demo_trace 3 128 demo_timeline = Some (True, s0)" using demo_opened by blast
  with navigation_is_repeatable [OF this, of "[To 3]" "Back 1"] show ?thesis by (auto simp: Let_def)
qed

theorem find_first_is_right_witness:
  "\<exists>s0 s2. tl_open demo_trace 3 128 demo_timeline = Some (True, s0) \<and>
    tl_find_first (Some (\<lambda>snap. 3 \<le> sn_event_index snap)) (Some sn_new) s0 = Some (True, Some (seen s0 3), s2)"
proof -
  obtain s0 where s0: "tl_open demo_trace 3 128 demo_timeline = Some (True, s0)" "5 \<le> tl_event_count (the_timeline s0)"
    using demo_opened by blast
  have index: "sn_event_index (seen s0 k) = min k (tl_event_count (the_timeline s0))" for k
    using tl_seek_seen [of s0 s0 k] tl_open_indexed [OF s0(1)] by auto
  then have "rising (\<lambda>snap. 3 \<le> sn_event_index snap) s0" "tl_event_count (the_timeline s0) < 2 ^ tl_event_count (the_timeline s0)"
    by (simp_all add: rising_def)
  from find_first_is_right [OF s0(1) _ _ this, of "[]" s0 sn_new] obtain s2 where
    "if \<exists>k \<le> tl_event_count (the_timeline s0). 3 \<le> sn_event_index (seen s0 k)
     then \<exists>k \<le> tl_event_count (the_timeline s0). 3 \<le> sn_event_index (seen s0 k) \<and> (\<forall>i < k. \<not> 3 \<le> sn_event_index (seen s0 i)) \<and>
       tl_find_first (Some (\<lambda>snap. 3 \<le> sn_event_index snap)) (Some sn_new) s0 = Some (True, Some (seen s0 k), s2)
     else tl_find_first (Some (\<lambda>snap. 3 \<le> sn_event_index snap)) (Some sn_new) s0 = Some (False, Some sn_new, s2)" by auto
  moreover have "\<exists>k \<le> tl_event_count (the_timeline s0). 3 \<le> sn_event_index (seen s0 k)"
    using s0(2) index by (intro exI [of _ 3]) simp
  ultimately obtain k where k: "3 \<le> sn_event_index (seen s0 k)" "\<forall>i < k. \<not> 3 \<le> sn_event_index (seen s0 i)"
    "tl_find_first (Some (\<lambda>snap. 3 \<le> sn_event_index snap)) (Some sn_new) s0 = Some (True, Some (seen s0 k), s2)" by auto
  have "k = 3" using k(1,2) [unfolded index] s0(2) by (metis min.bounded_iff nle_le order_trans linorder_neqE_nat not_le)
  with k(3) s0(1) show ?thesis by auto
qed

theorem seek_depends_on_checkpoints_witness:
  "\<exists>dense sparse. tl_open demo_trace 3 1 demo_timeline = Some (True, dense) \<and>
    tl_open demo_trace 3 128 demo_timeline = Some (True, sparse) \<and> seen dense 5 \<noteq> seen sparse 5"
proof -
  from seek_depends_on_checkpoints [OF demo_timeline_replay] obtain dense sparse a b s1 s2 where
    "tl_open demo_trace 3 1 demo_timeline = Some (True, dense)" "tl_open demo_trace 3 128 demo_timeline = Some (True, sparse)"
    "tl_seek 5 (Some sn_new) dense = Some (True, Some a, s1)" "tl_seek 5 (Some sn_new) sparse = Some (True, Some b, s2)"
    "sn_main_iter a = 2" "sn_main_iter b = 1" by blast
  then show ?thesis by (intro exI [of _ dense] exI [of _ sparse]) (auto simp: seen_def)
qed

end
