(* ===== verification/Cortex_M.thy ===== *)
theory Cortex_M
  imports Clock Recorder Sink_Frame
begin

text \<open>
  The port to silicon, \<^verbatim>\<open>target/src/cortex_m.cpp\<close>: memory-mapped registers behind \<^verbatim>\<open>volatile\<close>
  pointers, a 32-bit cycle counter widened by the clock extender, and interrupts dispatched by
  the hardware, whose vector entries announce themselves. The registers are hardware and so a
  parameter, the \<^verbatim>\<open>register_bus\<close>: what a read or a write of an address does to a device state
  of any type.
\<close>

section \<open>Registers\<close>

record 'b register_bus =
  bus_read :: "u32 \<Rightarrow> 'b \<Rightarrow> u32 \<times> 'b"
  bus_write :: "u32 \<Rightarrow> u32 \<Rightarrow> 'b \<Rightarrow> 'b"

definition kDemcr :: u32 where "kDemcr = 0xE000EDFC"
definition kDemcrTrcena :: u32 where "kDemcrTrcena = 0x01000000"
definition kDwtCtrl :: u32 where "kDwtCtrl = 0xE0001000"
definition kDwtCyccnt :: u32 where "kDwtCyccnt = 0xE0001004"
definition kDwtCtrlCyccnt :: u32 where "kDwtCtrlCyccnt = 0x00000001"
definition kDwtCtrlNocyc :: u32 where "kDwtCtrlNocyc = 0x02000000"
definition kFramePcIndex :: u32 where "kFramePcIndex = 6"
definition kExcReturnPsp :: u32 where "kExcReturnPsp = 0x00000004"

text \<open>
  The machine of a device with a recorder: one backend and one sink exist, so their addresses
  are of type \<^typ>\<open>unit\<close>; handlers' addresses are of type \<^verbatim>\<open>'i\<close>. The clock is \<^verbatim>\<open>HardwareHal::clock_\<close>.
\<close>

record ('i, 'b) cortex_machine = "(unit, 'i, unit) recorder_machine" +
  hw_clock :: clock_extender
  hw_bus :: 'b

type_synonym ('i, 'b, 'z) cortex = "('i, 'b, 'z) cortex_machine_scheme"
type_synonym ('i, 'b, 'z) cortex_linkage = "(unit, 'i, unit, ('i, 'b, 'z) cortex) linkage"

definition raw_read32 :: "'b register_bus \<Rightarrow> u32 \<Rightarrow> ('i, 'b, 'z) cortex \<Rightarrow> u32 \<times> ('i, 'b, 'z) cortex" where
  "raw_read32 B addr s = (let (v, b) = bus_read B addr (hw_bus s) in (v, s\<lparr>hw_bus := b\<rparr>))"

definition raw_write32 :: "'b register_bus \<Rightarrow> u32 \<Rightarrow> u32 \<Rightarrow> ('i, 'b, 'z) cortex \<Rightarrow> ('i, 'b, 'z) cortex" where
  "raw_write32 B addr v s = s\<lparr>hw_bus := bus_write B addr v (hw_bus s)\<rparr>"

definition enable_cycle_counter :: "'b register_bus \<Rightarrow> ('i, 'b, 'z) cortex \<Rightarrow> bool \<times> ('i, 'b, 'z) cortex" where
  "enable_cycle_counter B s =
     (let (demcr, s) = raw_read32 B kDemcr s;
          s = raw_write32 B kDemcr (demcr OR kDemcrTrcena) s;
          (ctrl, s) = raw_read32 B kDwtCtrl s
      in if ctrl AND kDwtCtrlNocyc \<noteq> 0 then (False, s)
         else
           let s = raw_write32 B kDwtCyccnt 0 s;
               (ctrl, s) = raw_read32 B kDwtCtrl s
           in (True, raw_write32 B kDwtCtrl (ctrl OR kDwtCtrlCyccnt) s))"

section \<open>The backend\<close>

definition hw_now :: "'b register_bus \<Rightarrow> ('i, 'b, 'z) cortex \<Rightarrow> u64 \<times> ('i, 'b, 'z) cortex" where
  "hw_now B s =
     (let (raw, s) = raw_read32 B kDwtCyccnt s; (now, ck) = ck_extend raw (hw_clock s)
      in (now, s\<lparr>hw_clock := ck\<rparr>))"

definition hardware_ops :: "'b register_bus \<Rightarrow> ('i, 'b, 'z) cortex hal_ops" where
  "hardware_ops B = \<lparr>op_read32 = Some (\<lambda>addr s. Some (raw_read32 B addr s)),
     op_write32 = Some (\<lambda>addr v s. Some (raw_write32 B addr v s)),
     op_now = Some (\<lambda>s. Some (hw_now B s)),
     op_poll_irq = Some (\<lambda>s. Some (kNoIrq, s))\<rparr>"

section \<open>Vector entries\<close>

text \<open>A frame is the words at its address; the address may be null.\<close>

definition exception_frame :: "u32 \<Rightarrow> u32 list option \<Rightarrow> u32 list option \<Rightarrow> u32 list option" where
  "exception_frame exc_return msp psp = (if exc_return AND kExcReturnPsp \<noteq> 0 then psp else msp)"

definition stacked_pc :: "u32 list \<Rightarrow> u32 option" where
  "stacked_pc words = rd words (unat kFramePcIndex)"

definition rwd_cortex_m_isr_entry ::
  "('i, 'b, 'z) cortex_linkage \<Rightarrow> u32 \<Rightarrow> u32 list option \<Rightarrow> ('i, 'b, 'z) cortex \<Rightarrow> ('i, 'b, 'z) cortex option" where
  "rwd_cortex_m_isr_entry L vector stacked s = do {
     s \<leftarrow> (case stacked of
         Some words \<Rightarrow> do { pc \<leftarrow> stacked_pc words; hal_record_irq_entry_at L vector pc s }
       | None \<Rightarrow> hal_record_irq_entry L vector s);
     hal_run_isr L vector s
   }"

text \<open>
  The naked function \<^verbatim>\<open>RWD_CORTEX_M_ISR\<close> defines, instruction by instruction: test bit 2 of the
  link register, move one of the two stack pointers to \<^verbatim>\<open>r1\<close>, the vector to \<^verbatim>\<open>r0\<close>, and branch.
\<close>

definition cortex_m_isr ::
  "('i, 'b, 'z) cortex_linkage \<Rightarrow> u32 \<Rightarrow> u32 \<Rightarrow> u32 list option \<Rightarrow> u32 list option \<Rightarrow> ('i, 'b, 'z) cortex \<Rightarrow>
   ('i, 'b, 'z) cortex option" where
  "cortex_m_isr L vector lr msp psp s =
     (let z = lr AND 4 = 0; r1 = (if z then msp else psp); r0 = vector
      in rwd_cortex_m_isr_entry L r0 r1 s)"

lemma cortex_m_isr_frame:
  "cortex_m_isr L vector lr msp psp = rwd_cortex_m_isr_entry L vector (exception_frame lr msp psp)"
  by (simp add: fun_eq_iff cortex_m_isr_def exception_frame_def kExcReturnPsp_def Let_def)


section \<open>Runs of a device\<close>

text \<open>
  What a device does through the shim, from wherever its code is: accesses, and interrupts that
  land at any moment, inside handlers too. An interrupt carries the stack pointers its entry
  finds and what its handler does if one is installed.
\<close>

datatype hw_step =
    Access_read u32
  | Access_write u32 u32
  | Interrupt (int_vector: u32) (int_lr: u32) (int_msp: "u32 list") (int_psp: "u32 list") "hw_step list"

definition cortex_link ::
  "'b register_bus \<Rightarrow> (('i, 'b, 'z) cortex \<Rightarrow> ('i, 'b, 'z) cortex option) \<Rightarrow> ('i, 'b, 'z) cortex_linkage" where
  "cortex_link B handler = \<lparr>vtable = \<lambda>_. hardware_ops B, isr_code = \<lambda>_. handler, sink_code = \<lambda>_. rec_sink\<rparr>"

fun run_step :: "'b register_bus \<Rightarrow> hw_step \<Rightarrow> ('i, 'b, 'z) cortex \<Rightarrow> ('i, 'b, 'z) cortex option"
  and run_steps :: "'b register_bus \<Rightarrow> hw_step list \<Rightarrow> ('i, 'b, 'z) cortex \<Rightarrow> ('i, 'b, 'z) cortex option" where
  "run_step B (Access_read addr) s = do { (_, s) \<leftarrow> mmio_read32 (cortex_link B (\<lambda>_. None)) addr s; Some s }"
| "run_step B (Access_write addr v) s = mmio_write32 (cortex_link B (\<lambda>_. None)) addr v s"
| "run_step B (Interrupt vector lr msp psp body) s =
     cortex_m_isr (cortex_link B (run_steps B body)) vector lr (Some msp) (Some psp) s"
| "run_steps B [] s = Some s"
| "run_steps B (x # xs) s = do { s \<leftarrow> run_step B x s; run_steps B xs s }"

text \<open>
  What the same device does in truth, on the device state alone. \<^verbatim>\<open>count\<close> is the number of
  cycles that have passed. Each step is listed with the count at which it is over, and the
  event it should leave; \<^verbatim>\<open>flags\<close> tells whether writes are recorded, \<^verbatim>\<open>isrs\<close> which handlers
  are installed.
\<close>

type_synonym happened = "(nat \<times> event option) list"

definition sampled :: "'b register_bus \<Rightarrow> 'b \<Rightarrow> 'b" where
  "sampled B b = snd (bus_read B kDwtCyccnt b)"

definition installed_at :: "'i option list \<Rightarrow> u32 \<Rightarrow> bool" where
  "installed_at isrs vector \<longleftrightarrow> vector < kMaxIrqVectors \<and> isrs ! unat vector \<noteq> None"

fun true_step :: "'b register_bus \<Rightarrow> ('b \<Rightarrow> nat) \<Rightarrow> u16 \<Rightarrow> 'i option list \<Rightarrow> hw_step \<Rightarrow> 'b \<Rightarrow> happened \<times> 'b"
  and true_steps :: "'b register_bus \<Rightarrow> ('b \<Rightarrow> nat) \<Rightarrow> u16 \<Rightarrow> 'i option list \<Rightarrow> hw_step list \<Rightarrow> 'b \<Rightarrow> happened \<times> 'b" where
  "true_step B count flags isrs (Access_read addr) b =
     (let (v, b) = bus_read B addr b
      in ([(count b, Some (mk_event EV_MMIO_READ (of_nat (count b)) addr v))], sampled B b))"
| "true_step B count flags isrs (Access_write addr v) b =
     (let b = bus_write B addr v b
      in ([(count b, if flags AND kFlagRecordWrites = 0 then None
             else Some (mk_event EV_MMIO_WRITE (of_nat (count b)) addr v))], sampled B b))"
| "true_step B count flags isrs (Interrupt vector lr msp psp body) b =
     (let entry = (count b, Some (mk_event EV_IRQ_AT (of_nat (count b)) vector
            ((if lr AND 4 = 0 then msp else psp) ! 6)));
          (hs, b) = (if installed_at isrs vector then true_steps B count flags isrs body (sampled B b) else ([], sampled B b))
      in (entry # hs, b))"
| "true_steps B count flags isrs [] b = ([], b)"
| "true_steps B count flags isrs (x # xs) b =
     (let (hs, b) = true_step B count flags isrs x b; (hs', b) = true_steps B count flags isrs xs b
      in (hs @ hs', b))"

text \<open>Every interrupt comes with a whole frame on the stack its link register names.\<close>

fun framed :: "hw_step \<Rightarrow> bool" where
  "framed (Interrupt vector lr msp psp body) \<longleftrightarrow> 7 \<le> length (if lr AND 4 = 0 then msp else psp) \<and> list_all framed body"
| "framed _ = True"


section \<open>The recorder on a device\<close>

text \<open>A device whose link takes nothing yet: all that got out of the writer is in the ring.\<close>

definition quiet_link :: "bytes \<Rightarrow> ('i, 'b, 'z) cortex \<Rightarrow> (u32 \<times> ('i, 'b, 'z) cortex) option" where
  "quiet_link bs s = Some (0, s)"

interpretation hw_link: device_link quiet_link "\<lambda>_. []" "\<lambda>_. ()" "\<lambda>_. rec_sink" "()"
  by unfold_locales (simp_all add: quiet_link_def)

interpretation ring_sink: block_sink "\<lambda>_. rec_sink" "()" "\<lambda>s :: ('i, 'b, 'z) cortex. rb_contents (the_ring s)"
  "\<lambda>s. rb_ready (the_ring s)" True
  using hw_link.block_sink_axioms by simp

text \<open>A clock that has last seen the count \<^verbatim>\<open>c\<close>, or nothing yet.\<close>

definition ck_follows :: "nat \<Rightarrow> clock_extender \<Rightarrow> bool" where
  "ck_follows c ck \<longleftrightarrow> ck_at c ck \<or> \<not> ck_primed ck \<and> ck_wraps ck = 0 \<and> c = 0"

lemma ck_follows_next:
  assumes "ck_follows c ck" "c \<le> d" "d < c + 4294967296" "d < 18446744073709551616"
  obtains ck' where "ck_extend (of_nat d) ck = (of_nat d, ck')" "ck_follows d ck'"
proof (cases "ck_primed ck")
  case True
  then have "ck_at c ck" using assms(1) by (simp add: ck_follows_def)
  from ck_extend_next [OF this assms(2-4)] that show thesis by (auto simp: ck_follows_def)
next
  case False
  let ?ck = "ck\<lparr>ck_primed := True, ck_last_raw := of_nat d, ck_value := ucast (of_nat d :: u32)\<rparr>"
  have c: "ck_wraps ck = 0" "d < 4294967296" using False assms by (auto simp: ck_follows_def ck_at_def)
  have "(ucast (of_nat d :: u32) :: u64) = of_nat d" using c(2) by (simp add: unsigned_of_nat take_bit_nat_eq_self)
  moreover have "ck_at d ?ck" using c calculation by (simp add: ck_at_def unat_of_nat take_bit_nat_eq_self_iff)
  ultimately show thesis using that [of ?ck] False by (simp add: ck_extend_def Let_def ck_follows_def)
qed

definition hw_logged :: "'i option list \<Rightarrow> u16 \<Rightarrow> bytes \<Rightarrow> event list \<Rightarrow> nat \<Rightarrow> ('i, 'b, 'z) cortex \<Rightarrow> bool" where
  "hw_logged isrs flags bs0 log c s \<longleftrightarrow>
     g_ops s = Some () \<and> g_mode s = MODE_RECORD \<and> g_writer s \<and> g_isr s = isrs \<and>
     tw_flags (the_writer s) = flags \<and> ck_follows c (hw_clock s) \<and>
     (\<exists>hist cur. tw_logged () True (\<lambda>s. rb_contents (the_ring s)) (\<lambda>s. rb_ready (the_ring s))
        bs0 log hist cur (the_writer s) s)"

lemma logged_ring: "the_ring s = the_ring s' \<Longrightarrow>
    tw_logged k b (\<lambda>s. rb_contents (the_ring s)) (\<lambda>s. rb_ready (the_ring s)) bs0 log hist cur tw s =
    tw_logged k b (\<lambda>s. rb_contents (the_ring s)) (\<lambda>s. rb_ready (the_ring s)) bs0 log hist cur tw s'"
  by (simp add: tw_logged_def sink_at_def)

lemma hw_logged_bus [simp]: "hw_logged isrs flags bs0 log c (s\<lparr>hw_bus := b\<rparr>) = hw_logged isrs flags bs0 log c s"
  by (simp add: hw_logged_def logged_ring [of "s\<lparr>hw_bus := b\<rparr>" s])

definition device :: "('i, 'b, 'z) cortex \<Rightarrow> unit option \<times> bool \<times> mode \<times> 'i option list \<times> clock_extender \<times> 'b" where
  "device s = (g_ops s, g_writer s, g_mode s, g_isr s, hw_clock s, hw_bus s)"

lemma rec_sink_keeps: "sinks_keep (\<lambda>_. rec_sink) (\<lambda>s :: ('i, 'b, 'z) cortex. device s = d)"
  unfolding sinks_keep_def
  by (auto simp: rec_sink_def device_def bind_eq_Some_conv hal_irq_disable_def hal_irq_enable_def Let_def)

text \<open>Taking the time and recording an event, as every entry point of the shim does.\<close>

definition stamped :: "'b register_bus \<Rightarrow> (u64 \<Rightarrow> tw_op) \<Rightarrow> ('i, 'b, 'z) cortex \<Rightarrow> ('i, 'b, 'z) cortex option" where
  "stamped B f s = (let (ts, s) = hw_now B s in do {
     (_, s) \<leftarrow> call_writer (tw_exec (\<lambda>_. rec_sink) (f ts)) s;
     Some s
   })"

lemma stamped_logs:
  assumes l: "hw_logged isrs flags bs0 log c s" and counter: "\<forall>b. fst (bus_read B kDwtCyccnt b) = of_nat (count b)"
    and c: "c \<le> count (hw_bus s)" "count (hw_bus s) < c + 4294967296" "count (hw_bus s) < 18446744073709551616"
  obtains s' where "stamped B f s = Some s'" "hw_bus s' = sampled B (hw_bus s)"
    "hw_logged isrs flags bs0 (log @ (case op_event flags (f (of_nat (count (hw_bus s)))) of None \<Rightarrow> [] | Some e \<Rightarrow> [e]))
      (count (hw_bus s)) s'"
proof -
  let ?d = "count (hw_bus s)"
  obtain ck' where ck: "ck_extend (of_nat ?d) (hw_clock s) = (of_nat ?d, ck')" "ck_follows ?d ck'"
    using ck_follows_next [OF _ c] l by (auto simp: hw_logged_def)
  let ?s1 = "s\<lparr>hw_bus := sampled B (hw_bus s), hw_clock := ck'\<rparr>"
  have now: "hw_now B s = (of_nat ?d, ?s1)"
    using spec [OF counter, of "hw_bus s"] ck(1)
    by (simp add: hw_now_def raw_read32_def sampled_def split_beta Let_def)
  obtain hist cur where "tw_logged () True (\<lambda>s. rb_contents (the_ring s)) (\<lambda>s. rb_ready (the_ring s))
      bs0 log hist cur (the_writer s) ?s1"
    using l logged_ring [of s ?s1 "()"] by (auto simp: hw_logged_def)
  from ring_sink.exec_logged [OF this rec_sink_keeps refl, of "f (of_nat ?d)"]
  obtain b tw s2 hist' cur' where 2: "tw_exec (\<lambda>_. rec_sink) (f (of_nat ?d)) (the_writer s) ?s1 = Some (b, tw, s2)"
    "tw_flags tw = tw_flags (the_writer s)" "device s2 = device ?s1"
    "tw_logged () True (\<lambda>s. rb_contents (the_ring s)) (\<lambda>s. rb_ready (the_ring s)) bs0
      (log @ (case op_event (tw_flags (the_writer s)) (f (of_nat ?d)) of None \<Rightarrow> [] | Some e \<Rightarrow> [e])) hist' cur' tw s2"
    by blast
  let ?s' = "s2\<lparr>the_writer := tw\<rparr>"
  have "stamped B f s = Some ?s'"
    using 2(1) by (simp add: stamped_def now call_writer_def)
  moreover have "hw_bus ?s' = sampled B (hw_bus s)" using 2(3) by (simp add: device_def)
  moreover have "hw_logged isrs flags bs0 (log @ (case op_event flags (f (of_nat ?d)) of None \<Rightarrow> [] | Some e \<Rightarrow> [e])) ?d ?s'"
    using l ck(2) 2 logged_ring [of s2 ?s' "()"] by (auto simp: hw_logged_def device_def)
  ultimately show thesis by (rule that)
qed


section \<open>Each entry point records what happened\<close>

lemma cortex_link_sel [simp]:
  "vtable (cortex_link B h) = (\<lambda>_. hardware_ops B)" "isr_code (cortex_link B h) = (\<lambda>_. h)"
  "sink_code (cortex_link B h) = (\<lambda>_. rec_sink)"
  by (simp_all add: cortex_link_def)

lemma hardware_ops_sel [simp]:
  "op_read32 (hardware_ops B) = Some (\<lambda>addr s. Some (raw_read32 B addr s))"
  "op_write32 (hardware_ops B) = Some (\<lambda>addr v s. Some (raw_write32 B addr v s))"
  "op_now (hardware_ops B) = Some (\<lambda>s. Some (hw_now B s))"
  "op_poll_irq (hardware_ops B) = Some (\<lambda>s. Some (kNoIrq, s))"
  by (simp_all add: hardware_ops_def)

text \<open>The shim never dispatches on hardware.\<close>

lemma hw_pump: "pump_irqs (cortex_link B h) s = Some s"
proof (cases "g_ops s")
  case (Some ops)
  then have "pump_loop (cortex_link B h) (s\<lparr>g_in_isr := True\<rparr>) = Some (s\<lparr>g_in_isr := True\<rparr>)"
    by (subst pump_loop.simps) simp
  then show ?thesis using Some by (cases s) (simp add: pump_irqs_def)
qed (simp add: pump_irqs_def)

lemma raw_read32_sel [simp]:
  "g_ops (snd (raw_read32 B a s)) = g_ops s" "g_mode (snd (raw_read32 B a s)) = g_mode s"
  "g_writer (snd (raw_read32 B a s)) = g_writer s" "fst (raw_read32 B a s) = fst (bus_read B a (hw_bus s))"
  "hw_bus (snd (raw_read32 B a s)) = snd (bus_read B a (hw_bus s))"
  by (simp_all add: raw_read32_def split_beta)

lemma raw_write32_sel [simp]:
  "g_ops (raw_write32 B a v s) = g_ops s" "g_mode (raw_write32 B a v s) = g_mode s"
  "g_writer (raw_write32 B a v s) = g_writer s" "hw_bus (raw_write32 B a v s) = bus_write B a v (hw_bus s)"
  by (simp_all add: raw_write32_def)

lemma hw_logged_raw [simp]:
  "hw_logged isrs flags bs0 log c (snd (raw_read32 B a s)) = hw_logged isrs flags bs0 log c s"
  "hw_logged isrs flags bs0 log c (raw_write32 B a v s) = hw_logged isrs flags bs0 log c s"
  by (simp_all add: raw_read32_def raw_write32_def split_beta)

lemma stamped_call:
  "g_ops s = Some () \<Longrightarrow> do { (ts, s) \<leftarrow> call_now (cortex_link B h) s;
     (_, s) \<leftarrow> call_writer (tw_exec (\<lambda>_. rec_sink) (f ts)) s; Some s } = stamped B f s"
  by (simp add: stamped_def call_now_def split_beta)

lemma hw_read:
  assumes "hw_logged isrs flags bs0 log c s"
  shows "run_step B (Access_read addr) s = stamped B (\<lambda>ts. Op_mmio_read ts addr (fst (bus_read B addr (hw_bus s))))
    (snd (raw_read32 B addr s))"
  using assms by (cases "raw_read32 B addr s") 
    (auto simp: mmio_read32_def hw_pump hw_logged_def stamped_def call_now_def split_beta Let_def
      raw_read32_def split: Option.bind_splits)

lemma hw_write:
  assumes "hw_logged isrs flags bs0 log c s"
  shows "run_step B (Access_write addr v) s = stamped B (\<lambda>ts. Op_mmio_write ts addr v) (raw_write32 B addr v s)"
  using assms by (auto simp: mmio_write32_def hw_pump hw_logged_def stamped_def call_now_def split_beta Let_def
    split: Option.bind_splits)

lemma hw_interrupt:
  assumes "hw_logged isrs flags bs0 log c s" "framed (Interrupt vector lr msp psp body)"
  shows "run_step B (Interrupt vector lr msp psp body) s = do {
     s \<leftarrow> stamped B (\<lambda>ts. Op_irq_enter_at ts vector ((if lr AND 4 = 0 then msp else psp) ! 6)) s;
     hal_run_isr (cortex_link B (run_steps B body)) vector s }"
  using assms by (auto simp: cortex_m_isr_def rwd_cortex_m_isr_entry_def stacked_pc_def kFramePcIndex_def hal_record_irq_entry_at_def
    can_record_entry_def hw_logged_def stamped_def call_now_def split_beta Let_def split: Option.bind_splits)

lemma hw_run_isr:
  assumes "hw_logged isrs flags bs0 log c s" "length isrs = 8"
  shows "hal_run_isr (cortex_link B h) vector s = (if installed_at isrs vector then h s else Some s)"
  using assms by (auto simp: hal_run_isr_def hw_logged_def installed_at_def rd_def kMaxIrqVectors_def word_less_nat_alt split: option.split)

text \<open>The counts and the events of what happened.\<close>

definition happened_events :: "happened \<Rightarrow> event list" where
  "happened_events hs = List.map_filter snd hs"

lemma happened_events_simps [simp]:
  "happened_events [] = []" "happened_events (hs @ hs') = happened_events hs @ happened_events hs'"
  "happened_events ((n, e) # hs) = (case e of None \<Rightarrow> [] | Some ev \<Rightarrow> [ev]) @ happened_events hs"
  by (auto simp: happened_events_def map_filter_def split: option.split)

lemma samples_ok_append: "samples_ok c (cs @ ds) = (samples_ok c cs \<and> samples_ok (last (c # cs)) ds)"
  by (induction c cs rule: samples_ok.induct) auto

definition records_truly :: "'i option list \<Rightarrow> u16 \<Rightarrow> bytes \<Rightarrow> (('i, 'b, 'z) cortex \<Rightarrow> ('i, 'b, 'z) cortex option) \<Rightarrow>
    ('b \<Rightarrow> happened \<times> 'b) \<Rightarrow> bool" where
  "records_truly isrs flags bs0 F T \<longleftrightarrow>
     (\<forall>log c s. hw_logged isrs flags bs0 log c s \<longrightarrow> samples_ok c (map fst (fst (T (hw_bus s)))) \<longrightarrow>
        (\<exists>s'. F s = Some s' \<and> hw_bus s' = snd (T (hw_bus s)) \<and>
           hw_logged isrs flags bs0 (log @ happened_events (fst (T (hw_bus s)))) (last (c # map fst (fst (T (hw_bus s))))) s'))"

lemma records_trulyD:
  assumes "records_truly isrs flags bs0 F T" "hw_logged isrs flags bs0 log c s" "T (hw_bus s) = (hs, b)" "samples_ok c (map fst hs)"
  obtains s' where "F s = Some s'" "hw_bus s' = b" "hw_logged isrs flags bs0 (log @ happened_events hs) (last (c # map fst hs)) s'"
  using assms unfolding records_truly_def by (metis fst_conv snd_conv)

lemma records_truly_bind:
  fixes F :: "('i, 'b, 'z) cortex \<Rightarrow> ('i, 'b, 'z) cortex option"
  assumes F: "records_truly isrs flags bs0 F T" and G: "records_truly isrs flags bs0 G U"
  shows "records_truly isrs flags bs0 (\<lambda>s. Option.bind (F s) G)
    (\<lambda>b. let (hs, b) = T b; (hs', b) = U b in (hs @ hs', b))"
  unfolding records_truly_def
proof (intro allI impI)
  fix log c and s :: "('i, 'b, 'z) cortex"
  assume l: "hw_logged isrs flags bs0 log c s"
  obtain hs b hs' b' where t: "T (hw_bus s) = (hs, b)" "U b = (hs', b')" by (metis surj_pair)
  assume "samples_ok c (map fst (fst (let (hs, b) = T (hw_bus s); (hs', b) = U b in (hs @ hs', b))))"
  then have ok: "samples_ok c (map fst hs)" "samples_ok (last (c # map fst hs)) (map fst hs')"
    using t by (simp_all add: samples_ok_append)
  obtain s1 where 1: "F s = Some s1" "hw_bus s1 = b" "hw_logged isrs flags bs0 (log @ happened_events hs) (last (c # map fst hs)) s1"
    using records_trulyD [OF F l t(1) ok(1)] by blast
  obtain s2 where "G s1 = Some s2" "hw_bus s2 = b'"
    "hw_logged isrs flags bs0 ((log @ happened_events hs) @ happened_events hs') (last (last (c # map fst hs) # map fst hs')) s2"
    using records_trulyD [OF G 1(3) _ ok(2), of b'] t(2) 1(2) by blast
  then show "\<exists>s'. Option.bind (F s) G = Some s' \<and> hw_bus s' = snd (let (hs, b) = T (hw_bus s); (hs', b) = U b in (hs @ hs', b)) \<and>
    hw_logged isrs flags bs0 (log @ happened_events (fst (let (hs, b) = T (hw_bus s); (hs', b) = U b in (hs @ hs', b))))
     (last (c # map fst (fst (let (hs, b) = T (hw_bus s); (hs', b) = U b in (hs @ hs', b))))) s'"
    using 1(1) t by (auto simp: last_append)
qed

lemma records_stamped:
  fixes isrs :: "'i option list" and B :: "'b register_bus"
  assumes "\<forall>b. fst (bus_read B kDwtCyccnt b) = of_nat (count b)"
  shows "records_truly isrs flags bs0 (stamped B f) (\<lambda>b. ([(count b, op_event flags (f (of_nat (count b))))], sampled B b))"
  unfolding records_truly_def
proof (intro allI impI)
  fix log c and s :: "('i, 'b, 'z) cortex"
  assume "hw_logged isrs flags bs0 log c s" "samples_ok c (map fst (fst ([(count (hw_bus s), op_event flags (f (of_nat (count (hw_bus s)))))], sampled B (hw_bus s))))"
  from stamped_logs [OF this(1) assms, of f] this(2) show "\<exists>s'. stamped B f s = Some s' \<and>
    hw_bus s' = snd ([(count (hw_bus s), op_event flags (f (of_nat (count (hw_bus s)))))], sampled B (hw_bus s)) \<and>
    hw_logged isrs flags bs0 (log @ happened_events (fst ([(count (hw_bus s), op_event flags (f (of_nat (count (hw_bus s)))))], sampled B (hw_bus s))))
      (last (c # map fst (fst ([(count (hw_bus s), op_event flags (f (of_nat (count (hw_bus s)))))], sampled B (hw_bus s))))) s'"
    by auto
qed

lemma records_truly_from:
  assumes "\<And>log c s. hw_logged isrs flags bs0 log c s \<Longrightarrow> \<exists>s0. F s = G s0 \<and> hw_logged isrs flags bs0 log c s0 \<and> T (hw_bus s) = U (hw_bus s0)"
    and "records_truly isrs flags bs0 G U"
  shows "records_truly isrs flags bs0 F T"
  using assms unfolding records_truly_def by metis

lemma run_steps_records:
  fixes isrs :: "'i option list" and B :: "'b register_bus"
  assumes "\<And>x. x \<in> set xs \<Longrightarrow>
    records_truly isrs flags bs0 (run_step B x :: ('i, 'b, 'z) cortex \<Rightarrow> _) (true_step B count flags isrs x)"
  shows "records_truly isrs flags bs0 (run_steps B xs :: ('i, 'b, 'z) cortex \<Rightarrow> _) (true_steps B count flags isrs xs)"
  using assms
proof (induction xs)
  case Nil
  show ?case by (simp add: records_truly_def)
next
  case (Cons x xs)
  let ?F = "run_step B x :: ('i, 'b, 'z) cortex \<Rightarrow> _" and ?G = "run_steps B xs :: ('i, 'b, 'z) cortex \<Rightarrow> _"
  have "records_truly isrs flags bs0 (\<lambda>s. Option.bind (?F s) ?G) (\<lambda>b. let (hs, b) = true_step B count flags isrs x b;
      (hs', b) = true_steps B count flags isrs xs b in (hs @ hs', b))"
    using Cons by (intro records_truly_bind) simp_all
  moreover have "run_steps B (x # xs) = (\<lambda>s. Option.bind (?F s) ?G)"
    "true_steps B count flags isrs (x # xs) = (\<lambda>b. let (hs, b) = true_step B count flags isrs x b;
       (hs', b) = true_steps B count flags isrs xs b in (hs @ hs', b))" by (simp_all add: fun_eq_iff)
  ultimately show ?case by simp
qed

text \<open>An interrupt is recorded at its entry, and then whatever its handler does.\<close>

lemma interrupt_records:
  fixes isrs :: "'i option list" and B :: "'b register_bus"
  assumes counter: "\<forall>b. fst (bus_read B kDwtCyccnt b) = of_nat (count b)" and len: "length isrs = 8"
    and framed: "framed (Interrupt vector lr msp psp body)"
    and body: "records_truly isrs flags bs0 (run_steps B body :: ('i, 'b, 'z) cortex \<Rightarrow> _) (true_steps B count flags isrs body)"
  shows "records_truly isrs flags bs0 (run_step B (Interrupt vector lr msp psp body) :: ('i, 'b, 'z) cortex \<Rightarrow> _)
    (true_step B count flags isrs (Interrupt vector lr msp psp body))"
proof -
  let ?pc = "(if lr AND 4 = 0 then msp else psp) ! 6"
  let ?G = "\<lambda>s. if installed_at isrs vector then run_steps B body s else Some (s :: ('i, 'b, 'z) cortex)"
  let ?U = "\<lambda>b. if installed_at isrs vector then true_steps B count flags isrs body b else ([], b)"
  have G: "records_truly isrs flags bs0 ?G ?U"
    using body by (cases "installed_at isrs vector") (simp_all, simp add: records_truly_def)
  have st: "records_truly isrs flags bs0 (stamped B (\<lambda>ts. Op_irq_enter_at ts vector ?pc) :: ('i, 'b, 'z) cortex \<Rightarrow> _)
      (\<lambda>b. ([(count b, op_event flags (Op_irq_enter_at (of_nat (count b)) vector ?pc))], sampled B b))"
    by (rule records_stamped [OF counter])
  show ?thesis
    unfolding records_truly_def
  proof (intro allI impI)
    fix log c and s :: "('i, 'b, 'z) cortex"
    assume l: "hw_logged isrs flags bs0 log c s"
      and ok: "samples_ok c (map fst (fst (true_step B count flags isrs (Interrupt vector lr msp psp body) (hw_bus s))))"
    have T: "true_step B count flags isrs (Interrupt vector lr msp psp body) (hw_bus s) =
      (let (hs, b) = ([(count (hw_bus s), op_event flags (Op_irq_enter_at (of_nat (count (hw_bus s))) vector ?pc))], sampled B (hw_bus s));
        (hs', b) = ?U b in (hs @ hs', b))"
      by (simp add: split_beta Let_def)
    obtain s1 where s1: "stamped B (\<lambda>ts. Op_irq_enter_at ts vector ?pc) s = Some s1" "hw_logged isrs flags bs0
        (log @ happened_events [(count (hw_bus s), op_event flags (Op_irq_enter_at (of_nat (count (hw_bus s))) vector ?pc))])
        (last (c # map fst [(count (hw_bus s), op_event flags (Op_irq_enter_at (of_nat (count (hw_bus s))) vector ?pc))])) s1"
      using records_trulyD [OF st l refl] ok by (auto simp: split_beta Let_def)
    have run: "run_step B (Interrupt vector lr msp psp body) s =
      Option.bind (stamped B (\<lambda>ts. Op_irq_enter_at ts vector ?pc) s) ?G"
      unfolding hw_interrupt [OF l framed] s1(1) using hw_run_isr [OF s1(2) len] by simp
    show "\<exists>s'. run_step B (Interrupt vector lr msp psp body) s = Some s' \<and>
        hw_bus s' = snd (true_step B count flags isrs (Interrupt vector lr msp psp body) (hw_bus s)) \<and>
        hw_logged isrs flags bs0 (log @ happened_events (fst (true_step B count flags isrs (Interrupt vector lr msp psp body) (hw_bus s))))
          (last (c # map fst (fst (true_step B count flags isrs (Interrupt vector lr msp psp body) (hw_bus s))))) s'"
      using records_truly_bind [OF st G, unfolded records_truly_def, rule_format, OF l] ok
      unfolding run T by blast
  qed
qed

lemma run_step_records:
  fixes isrs :: "'i option list" and B :: "'b register_bus"
  assumes counter: "\<forall>b. fst (bus_read B kDwtCyccnt b) = of_nat (count b)" and len: "length isrs = 8"
  shows "framed x \<Longrightarrow> records_truly isrs flags bs0 (run_step B x :: ('i, 'b, 'z) cortex \<Rightarrow> _) (true_step B count flags isrs x)"
proof (induction x)
  case (Access_read addr)
  show ?case
    unfolding records_truly_def
  proof (intro allI impI)
    fix log c and s :: "('i, 'b, 'z) cortex"
    assume l: "hw_logged isrs flags bs0 log c s"
      and ok: "samples_ok c (map fst (fst (true_step B count flags isrs (Access_read addr) (hw_bus s))))"
    let ?s = "snd (raw_read32 B addr s)" and ?f = "\<lambda>ts. Op_mmio_read ts addr (fst (bus_read B addr (hw_bus s)))"
    have "hw_logged isrs flags bs0 log c ?s" using l by simp
    from records_trulyD [OF records_stamped [OF counter, of isrs flags bs0 ?f] this refl] ok
    show "\<exists>s'. run_step B (Access_read addr) s = Some s' \<and>
        hw_bus s' = snd (true_step B count flags isrs (Access_read addr) (hw_bus s)) \<and>
        hw_logged isrs flags bs0 (log @ happened_events (fst (true_step B count flags isrs (Access_read addr) (hw_bus s))))
          (last (c # map fst (fst (true_step B count flags isrs (Access_read addr) (hw_bus s))))) s'"
      unfolding hw_read [OF l] by (auto simp: split_beta Let_def)
  qed
next
  case (Access_write addr v)
  show ?case
  proof (rule records_truly_from [OF _ records_stamped [OF counter, of isrs flags bs0 "\<lambda>ts. Op_mmio_write ts addr v"]])
    fix log c and s :: "('i, 'b, 'z) cortex"
    assume l: "hw_logged isrs flags bs0 log c s"
    then show "\<exists>s0. run_step B (Access_write addr v) s = stamped B (\<lambda>ts. Op_mmio_write ts addr v) s0 \<and>
      hw_logged isrs flags bs0 log c s0 \<and> true_step B count flags isrs (Access_write addr v) (hw_bus s) =
        ([(count (hw_bus s0), op_event flags (Op_mmio_write (of_nat (count (hw_bus s0))) addr v))], sampled B (hw_bus s0))"
      by (intro exI [of _ "raw_write32 B addr v s"] conjI hw_write [OF l]) (simp_all add: Let_def)
  qed
next
  case (Interrupt vector lr msp psp body)
  have "list_all framed body" using Interrupt.prems by simp
  then have "records_truly isrs flags bs0 (run_steps B body :: ('i, 'b, 'z) cortex \<Rightarrow> _) (true_steps B count flags isrs body)"
    using Interrupt.IH by (intro run_steps_records) (auto simp: list_all_iff)
  then show ?case by (rule interrupt_records [OF counter len Interrupt.prems])
qed

section \<open>A whole recording on a device\<close>

text \<open>The times of what happened are the counts, so they are in order as long as the counts are.\<close>

definition timed :: "happened \<Rightarrow> bool" where
  "timed hs \<longleftrightarrow> (\<forall>(n, e) \<in> set hs. \<forall>ev. e = Some ev \<longrightarrow> ev_ts ev = of_nat n)"

lemma timed_simps [simp]:
  "timed []" "timed (hs @ hs') \<longleftrightarrow> timed hs \<and> timed hs'"
  "timed ((n, e) # hs) \<longleftrightarrow> (\<forall>ev. e = Some ev \<longrightarrow> ev_ts ev = of_nat n) \<and> timed hs"
  by (auto simp: timed_def)

lemma true_steps_timed:
  "(\<And>x b. x \<in> set xs \<Longrightarrow> timed (fst (true_step B count flags isrs x b))) \<Longrightarrow> timed (fst (true_steps B count flags isrs xs b))"
  by (induction xs arbitrary: b) (simp_all add: split_beta Let_def)

lemma true_step_timed: "timed (fst (true_step B count flags isrs x b))"
  by (induction x arbitrary: b) (simp_all add: split_beta Let_def true_steps_timed)

lemma samples_ok_ge: "samples_ok c cs \<Longrightarrow> c \<le> last (c # cs)"
  by (induction c cs rule: samples_ok.induct) (auto intro: order_trans)

lemma timed_in_order:
  "timed hs \<Longrightarrow> samples_ok c (map fst hs) \<Longrightarrow> c' \<le> c \<Longrightarrow> c < 18446744073709551616 \<Longrightarrow>
     in_order (of_nat c') (happened_events hs) = happened_events hs"
proof (induction hs arbitrary: c c')
  case (Cons h hs)
  obtain n e where h: "h = (n, e)" by (cases h)
  have n: "c \<le> n" "n < 18446744073709551616" "samples_ok n (map fst hs)" using Cons.prems(2) h by auto
  show ?case
  proof (cases e)
    case None
    then show ?thesis using Cons.IH [of n c'] Cons.prems n h by auto
  next
    case (Some ev)
    then have ts: "ev_ts ev = of_nat n" using Cons.prems(1) h by simp
    have "\<not> (of_nat n :: u64) < of_nat c'"
      using Cons.prems(3,4) n(1,2) by (simp add: word_less_nat_alt unat_of_nat take_bit_nat_eq_self)
    moreover have "in_order (of_nat n) (happened_events hs) = happened_events hs"
      using Cons.IH [of n n] Cons.prems n h by auto
    ultimately show ?thesis using h Some ts by simp
  qed
qed simp

definition device_run ::
  "'b register_bus \<Rightarrow> bytes option \<Rightarrow> u32 \<Rightarrow> bytes option \<Rightarrow> u32 \<Rightarrow> u64 \<Rightarrow> u64 \<Rightarrow> u16 \<Rightarrow> hw_step list \<Rightarrow>
   ('i, 'b, 'z) cortex \<Rightarrow> (bool \<times> ('i, 'b, 'z) cortex) option" where
  "device_run B ring_storage ring_capacity block_buffer block_bytes build_id seed flags steps s =
     (let L = cortex_link B (\<lambda>_. None) in do {
        (began, s) \<leftarrow> rec_begin L () ring_storage ring_capacity block_buffer block_bytes build_id seed flags s;
        if \<not> began then Some (False, s)
        else do {
          s \<leftarrow> run_steps B steps (rec_start s);
          (now, s) \<leftarrow> hal_now L s;
          s \<leftarrow> rec_stop L now s;
          Some (True, s)
        }
      })"

lemma hw_now_counts:
  assumes "\<forall>b. fst (bus_read B kDwtCyccnt b) = of_nat (count b)" "hw_logged isrs flags bs0 log c s"
    and "c \<le> count (hw_bus s)" "count (hw_bus s) < c + 4294967296" "count (hw_bus s) < 18446744073709551616"
  obtains s' where "hw_now B s = (of_nat (count (hw_bus s)), s')" "hw_logged isrs flags bs0 log (count (hw_bus s)) s'"
proof -
  obtain ck' where ck: "ck_extend (of_nat (count (hw_bus s))) (hw_clock s) = (of_nat (count (hw_bus s)), ck')"
    "ck_follows (count (hw_bus s)) ck'"
    using ck_follows_next [OF _ assms(3-5)] assms(2) by (auto simp: hw_logged_def)
  let ?s = "s\<lparr>hw_bus := sampled B (hw_bus s), hw_clock := ck'\<rparr>"
  have "hw_now B s = (of_nat (count (hw_bus s)), ?s)"
    using spec [OF assms(1), of "hw_bus s"] ck(1)
    by (simp add: hw_now_def raw_read32_def sampled_def split_beta Let_def)
  moreover have "hw_logged isrs flags bs0 log (count (hw_bus s)) ?s"
    using assms(2) ck(2) logged_ring [of ?s s "()"] by (simp add: hw_logged_def)
  ultimately show thesis by (rule that)
qed

definition true_run :: "'b register_bus \<Rightarrow> ('b \<Rightarrow> nat) \<Rightarrow> u16 \<Rightarrow> 'i option list \<Rightarrow> hw_step list \<Rightarrow> 'b \<Rightarrow> happened" where
  "true_run B count flags isrs steps b =
     (let (hs, b) = true_steps B count flags isrs steps b in hs @ [(count b, Some (stop_event (of_nat (count b))))])"

lemma device_begins:
  fixes s :: "('i, 'b, 'z) cortex"
  assumes s: "g_ops s = Some ()" "the_writer s = tw_new" "hw_clock s = ck_new"
    and ring: "2 \<le> cap" "cap \<le> 0x80000000" "is_power_of_two cap" "unat cap \<le> length ring"
    and block: "kMinBlockBuffer \<le> n" "unat n < 4294967277" "unat n \<le> length block"
  obtains s1 where "rec_begin (cortex_link B (\<lambda>_. None)) () (Some ring) cap (Some block) n build_id seed flags s =
      Some (32 \<le> unat cap, s1)"
    "32 \<le> unat cap \<Longrightarrow> hw_logged (g_isr s) flags (header_bytes build_id seed flags) [] 0 (rec_start s1)"
    "hw_bus s1 = hw_bus s"
proof -
  obtain rb where rb: "rb_init (Some ring) cap (the_ring s) = (True, rb)" "rb_ready rb" "rb_contents rb = []" "rb_cap rb = cap"
    using rb_init_ready [OF ring] by blast
  let ?s = "s\<lparr>the_ring := rb\<rparr>"
  obtain b tw s1 where 1: "tw_begin (\<lambda>_. rec_sink) (Some ()) (Some block) n build_id seed flags tw_new ?s = Some (b, tw, s1)"
    "if b then tw_flags tw = flags \<and> tw_logged () True (\<lambda>s. rb_contents (the_ring s)) (\<lambda>s. rb_ready (the_ring s))
       (rb_contents (the_ring ?s) @ header_bytes build_id seed flags) [] [] [] tw s1
     else \<not> tw_ok tw \<and> sink_at (\<lambda>s. rb_contents (the_ring s)) (\<lambda>s. rb_ready (the_ring s)) (rb_contents (the_ring ?s)) s1"
    using ring_sink.begin_logged [OF _ block, of ?s] rb(2) by fastforce
  have snk: "rec_sink (header_bytes build_id seed flags) ?s = Some (b, s1)" by (rule begin_asks_sink [OF block 1(1)])
  have b: "b = (32 \<le> unat cap)" using rec_sink_cases [of ?s "header_bytes build_id seed flags"] rb snk by auto
  have d: "device s1 = device ?s" using rec_sink_keeps snk by (rule sinks_keepD) simp
  have bs: "rec_begin (cortex_link B (\<lambda>_. None)) () (Some ring) cap (Some block) n build_id seed flags s =
      Some (32 \<le> unat cap, s1\<lparr>the_writer := tw\<rparr>)"
    using 1(1) rb(1) s(2) b by (simp add: rec_begin_def call_writer_def)
  show thesis
  proof (rule that [OF bs])
    assume "32 \<le> unat cap"
    with 1(2) b rb(3) have l: "tw_flags tw = flags" "tw_logged () True (\<lambda>s. rb_contents (the_ring s)) (\<lambda>s. rb_ready (the_ring s))
       (header_bytes build_id seed flags) [] [] [] tw s1" by simp_all
    show "hw_logged (g_isr s) flags (header_bytes build_id seed flags) [] 0 (rec_start (s1\<lparr>the_writer := tw\<rparr>))"
      using l d s logged_ring [of s1 "rec_start (s1\<lparr>the_writer := tw\<rparr>)" "()"]
      by (auto simp: hw_logged_def rec_start_def hal_mode_record_def device_def ck_follows_def ck_new_def)
  qed (use d in \<open>simp add: device_def\<close>)
qed

lemma hw_stop:
  assumes "hw_logged isrs flags bs0 log c s"
  obtains s' b hist cur where "rec_stop (cortex_link B h) ts s = Some s'"
    "tw_closed () True (\<lambda>s. rb_contents (the_ring s)) (\<lambda>s. rb_ready (the_ring s)) bs0 (log @ [stop_event ts]) b hist cur (the_writer s') s'"
proof -
  obtain hist cur where "tw_logged () True (\<lambda>s. rb_contents (the_ring s)) (\<lambda>s. rb_ready (the_ring s))
      bs0 log hist cur (the_writer s) s" using assms by (auto simp: hw_logged_def)
  from ring_sink.finish_logged [OF this, of ts] obtain b tw s1 hist' cur' where
    1: "tw_finish (\<lambda>_. rec_sink) ts (the_writer s) s = Some (b, tw, s1)"
    "tw_closed () True (\<lambda>s. rb_contents (the_ring s)) (\<lambda>s. rb_ready (the_ring s)) bs0 (log @ [stop_event ts]) b hist' cur' tw s1"
    by blast
  then show thesis
    by (intro that [of "(hal_mode_off (s1\<lparr>the_writer := tw\<rparr>))\<lparr>rec_started := False\<rparr>" b hist' cur'])
      (auto simp: rec_stop_def call_writer_def hal_mode_off_def tw_closed_def sink_at_def split: if_splits)
qed

section \<open>Properties\<close>


text \<open>
  C27. Masking does not mask on hardware. Inside a critical section the shim's own dispatch
  does nothing, but a vector entry does not look at the mask: the interrupt is recorded, with
  its time and return address, and its handler runs. So the recorder's sink is not protected
  against a handler that records, and a masked interrupt is in the trace.
\<close>

theorem masked_interrupt_is_taken:
  fixes s :: "('i, 'b, 'z) cortex"
  assumes counter: "\<forall>b. fst (bus_read B kDwtCyccnt b) = of_nat (count b)"
    and s: "hw_logged isrs flags bs0 log c s" "length isrs = 8" "g_mask_depth s < 0xFFFFFFFF"
    and c: "samples_ok c [count (hw_bus s)]"
    and int: "framed (Interrupt vector lr msp psp body)" "installed_at isrs vector"
  shows "pump_irqs L (hal_irq_disable s) = Some (hal_irq_disable s) \<and>
    (\<exists>s1. run_step B (Interrupt vector lr msp psp body) (hal_irq_disable s) = run_steps B body s1 \<and>
      hw_logged isrs flags bs0 (log @ [mk_event EV_IRQ_AT (of_nat (count (hw_bus s))) vector
        ((if lr AND 4 = 0 then msp else psp) ! 6)]) (count (hw_bus s)) s1)"
proof
  have l: "hw_logged isrs flags bs0 log c (hal_irq_disable s)"
    using s(1) logged_ring [of "hal_irq_disable s" s "()"] by (simp add: hw_logged_def hal_irq_disable_def)
  have "unat (g_mask_depth s) < 4294967295" using s(3) by (simp add: word_less_nat_alt)
  then have "unat (g_mask_depth s + 1) = unat (g_mask_depth s) + 1" by (simp add: unat_word_ariths)
  then have "0 < g_mask_depth (hal_irq_disable s)" by (simp add: hal_irq_disable_def word_less_nat_alt)
  then show "pump_irqs L (hal_irq_disable s) = Some (hal_irq_disable s)" by (simp add: pump_irqs_def split: option.split)
  let ?f = "\<lambda>ts. Op_irq_enter_at ts vector ((if lr AND 4 = 0 then msp else psp) ! 6)"
  have c': "c \<le> count (hw_bus (hal_irq_disable s))" "count (hw_bus (hal_irq_disable s)) < c + 4294967296"
    "count (hw_bus (hal_irq_disable s)) < 18446744073709551616"
    using c by (simp_all add: hal_irq_disable_def)
  obtain s1 where s1: "stamped B ?f (hal_irq_disable s) = Some s1"
    "hw_logged isrs flags bs0 (log @ [mk_event EV_IRQ_AT (of_nat (count (hw_bus s))) vector ((if lr AND 4 = 0 then msp else psp) ! 6)])
      (count (hw_bus s)) s1"
    using stamped_logs [OF l counter c', of ?f] by (auto simp: hal_irq_disable_def)
  then show "\<exists>s1. run_step B (Interrupt vector lr msp psp body) (hal_irq_disable s) = run_steps B body s1 \<and>
      hw_logged isrs flags bs0 (log @ [mk_event EV_IRQ_AT (of_nat (count (hw_bus s))) vector
        ((if lr AND 4 = 0 then msp else psp) ! 6)]) (count (hw_bus s)) s1"
    using hw_interrupt [OF l int(1)] hw_run_isr [OF s1(2) s(2)] int(2) by (intro exI [of _ s1]) simp
qed

section \<open>Witnesses\<close>

text \<open>A counter that each bus access moves by five, and a device that reads, is interrupted, and writes.\<close>

definition demo_bus :: "nat register_bus" where
  "demo_bus = \<lparr>bus_read = \<lambda>a n. (if a = kDwtCyccnt then of_nat n else 7, n + 5), bus_write = \<lambda>a v n. n + 5\<rparr>"

definition demo_steps :: "hw_step list" where
  "demo_steps = [Access_read 0x40001000, Interrupt 1 0xFFFFFFF9 [0, 0, 0, 0, 0, 0, 0x08000400, 0] [] [Access_read 0x40001004],
     Access_write 0x40002000 3]"

definition demo_device :: "(unit, nat) cortex_machine" where
  "demo_device = \<lparr>g_ops = Some (), g_writer = False, g_mode = MODE_OFF, g_isr = (replicate 8 None)[1 := Some ()],
     g_mask_depth = 0, g_in_isr = False, g_divergence = None, the_writer = tw_new, the_ring = rb_new,
     rec_started = False, hw_clock = ck_new, hw_bus = 0\<rparr>"

lemma demo_counter: "\<forall>b. fst (bus_read demo_bus kDwtCyccnt b) = of_nat (id b)"
  by (simp add: demo_bus_def)

lemma demo_true_run:
  "true_run demo_bus id 1 (g_isr demo_device) demo_steps 0 =
    [(5, Some (mk_event EV_MMIO_READ 5 0x40001000 7)), (10, Some (mk_event EV_IRQ_AT 10 1 0x08000400)),
     (20, Some (mk_event EV_MMIO_READ 20 0x40001004 7)), (30, Some (mk_event EV_MMIO_WRITE 30 0x40002000 3)),
     (35, Some (stop_event 35))]"
  by (simp add: true_run_def demo_steps_def demo_bus_def demo_device_def sampled_def installed_at_def kMaxIrqVectors_def
    kDwtCyccnt_def kFlagRecordWrites_def Let_def)


theorem masked_interrupt_is_taken_witness:
  "\<exists>s s1 :: (unit, nat) cortex_machine. g_mask_depth (hal_irq_disable s) = 1 \<and>
    run_step demo_bus (Interrupt 1 0xFFFFFFF9 [0, 0, 0, 0, 0, 0, 0x08000400, 0] [] [Access_read 0x40001004]) (hal_irq_disable s) =
      run_steps demo_bus [Access_read 0x40001004] s1 \<and>
    hw_logged (g_isr demo_device) 1 (header_bytes 1 2 1) [mk_event EV_IRQ_AT 0 1 0x08000400] 0 s1"
proof -
  have dev: "g_ops demo_device = Some ()" "the_writer demo_device = tw_new" "hw_clock demo_device = ck_new" "hw_bus demo_device = 0"
    by (simp_all add: demo_device_def)
  have sizes: "(2 :: u32) \<le> 256" "256 \<le> (0x80000000 :: u32)" "is_power_of_two 256" "unat (256 :: u32) \<le> length (replicate 256 0 :: bytes)"
    "kMinBlockBuffer \<le> 64" "unat (64 :: u32) < 4294967277" "unat (64 :: u32) \<le> length (replicate 64 0 :: bytes)" "32 \<le> unat (256 :: u32)"
    by (simp_all add: is_power_of_two_def kMinBlockBuffer_def kBlockOverhead_def kMaxEventBytes_def kVarintMaxBytes_def)
  obtain s1 :: "(unit, nat) cortex_machine" where s1: "hw_logged (g_isr demo_device) 1 (header_bytes 1 2 1) [] 0 (rec_start s1)" "hw_bus s1 = 0"
    by (rule device_begins [OF dev(1-3) sizes(1-7), of demo_bus 1 2 1]) (use sizes(8) dev(4) in simp)
  let ?s = "(rec_start s1)\<lparr>g_mask_depth := 0\<rparr>"
  have l: "hw_logged (g_isr demo_device) 1 (header_bytes 1 2 1) [] 0 ?s"
    using s1(1) logged_ring [of ?s "rec_start s1" "()"] by (simp add: hw_logged_def)
  have bus: "hw_bus ?s = 0" using s1(2) by (simp add: rec_start_def hal_mode_record_def)
  have f: "length (g_isr demo_device) = 8" "g_mask_depth ?s < 0xFFFFFFFF" "samples_ok 0 [id (hw_bus ?s)]"
    "framed (Interrupt 1 0xFFFFFFF9 [0, 0, 0, 0, 0, 0, 0x08000400, 0] [] [Access_read 0x40001004])" "installed_at (g_isr demo_device) 1"
    unfolding bus by (simp_all add: demo_device_def installed_at_def kMaxIrqVectors_def)
  have e: "id (hw_bus ?s) = 0" "[] @ [mk_event EV_IRQ_AT (of_nat 0) 1 ((if (0xFFFFFFF9 :: u32) AND 4 = 0
      then [0, 0, 0, 0, 0, 0, 0x08000400, 0] else []) ! 6)] = [mk_event EV_IRQ_AT 0 1 0x08000400]"
    unfolding bus by simp_all
  note masked_interrupt_is_taken [OF demo_counter l f, unfolded e(1), unfolded e(2), THEN conjunct2]
  moreover have "g_mask_depth (hal_irq_disable ?s) = 1" by (simp add: hal_irq_disable_def)
  ultimately show ?thesis by blast
qed

end
