(* ===== verification/Cli_Args.thy ===== *)
theory Cli_Args
  imports Buffered_Replay Timeline_Search
begin

text \<open>
  The arguments of the command line, \<^verbatim>\<open>host/src/main.cpp\<close>: the settings, the parser that fills
  them and the C library's number parsing it rests on. An argument is a string without its
  final zero. \<^verbatim>\<open>unsigned long\<close> has 64 bits, as on the hosts the tool is built for.
\<close>

section \<open>Numbers\<close>

definition is_space :: "char \<Rightarrow> bool" where
  "is_space c \<longleftrightarrow> c \<in> {CHR 0x09, CHR 0x0A, CHR 0x0B, CHR 0x0C, CHR 0x0D, CHR 0x20}"

definition is_digit :: "char \<Rightarrow> bool" where
  "is_digit c \<longleftrightarrow> 48 \<le> (of_char c :: nat) \<and> (of_char c :: nat) \<le> 57"

fun digits_value :: "nat \<Rightarrow> string \<Rightarrow> nat" where
  "digits_value n [] = n"
| "digits_value n (c # cs) = (if is_digit c then digits_value (10 * n + (of_char c - 48)) cs else n)"

text \<open>
  \<^verbatim>\<open>strtoull(s, 0, 10)\<close>: leading space, a sign, digits up to the first other character; the
  largest value when they denote too large a number, and zero when there are none.
\<close>

definition strtoull :: "string \<Rightarrow> u64" where
  "strtoull s =
     (let s = dropWhile is_space s;
          negative = (s \<noteq> [] \<and> hd s = CHR ''-'');
          n = digits_value 0 (if s \<noteq> [] \<and> (hd s = CHR ''-'' \<or> hd s = CHR ''+'') then drop 1 s else s)
      in if n \<ge> 2 ^ 64 then 0xFFFFFFFFFFFFFFFF else if negative then - of_nat n else of_nat n)"

text \<open>\<^verbatim>\<open>(u32)strtoul(s, 0, 10)\<close>.\<close>

definition strtou32 :: "string \<Rightarrow> u32" where
  "strtou32 s = ucast (strtoull s)"

text \<open>\<^verbatim>\<open>%u\<close> and \<^verbatim>\<open>%llu\<close>.\<close>

definition dec :: "'w :: len word \<Rightarrow> string" where
  "dec w = fmt_dec (unat w)"

section \<open>Settings\<close>

record cli_args =
  a_from :: u64
  a_to :: u64
  a_seed :: u64
  a_tx :: u32
  a_iters :: u32
  a_limit :: u32
  a_drain :: u32
  a_fifo :: u32
  a_slices :: u32
  a_at :: u64
  a_has_at :: bool
  a_walk :: u32
  a_stride :: u32
  a_find :: u32
  a_has_find :: bool
  a_ckpt :: u32
  a_writes :: bool
  a_variant :: variant
  a_out :: string
  a_save :: string
  a_file :: string
  a_bad :: bool

definition default_args :: cli_args where
  "default_args = \<lparr>a_from = 1, a_to = 200, a_seed = 1, a_tx = 24, a_iters = 6000, a_limit = 0,
     a_drain = 4096, a_fifo = 0xFFFFFFFF, a_slices = 60, a_at = 0, a_has_at = False, a_walk = 0,
     a_stride = 1, a_find = 0, a_has_find = False, a_ckpt = 128, a_writes = True, a_variant = kBuggy,
     a_out = '''', a_save = '''', a_file = '''', a_bad = False\<rparr>"

definition nl :: string where "nl = [CHR 0x0A]"

definition quoted :: "string \<Rightarrow> string" where
  "quoted s = [CHR 0x27] @ s @ [CHR 0x27]"

text \<open>An option that takes a value, with the messages printed; \<^term>\<open>None\<close> for any other word.\<close>

definition set_option :: "string \<Rightarrow> string \<Rightarrow> cli_args \<Rightarrow> (cli_args \<times> string list) option" where
  "set_option opt v a =
     (if opt = ''--from'' then Some (a\<lparr>a_from := strtoull v\<rparr>, [])
      else if opt = ''--to'' then Some (a\<lparr>a_to := strtoull v\<rparr>, [])
      else if opt = ''--seed'' then Some (a\<lparr>a_seed := strtoull v\<rparr>, [])
      else if opt = ''--tx'' then Some (a\<lparr>a_tx := strtou32 v\<rparr>, [])
      else if opt = ''--iters'' then Some (a\<lparr>a_iters := strtou32 v\<rparr>, [])
      else if opt = ''--limit'' then Some (a\<lparr>a_limit := strtou32 v\<rparr>, [])
      else if opt = ''--drain'' then Some (a\<lparr>a_drain := strtou32 v\<rparr>, [])
      else if opt = ''--fifo'' then Some (a\<lparr>a_fifo := strtou32 v\<rparr>, [])
      else if opt = ''--slices'' then Some (a\<lparr>a_slices := strtou32 v\<rparr>, [])
      else if opt = ''--at'' then Some (a\<lparr>a_at := strtoull v, a_has_at := True\<rparr>, [])
      else if opt = ''--walk'' then Some (a\<lparr>a_walk := strtou32 v\<rparr>, [])
      else if opt = ''--stride'' then Some (a\<lparr>a_stride := strtou32 v\<rparr>, [])
      else if opt = ''--checkpoints'' then Some (a\<lparr>a_ckpt := strtou32 v\<rparr>, [])
      else if opt = ''--find-consumed'' then Some (a\<lparr>a_find := strtou32 v, a_has_find := True\<rparr>, [])
      else if opt = ''--out'' then Some (a\<lparr>a_out := v\<rparr>, [])
      else if opt = ''--save'' then Some (a\<lparr>a_save := v\<rparr>, [])
      else if opt = ''--variant'' then
        if v = ''fixed'' then Some (a\<lparr>a_variant := kFixed\<rparr>, [])
        else if v = ''buggy'' then Some (a\<lparr>a_variant := kBuggy\<rparr>, [])
        else Some (a\<lparr>a_bad := True\<rparr>, [''rewind: unknown variant '' @ quoted v @ nl])
      else None)"

text \<open>A word no option takes: the file, once, or an error.\<close>

definition positional :: "string \<Rightarrow> cli_args \<Rightarrow> cli_args \<times> string list" where
  "positional opt a =
     (if opt \<noteq> '''' \<and> hd opt \<noteq> CHR ''-'' \<and> a_file a = '''' then (a\<lparr>a_file := opt\<rparr>, [])
      else (a\<lparr>a_bad := True\<rparr>, [''rewind: unexpected argument '' @ quoted opt @ nl]))"

text \<open>
  The loop over \<^verbatim>\<open>argv\<close>: the settings so far, and what has been printed to \<^verbatim>\<open>stderr\<close>. An option
  that is the last word has no value and falls through to the end of the chain.
\<close>

fun parse_from :: "string list \<Rightarrow> cli_args \<Rightarrow> string list \<Rightarrow> cli_args \<times> string list" where
  "parse_from [] a printed = (a, printed)"
| "parse_from (opt # rest) a printed =
     (if opt = ''--no-writes'' then parse_from rest (a\<lparr>a_writes := False\<rparr>) printed
      else case rest of
        [] \<Rightarrow> (let (a, said) = positional opt a in (a, printed @ said))
      | v # rest' \<Rightarrow>
          (case set_option opt v a of
             Some (a, said) \<Rightarrow> parse_from rest' a (printed @ said)
           | None \<Rightarrow> (let (a, said) = positional opt a in parse_from rest a (printed @ said))))"

definition parse_args :: "string list \<Rightarrow> cli_args \<times> string list" where
  "parse_args argv = parse_from argv default_args []"

definition to_config :: "cli_args \<Rightarrow> run_config" where
  "to_config a = \<lparr>cfg_seed = a_seed a, cfg_tx_total = a_tx a, cfg_main_iters = a_iters a,
     cfg_variant = a_variant a, cfg_flags = (if a_writes a then kFlagRecordWrites else 0)\<rparr>"

section \<open>Printing and reading numbers\<close>

lemma decimal_digit: "n < 10 \<Longrightarrow> is_digit (hex_digits ! n) \<and> of_char (hex_digits ! n) = 48 + n"
proof -
  have "\<forall>n \<in> set [0..<10]. is_digit (hex_digits ! n) \<and> of_char (hex_digits ! n) = 48 + n" by code_simp
  then show "n < 10 \<Longrightarrow> is_digit (hex_digits ! n) \<and> of_char (hex_digits ! n) = 48 + n" by simp
qed

lemma digit_is_no_sign:
  "is_digit c \<Longrightarrow> \<not> is_space c" "is_digit c \<Longrightarrow> c \<noteq> CHR ''-''" "is_digit c \<Longrightarrow> c \<noteq> CHR ''+''"
  by (auto simp: is_digit_def is_space_def)

lemma digits_value_append:
  "\<forall>c \<in> set xs. is_digit c \<Longrightarrow> digits_value n (xs @ ys) = digits_value (digits_value n xs) ys"
  by (induction xs arbitrary: n) simp_all

lemma fmt_dec_digits: "fmt_dec n \<noteq> [] \<and> (\<forall>c \<in> set (fmt_dec n). is_digit c)"
proof (induction n rule: fmt_dec.induct)
  case (1 n)
  then show ?case
    using decimal_digit [of n] decimal_digit [of "n mod 10"] by (subst (1 2) fmt_dec.simps) auto
qed

lemma digits_value_fmt_dec: "digits_value 0 (fmt_dec n) = n"
proof (induction n rule: fmt_dec.induct)
  case (1 n)
  show ?case
  proof (cases "n < 10")
    case True
    then show ?thesis using decimal_digit [of n] by (subst fmt_dec.simps) simp
  next
    case False
    then have "digits_value 0 (fmt_dec (n div 10) @ [hex_digits ! (n mod 10)]) = 10 * (n div 10) + n mod 10"
      using 1 fmt_dec_digits [of "n div 10"] decimal_digit [of "n mod 10"] by (simp add: digits_value_append)
    then show ?thesis using False by (subst fmt_dec.simps) simp
  qed
qed

lemma strtoull_fmt_dec: "strtoull (fmt_dec n) = (if n \<ge> 2 ^ 64 then 0xFFFFFFFFFFFFFFFF else of_nat n)"
proof -
  obtain c cs where c: "fmt_dec n = c # cs" "is_digit c"
    using fmt_dec_digits [of n] by (cases "fmt_dec n") auto
  then have "dropWhile is_space (fmt_dec n) = fmt_dec n" "hd (fmt_dec n) \<noteq> CHR ''-''" "hd (fmt_dec n) \<noteq> CHR ''+''"
    using digit_is_no_sign [of c] by simp_all
  then show ?thesis by (simp add: strtoull_def Let_def digits_value_fmt_dec)
qed

lemma strtoull_dec [simp]: "strtoull (dec w) = w"
  using unat_u64_lt [of w] by (simp add: dec_def strtoull_fmt_dec)

lemma strtou32_fmt_dec:
  "strtou32 (fmt_dec n) = (if n \<ge> 2 ^ 64 then 0xFFFFFFFF else of_nat n)"
  by (auto simp: strtou32_def strtoull_fmt_dec unsigned_of_nat take_bit_nat_eq_self)

lemma strtou32_dec [simp]: "strtou32 (dec w) = w"
  using unat_u32_lt [of w] by (simp add: dec_def strtou32_fmt_dec)

section \<open>Writing settings as arguments\<close>

text \<open>The words that give a program its settings.\<close>

definition render_args :: "cli_args \<Rightarrow> string list" where
  "render_args a =
     [''--from'', dec (a_from a), ''--to'', dec (a_to a), ''--seed'', dec (a_seed a), ''--tx'', dec (a_tx a),
      ''--iters'', dec (a_iters a), ''--limit'', dec (a_limit a), ''--drain'', dec (a_drain a),
      ''--fifo'', dec (a_fifo a), ''--slices'', dec (a_slices a), ''--walk'', dec (a_walk a),
      ''--stride'', dec (a_stride a), ''--checkpoints'', dec (a_ckpt a), ''--out'', a_out a, ''--save'', a_save a,
      ''--variant'', if a_variant a = kFixed then ''fixed'' else ''buggy''] @
     (if a_has_at a then [''--at'', dec (a_at a)] else []) @
     (if a_has_find a then [''--find-consumed'', dec (a_find a)] else []) @
     (if a_writes a then [] else [''--no-writes'']) @
     (if a_file a = '''' then [] else [a_file a])"

text \<open>Settings a command line can give: an option never given keeps its default.\<close>

definition expressible :: "cli_args \<Rightarrow> bool" where
  "expressible a \<longleftrightarrow> \<not> a_bad a \<and> (a_has_at a \<or> a_at a = 0) \<and> (a_has_find a \<or> a_find a = 0) \<and>
     (a_file a = '''' \<or> hd (a_file a) \<noteq> CHR ''-'')"

lemma set_option_simps [simp]:
  "set_option ''--from'' v a = Some (a\<lparr>a_from := strtoull v\<rparr>, [])"
  "set_option ''--to'' v a = Some (a\<lparr>a_to := strtoull v\<rparr>, [])"
  "set_option ''--seed'' v a = Some (a\<lparr>a_seed := strtoull v\<rparr>, [])"
  "set_option ''--tx'' v a = Some (a\<lparr>a_tx := strtou32 v\<rparr>, [])"
  "set_option ''--iters'' v a = Some (a\<lparr>a_iters := strtou32 v\<rparr>, [])"
  "set_option ''--limit'' v a = Some (a\<lparr>a_limit := strtou32 v\<rparr>, [])"
  "set_option ''--drain'' v a = Some (a\<lparr>a_drain := strtou32 v\<rparr>, [])"
  "set_option ''--fifo'' v a = Some (a\<lparr>a_fifo := strtou32 v\<rparr>, [])"
  "set_option ''--slices'' v a = Some (a\<lparr>a_slices := strtou32 v\<rparr>, [])"
  "set_option ''--at'' v a = Some (a\<lparr>a_at := strtoull v, a_has_at := True\<rparr>, [])"
  "set_option ''--walk'' v a = Some (a\<lparr>a_walk := strtou32 v\<rparr>, [])"
  "set_option ''--stride'' v a = Some (a\<lparr>a_stride := strtou32 v\<rparr>, [])"
  "set_option ''--checkpoints'' v a = Some (a\<lparr>a_ckpt := strtou32 v\<rparr>, [])"
  "set_option ''--find-consumed'' v a = Some (a\<lparr>a_find := strtou32 v, a_has_find := True\<rparr>, [])"
  "set_option ''--out'' v a = Some (a\<lparr>a_out := v\<rparr>, [])"
  "set_option ''--save'' v a = Some (a\<lparr>a_save := v\<rparr>, [])"
  "set_option ''--variant'' ''fixed'' a = Some (a\<lparr>a_variant := kFixed\<rparr>, [])"
  "set_option ''--variant'' ''buggy'' a = Some (a\<lparr>a_variant := kBuggy\<rparr>, [])"
  by (simp_all add: set_option_def)

lemma set_option_dash: "set_option opt v a \<noteq> None \<Longrightarrow> opt \<noteq> '''' \<and> hd opt = CHR ''-''"
  by (auto simp: set_option_def split: if_splits)

declare parse_from.simps(2) [simp del]

lemma parse_option:
  "set_option opt v a = Some (a', said) \<Longrightarrow> opt \<noteq> ''--no-writes'' \<Longrightarrow>
     parse_from (opt # v # rest) a printed = parse_from rest a' (printed @ said)"
  by (subst parse_from.simps) simp

lemma parse_no_writes: "parse_from (''--no-writes'' # rest) a printed = parse_from rest (a\<lparr>a_writes := False\<rparr>) printed"
  by (subst parse_from.simps) simp

lemma parse_file:
  assumes "file \<noteq> ''''" "hd file \<noteq> CHR ''-''" "a_file a = ''''"
  shows "parse_from (file # rest) a printed = parse_from rest (a\<lparr>a_file := file\<rparr>) printed"
proof -
  have "set_option file v a = None" for v using set_option_dash assms(2) by blast
  moreover have "file \<noteq> ''--no-writes''" using assms(2) by auto
  ultimately show ?thesis
    using assms by (subst parse_from.simps) (cases rest, simp_all add: positional_def)
qed

lemma parse_render:
  assumes "expressible a"
  shows "parse_from (render_args a @ rest) default_args [] = parse_from rest a []"
proof -
  let ?b = "default_args\<lparr>a_from := a_from a, a_to := a_to a, a_seed := a_seed a, a_tx := a_tx a,
    a_iters := a_iters a, a_limit := a_limit a, a_drain := a_drain a, a_fifo := a_fifo a, a_slices := a_slices a,
    a_walk := a_walk a, a_stride := a_stride a, a_ckpt := a_ckpt a, a_out := a_out a, a_save := a_save a,
    a_variant := a_variant a\<rparr>"
  let ?at = "?b\<lparr>a_at := a_at a, a_has_at := a_has_at a\<rparr>"
  let ?find = "?at\<lparr>a_find := a_find a, a_has_find := a_has_find a\<rparr>"
  let ?w = "?find\<lparr>a_writes := a_writes a\<rparr>"
  have opts: "parse_from ([''--from'', dec (a_from a), ''--to'', dec (a_to a), ''--seed'', dec (a_seed a), ''--tx'', dec (a_tx a),
      ''--iters'', dec (a_iters a), ''--limit'', dec (a_limit a), ''--drain'', dec (a_drain a),
      ''--fifo'', dec (a_fifo a), ''--slices'', dec (a_slices a), ''--walk'', dec (a_walk a),
      ''--stride'', dec (a_stride a), ''--checkpoints'', dec (a_ckpt a), ''--out'', a_out a, ''--save'', a_save a,
      ''--variant'', if a_variant a = kFixed then ''fixed'' else ''buggy''] @ ws) default_args [] = parse_from ws ?b []" for ws
    by (cases "a_variant a") (simp_all add: parse_option)
  have at: "parse_from ((if a_has_at a then [''--at'', dec (a_at a)] else []) @ ws) ?b [] = parse_from ws ?at []" for ws
    using assms by (auto simp: parse_option expressible_def default_args_def)
  have find: "parse_from ((if a_has_find a then [''--find-consumed'', dec (a_find a)] else []) @ ws) ?at [] =
      parse_from ws ?find []" for ws
    using assms by (auto simp: parse_option expressible_def default_args_def)
  have w: "parse_from ((if a_writes a then [] else [''--no-writes'']) @ ws) ?find [] = parse_from ws ?w []" for ws
    by (auto simp: parse_no_writes default_args_def)
  have all: "?w\<lparr>a_file := a_file a\<rparr> = a" "a_file ?w = ''''"
    using assms by (cases a, simp add: expressible_def default_args_def)+
  have "parse_from ((if a_file a = '''' then [] else [a_file a]) @ rest) ?w [] = parse_from rest a []"
  proof (cases "a_file a = ''''")
    case True
    have "?w\<lparr>a_file := ''''\<rparr> = ?w" by (simp add: default_args_def)
    then have "?w = a" by (rule trans [OF sym all(1) [unfolded True]])
    with True show ?thesis by (simp only: simp_thms if_True append_Nil)
  next
    case False
    then have "parse_from (a_file a # rest) ?w [] = parse_from rest (?w\<lparr>a_file := a_file a\<rparr>) []"
      using assms by (intro parse_file [OF False _ all(2)]) (simp add: expressible_def)
    then show ?thesis using False by (simp only: all(1) if_False append_Cons append_Nil)
  qed
  then show ?thesis
    by (simp only: render_args_def append_assoc opts at find w)
qed

section \<open>Properties\<close>

text \<open>
  C33. The parser reads back what was meant. Any settings a command line can give, written out as
  options in full, are parsed to exactly those settings, and nothing is printed; one more
  word that starts with a dash and is not a switch of its own is reported and marks the
  settings bad.
\<close>

theorem arguments_roundtrip:
  assumes "expressible a"
  shows "parse_args (render_args a) = (a, []) \<and>
    (word \<noteq> '''' \<and> hd word = CHR ''-'' \<and> word \<noteq> ''--no-writes'' \<longrightarrow>
      parse_args (render_args a @ [word]) =
        (a\<lparr>a_bad := True\<rparr>, [''rewind: unexpected argument '' @ quoted word @ nl]))"
  using parse_render [OF assms, of "[]"] parse_render [OF assms, of "[word]"]
  by (simp_all add: parse_args_def parse_from.simps(2) positional_def)

theorem arguments_roundtrip_witness:
  "parse_args (render_args (default_args\<lparr>a_seed := 7, a_file := ''trace''\<rparr>) @ [''--out'']) =
    (default_args\<lparr>a_seed := 7, a_file := ''trace'', a_bad := True\<rparr>, [''rewind: unexpected argument '' @ quoted ''--out'' @ nl])"
proof -
  have "expressible (default_args\<lparr>a_seed := 7, a_file := ''trace''\<rparr>)"
    by (simp add: expressible_def default_args_def)
  from arguments_roundtrip [OF this, of "''--out''"] show ?thesis by simp
qed


end
