(* ===== verification/Cli.thy ===== *)
theory Cli
  imports Cli_Args
begin

text \<open>
  The commands of the tool, \<^verbatim>\<open>host/src/main.cpp\<close>: what each reads, runs, prints and answers the
  shell. A command acts on the files and the two output streams, and on the static state of
  the linked program. Printed text is the text the format strings make, up to the directive
  \<^verbatim>\<open>%.1f\<close>, which keeps the two numbers whose quotient it prints.
\<close>

section \<open>Files and output\<close>

datatype printed = Text string | Per_cent u64 u64 | Quotient nat u32

text \<open>
  What the C library's files do is read from the state: a path without a file cannot be opened
  for reading; \<^verbatim>\<open>io_read_error\<close> is the answer of \<^verbatim>\<open>ferror\<close> after the last read; \<^verbatim>\<open>io_store\<close> gives,
  unless the file cannot be opened, how many bytes \<^verbatim>\<open>fwrite\<close> says it took, and what the file
  holds once it is closed.
\<close>

record cli_io =
  io_files :: "string \<rightharpoonup> bytes"
  io_read_error :: "string \<Rightarrow> bool"
  io_store :: "string \<Rightarrow> bytes \<Rightarrow> (nat \<times> bytes) option"
  io_out :: "printed list"
  io_err :: "string list"

definition complain :: "string \<Rightarrow> cli_io \<Rightarrow> cli_io" where
  "complain text io = io\<lparr>io_err := io_err io @ [text @ nl]\<rparr>"

definition prints :: "printed list \<Rightarrow> cli_io \<Rightarrow> cli_io" where
  "prints what io = io\<lparr>io_out := io_out io @ what\<rparr>"

definition say :: "string \<Rightarrow> cli_io \<Rightarrow> cli_io" where
  "say text io = prints [Text text] io"

definition read_file :: "string \<Rightarrow> cli_io \<Rightarrow> bytes option \<times> cli_io" where
  "read_file path io =
     (case io_files io path of
        None \<Rightarrow> (None, complain (''rewind: cannot open '' @ path) io)
      | Some bytes \<Rightarrow>
          if io_read_error io path then (None, complain (''rewind: error reading '' @ path) io)
          else (Some bytes, io))"

definition write_file :: "string \<Rightarrow> bytes \<Rightarrow> cli_io \<Rightarrow> bool \<times> cli_io" where
  "write_file path bytes io =
     (case io_store io path bytes of
        None \<Rightarrow> (False, complain (''rewind: cannot write '' @ path) io)
      | Some (n, kept) \<Rightarrow>
          let io = io\<lparr>io_files := (io_files io)(path \<mapsto> kept)\<rparr> in
          if n \<noteq> length bytes then (False, complain (''rewind: short write to '' @ path) io)
          else (True, io))"

text \<open>\<^verbatim>\<open>%10u\<close>, \<^verbatim>\<open>%-8llu\<close>, \<^verbatim>\<open>%016llX\<close> and their like.\<close>

definition pad_left :: "nat \<Rightarrow> string \<Rightarrow> string" where
  "pad_left width s = replicate (width - length s) CHR '' '' @ s"

definition pad_right :: "nat \<Rightarrow> string \<Rightarrow> string" where
  "pad_right width s = s @ replicate (width - length s) CHR '' ''"

definition fmt_hex64 :: "u64 \<Rightarrow> string" where
  "fmt_hex64 w = fmt_hex (ucast (drop_bit 32 w)) @ fmt_hex (ucast w)"

definition fmt_hex16 :: "u16 \<Rightarrow> string" where
  "fmt_hex16 w = drop 4 (fmt_hex (ucast w))"

text \<open>The text of \<^verbatim>\<open>usage()\<close>; its answer is 2.\<close>

definition usage_text :: string where
  "usage_text = concat (List.map (\<lambda>line. line @ nl) [
     ''rewind -- deterministic record & replay for bare-metal firmware'',
     '''',
     ''usage:'',
     ''  rewind hunt   [--from N] [--to N] [--variant buggy|fixed] [--save FILE]'',
     ''  rewind record [--seed N] [--variant buggy|fixed] [--tx N] [--iters N]'',
     ''                [--no-writes] --out FILE'',
     ''  rewind replay FILE [--iters N]'',
     ''  rewind dump   FILE [--limit N]'',
     ''  rewind sizing [--seed N] [--drain N] [--fifo N] [--slices N]'',
     ''  rewind inspect FILE [--at N] [--walk M] [--stride K]'',
     ''                      [--find-consumed N] [--iters N]'',
     '''',
     ''common options:'',
     ''  --seed N      simulator seed; picks the interrupt arrival schedule'',
     ''  --variant V   buggy (default) clears the shared counter;'',
     ''                fixed subtracts it under a critical section'',
     ''  --tx N        bytes the UART delivers over the run (default 24)'',
     ''  --iters N     main-loop iterations (default 6000). Must match the'',
     ''                recording when replaying.'',
     ''  --no-writes   omit MMIO writes from the trace: smaller, but replay'',
     ''                loses its consistency check'',
     '''',
     ''inspect options -- reverse execution over a recorded run:'',
     ''  --at N            go to event N (default: the end of the run)'',
     ''  --walk M          then step backwards M times, printing each'',
     ''  --stride K        events per backward step (default 1)'',
     ''  --find-consumed N bisect to the first point where the firmware had'',
     ''                    consumed N bytes, then walk back from there'',
     ''  --checkpoints K   snapshot every K main-loop iterations (default'',
     ''                    128). Raise it hugely to see what navigation'',
     ''                    costs without checkpoints.'',
     '''',
     ''sizing options:'',
     ''  --drain N     bytes moved from the ring per pass through the main'',
     ''                loop (default 4096)'',
     ''  --fifo N      how many bytes the transport accepts per call; model'',
     ''                a UART FIFO with 4 or 8 (default: unlimited)'',
     ''  --slices N    drains per run (default 60). Fewer means the main'',
     ''                loop is busier and the ring has to hold more.''])"

definition usage :: "cli_io \<Rightarrow> cli_io" where
  "usage io = io\<lparr>io_err := io_err io @ [usage_text]\<rparr>"

section \<open>hunt\<close>

record hunt =
  hu_runs :: u64
  hu_failures :: u64
  hu_first_failing :: bytes
  hu_first_seed :: u64

definition hunt_new :: hunt where
  "hunt_new = \<lparr>hu_runs = 0, hu_failures = 0, hu_first_failing = [], hu_first_seed = 0\<rparr>"

definition hunt_tally :: "u64 \<Rightarrow> record_result \<Rightarrow> hunt \<Rightarrow> cli_io \<Rightarrow> hunt \<times> cli_io" where
  "hunt_tally seed rec h io =
     (let h = h\<lparr>hu_runs := hu_runs h + 1\<rparr> in
      if rr_bug_triggered rec then
        let h = h\<lparr>hu_failures := hu_failures h + 1\<rparr> in
        if hu_first_failing h = [] then
          (h\<lparr>hu_first_failing := rr_trace rec, hu_first_seed := seed\<rparr>,
           say (''seed '' @ pad_right 8 (dec seed) @ '' FAIL  consumed '' @ dec (fo_consumed (rr_fw rec)) @
             '' of '' @ dec (rr_tx_sent rec) @ '' bytes  ('' @ fmt_dec (length (rr_trace rec)) @
             '' byte trace)'' @ nl) io)
        else (h, io)
      else (h, io))"

text \<open>
  The loop over the seeds; \<^verbatim>\<open>stack\<close> is what the uninitialised block buffer of each run holds.
  \<^term>\<open>None\<close> in the answer is the early return with 1.
\<close>

partial_function (option) hunt_loop ::
  "(u64 \<Rightarrow> bytes) \<Rightarrow> cli_args \<Rightarrow> u64 \<Rightarrow> hunt \<Rightarrow> cli_io \<Rightarrow> 'z tl \<Rightarrow> (hunt option \<times> cli_io \<times> 'z tl) option" where
  "hunt_loop stack a seed h io s =
     (if seed \<le> a_to a then do {
        (rec, s) \<leftarrow> record_run tl_captures (stack seed) ((to_config a)\<lparr>cfg_seed := seed\<rparr>) s;
        if \<not> rr_writer_ok rec
        then Some (None, complain (''rewind: trace writer failed: '' @ rr_writer_error rec) io, s)
        else (case hunt_tally seed rec h io of (h, io) \<Rightarrow> hunt_loop stack a (seed + 1) h io s)
      } else Some (Some h, io, s))"

text \<open>What follows the loop, with the exit code.\<close>

definition hunt_report :: "cli_args \<Rightarrow> hunt \<Rightarrow> cli_io \<Rightarrow> nat \<times> cli_io" where
  "hunt_report a h io =
     (let io = prints [Text (nl @ dec (hu_failures h) @ '' of '' @ dec (hu_runs h) @ '' runs failed (''),
            Per_cent (hu_failures h) (hu_runs h), Text (''%)'' @ nl)] io in
      if hu_failures h = 0 then (0, say (''no failure in this range.'' @ nl) io)
      else if a_save a \<noteq> '''' then
        (case write_file (a_save a) (hu_first_failing h) io of (ok, io) \<Rightarrow>
           if \<not> ok then (1, io)
           else (0, say (''wrote the seed '' @ dec (hu_first_seed h) @ '' failure to '' @ a_save a @
             '' -- it now fails identically, every time:'' @ nl @ ''  rewind replay '' @ a_save a @ nl) io))
      else (0, say (''pass --save FILE to keep the first failing trace.'' @ nl) io))"

definition cmd_hunt :: "(u64 \<Rightarrow> bytes) \<Rightarrow> cli_args \<Rightarrow> cli_io \<Rightarrow> 'z tl \<Rightarrow> (nat \<times> cli_io \<times> 'z tl) option" where
  "cmd_hunt stack a io s =
     (if a_to a < a_from a then Some (2, complain ''rewind: --to must not be below --from'' io, s)
      else do {
        (found, io, s) \<leftarrow> hunt_loop stack a (a_from a) hunt_new io s;
        case found of
          None \<Rightarrow> Some (1, io, s)
        | Some h \<Rightarrow> (case hunt_report a h io of (code, io) \<Rightarrow> Some (code, io, s))
      })"

section \<open>sizing\<close>

definition sizing_config :: "cli_args \<Rightarrow> u32 \<Rightarrow> buffered_config" where
  "sizing_config a capacity = \<lparr>bc_run = to_config a, bc_ring_capacity = capacity, bc_drain_budget = a_drain a,
     bc_link_per_call = a_fifo a, bc_slices = a_slices a\<rparr>"

definition sizing_row :: "u32 \<Rightarrow> buffered_result \<Rightarrow> string" where
  "sizing_row capacity r =
     pad_left 10 (dec capacity) @ ''  '' @ pad_left 10 (dec (br_high_water r)) @ ''  '' @
     pad_left 11 (dec (br_blocks_lost r)) @ ''  '' @ pad_left 12 (dec (br_bytes_lost r)) @ ''  '' @
     (if br_healthy r then ''ok'' else ''LOSES DATA'') @ nl"

partial_function (option) sizing_loop ::
  "cli_args \<Rightarrow> u32 \<Rightarrow> u32 \<Rightarrow> cli_io \<Rightarrow> 'z tl \<Rightarrow> (u32 option \<times> cli_io \<times> 'z tl) option" where
  "sizing_loop a capacity smallest_safe io s =
     (if capacity \<le> 65536 then do {
        (r, s) \<leftarrow> record_buffered tl_captures (sizing_config a capacity) s;
        if \<not> br_began r
        then Some (None, complain (''rewind: could not start recorder at '' @ dec capacity @ '' bytes'') io, s)
        else sizing_loop a (capacity * 2)
          (if br_healthy r \<and> smallest_safe = 0 then capacity else smallest_safe)
          (say (sizing_row capacity r) io) s
      } else Some (Some smallest_safe, io, s))"

text \<open>What is printed before the first row, and after the last.\<close>

definition sizing_title :: "cli_args \<Rightarrow> printed list" where
  "sizing_title a =
     [Text (''seed '' @ dec (a_seed a) @ '', draining '' @ dec (a_drain a) @ '' bytes per pass, '' @
        dec (a_slices a) @ '' passes'')] @
     (if a_fifo a \<noteq> 0xFFFFFFFF then [Text ('', transport takes '' @ dec (a_fifo a) @ '' bytes per call'')] else []) @
     [Text (nl @ nl @ pad_left 10 ''ring'' @ ''  '' @ pad_left 10 ''high water'' @ ''  '' @
        pad_left 11 ''blocks lost'' @ ''  '' @ pad_left 12 ''bytes lost'' @ ''  verdict'' @ nl)]"

definition sizing_verdict :: "u32 \<Rightarrow> printed list" where
  "sizing_verdict smallest_safe =
     (if smallest_safe = 0
      then [Text (nl @ ''Nothing in this range kept up. Drain more often, or'' @ nl @
        ''record fewer events -- try --no-writes.'' @ nl)]
      else [Text (nl @ ''Smallest ring that loses nothing: '' @ dec smallest_safe @ '' bytes.'' @ nl),
        Text (''Ship more than that: this is one seed, and the arrival'' @ nl @
          ''pattern that overruns it is by definition the one you did'' @ nl @ ''not test.'' @ nl)])"

definition cmd_sizing :: "cli_args \<Rightarrow> cli_io \<Rightarrow> 'z tl \<Rightarrow> (nat \<times> cli_io \<times> 'z tl) option" where
  "cmd_sizing a io s = do {
     (found, io, s) \<leftarrow> sizing_loop a 128 0 (prints (sizing_title a) io) s;
     case found of
       None \<Rightarrow> Some (1, io, s)
     | Some smallest_safe \<Rightarrow>
         Some (if smallest_safe = 0 then 1 else 0, prints (sizing_verdict smallest_safe) io, s)
   }"

section \<open>record and replay\<close>

definition cmd_record :: "(u64 \<Rightarrow> bytes) \<Rightarrow> cli_args \<Rightarrow> cli_io \<Rightarrow> 'z tl \<Rightarrow> (nat \<times> cli_io \<times> 'z tl) option" where
  "cmd_record stack a io s =
     (if a_out a = '''' then Some (2, complain ''rewind: record needs --out FILE'' io, s)
      else do {
        (rec, s) \<leftarrow> record_run tl_captures (stack (a_seed a)) (to_config a) s;
        if \<not> rr_writer_ok rec
        then Some (1, complain (''rewind: trace writer failed: '' @ rr_writer_error rec) io, s)
        else case write_file (a_out a) (rr_trace rec) io of (ok, io) \<Rightarrow>
          if \<not> ok then Some (1, io, s)
          else
            let io = prints [Text (''seed '' @ dec (a_seed a) @ ''  '' @ dec (rr_events rec) @ '' events  '' @
                  fmt_dec (length (rr_trace rec)) @ '' bytes  ''),
                Quotient (length (rr_trace rec)) (rr_events rec),
                Text ('' bytes/event  '' @ dec (rr_cycles rec) @ '' cycles'' @ nl)] io;
              io = say (''uart delivered '' @ dec (rr_tx_sent rec) @ '' bytes, firmware consumed '' @
                dec (fo_consumed (rr_fw rec)) @ nl) io;
              io = say (''result: '' @ (if rr_bug_triggered rec then ''BUG TRIGGERED'' else ''clean'') @ nl) io
            in Some (if rr_bug_triggered rec then 1 else 0, io, s)
      })"

text \<open>What \<^verbatim>\<open>replay\<close> prints of a firmware that ran.\<close>

definition outcome_line :: "firmware_outcome \<Rightarrow> string" where
  "outcome_line fw = ''consumed '' @ dec (fo_consumed fw) @ '' bytes  checksum 0x'' @ fmt_hex (fo_checksum fw) @
     ''  state hash 0x'' @ fmt_hex64 (fo_state_hash fw) @ nl"

definition replay_trace :: "cli_args \<Rightarrow> bytes \<Rightarrow> cli_io \<Rightarrow> 'z tl \<Rightarrow> (nat \<times> cli_io \<times> 'z tl) option" where
  "replay_trace a trace io s = do {
     (rep, s) \<leftarrow> replay_run tl_captures trace (a_iters a) s;
     if \<not> pr_loaded rep then Some (1, complain (''rewind: '' @ pr_error rep) io, s)
     else
       let io = say (''replayed '' @ fmt_dec (pr_events_consumed rep) @ '' of '' @ fmt_dec (pr_events_total rep) @
             '' events -- no simulator, no hardware'' @ nl) io;
           io = say (outcome_line (pr_fw rep)) io
       in if pr_diverged rep
          then Some (1, complain (''the firmware asked for something this trace does not'' @ nl @
              ''have. Either it is not the build that recorded it, or'' @ nl @
              ''--iters does not match the recording.'')
            (complain (nl @ ''DIVERGED: '' @ pr_divergence rep) io), s)
          else Some (0, io, s)
   }"

definition cmd_replay :: "cli_args \<Rightarrow> cli_io \<Rightarrow> 'z tl \<Rightarrow> (nat \<times> cli_io \<times> 'z tl) option" where
  "cmd_replay a io s =
     (if a_file a = '''' then Some (2, complain ''rewind: replay needs a trace file'' io, s)
      else case read_file (a_file a) io of
        (None, io) \<Rightarrow> Some (1, io, s)
      | (Some trace, io) \<Rightarrow> replay_trace a trace io s)"

section \<open>inspect\<close>

definition consumed_at_least :: "u32 \<Rightarrow> tl_snapshot \<Rightarrow> bool" where
  "consumed_at_least ctx snap \<longleftrightarrow> st_consumed (sn_fw snap) \<ge> ctx"

definition snapshot_header :: string where
  "snapshot_header = pad_left 9 ''event'' @ ''  '' @ pad_left 9 ''cycle'' @ ''  '' @ pad_left 7 ''iter'' @ ''  '' @
     pad_left 8 ''pending'' @ ''  '' @ pad_left 8 ''consumed'' @ ''  '' @ pad_left 5 ''head'' @ ''  '' @
     pad_left 5 ''tail'' @ ''  '' @ pad_left 10 ''checksum'' @ nl"

definition snapshot_row :: "tl_snapshot \<Rightarrow> string" where
  "snapshot_row sn = pad_left 9 (fmt_dec (sn_event_index sn)) @ ''  '' @ pad_left 9 (dec (sn_ts sn)) @ ''  '' @
     pad_left 7 (dec (sn_main_iter sn)) @ ''  '' @ pad_left 8 (dec (st_pending (sn_fw sn))) @ ''  '' @
     pad_left 8 (dec (st_consumed (sn_fw sn))) @ ''  '' @ pad_left 5 (dec (st_head (sn_fw sn))) @ ''  '' @
     pad_left 5 (dec (st_tail (sn_fw sn))) @ ''  0x'' @ fmt_hex (st_checksum (sn_fw sn)) @ nl"

text \<open>The snapshot to start from: \<^term>\<open>None\<close> in the answer is the early return with 1.\<close>

definition inspect_start :: "cli_args \<Rightarrow> cli_io \<Rightarrow> 'z tl \<Rightarrow> (tl_snapshot option \<times> cli_io \<times> 'z tl) option" where
  "inspect_start a io s =
     (if a_has_find a then do {
        (found, snap, s) \<leftarrow> tl_find_first (Some (consumed_at_least (a_find a))) (Some sn_new) s;
        snap \<leftarrow> snap;
        if \<not> found
        then Some (None, say (''the firmware never consumed '' @ dec (a_find a) @ '' bytes in this run.'' @ nl) io, s)
        else Some (Some snap, say (''first consumed '' @ dec (a_find a) @ '' bytes at event '' @
          fmt_dec (sn_event_index snap) @ '', found in '' @ dec (tl_last_search_seeks (the_timeline s)) @
          '' seeks'' @ nl @ nl) io, s)
      } else do {
        (ok, snap, s) \<leftarrow> tl_seek (if a_has_at a then unat (a_at a) else tl_event_count (the_timeline s)) (Some sn_new) s;
        snap \<leftarrow> snap;
        if \<not> ok then Some (None, complain (''rewind: '' @ tl_error (the_timeline s)) io, s)
        else Some (Some snap, io, s)
      })"

text \<open>The walk back, as many steps as are left; \<^term>\<open>False\<close> in the answer is the early return.\<close>

fun inspect_walk :: "nat \<Rightarrow> u32 \<Rightarrow> tl_snapshot \<Rightarrow> cli_io \<Rightarrow> 'z tl \<Rightarrow> (bool \<times> cli_io \<times> 'z tl) option" where
  "inspect_walk 0 stride snap io s = Some (True, io, s)"
| "inspect_walk (Suc n) stride snap io s =
     (if tl_position (the_timeline s) = 0 then Some (True, io, s)
      else do {
        (ok, out, s) \<leftarrow> tl_step_back (unat stride) (Some snap) s;
        snap \<leftarrow> out;
        if \<not> ok then Some (False, complain (''rewind: '' @ tl_error (the_timeline s)) io, s)
        else inspect_walk n stride snap (say (snapshot_row snap) io) s
      })"

text \<open>The rest of the command, on an opened timeline.\<close>

definition inspect_opened :: "cli_args \<Rightarrow> cli_io \<Rightarrow> 'z tl \<Rightarrow> (nat \<times> cli_io \<times> 'z tl) option" where
  "inspect_opened a io s = do {
     let io = say (fmt_dec (tl_event_count (the_timeline s)) @ '' events, '' @
       fmt_dec (length (tl_checkpoints (the_timeline s))) @ '' checkpoints'' @ nl @ nl) io;
     (start, io, s) \<leftarrow> inspect_start a io s;
     case start of
       None \<Rightarrow> Some (1, io, s)
     | Some snap \<Rightarrow> do {
         let io = say (snapshot_row snap) (say snapshot_header io);
         let stride = (if a_stride a \<noteq> 0 then a_stride a else 1);
         (ok, io, s) \<leftarrow> inspect_walk (unat (a_walk a)) stride snap io s;
         if \<not> ok then Some (1, io, s)
         else Some (0, if a_walk a > 0
           then say (nl @ dec (rp_events_served (the_replay s)) @ '' events replayed to produce that.'' @ nl) io
           else io, s)
       }
   }"

definition inspect_trace :: "cli_args \<Rightarrow> bytes \<Rightarrow> cli_io \<Rightarrow> 'z tl \<Rightarrow> (nat \<times> cli_io \<times> 'z tl) option" where
  "inspect_trace a trace io s = do {
     let s = s\<lparr>the_replay := rp_new, the_timeline := tl_new\<rparr>;
     (opened, s) \<leftarrow> tl_open trace (a_iters a) (a_ckpt a) s;
     if \<not> opened then Some (1, complain (''rewind: '' @ tl_error (the_timeline s)) io, s)
     else inspect_opened a io s
   }"

definition cmd_inspect :: "cli_args \<Rightarrow> cli_io \<Rightarrow> 'z tl \<Rightarrow> (nat \<times> cli_io \<times> 'z tl) option" where
  "cmd_inspect a io s =
     (if a_file a = '''' then Some (2, complain ''rewind: inspect needs a trace file'' io, s)
      else case read_file (a_file a) io of
        (None, io) \<Rightarrow> Some (1, io, s)
      | (Some trace, io) \<Rightarrow> inspect_trace a trace io s)"

section \<open>dump\<close>

definition cli_event_name :: "u8 \<Rightarrow> string" where
  "cli_event_name type =
     (if type = ev_code EV_MMIO_READ then ''read ''
      else if type = ev_code EV_MMIO_WRITE then ''write''
      else if type = ev_code EV_IRQ_ENTER \<or> type = ev_code EV_IRQ_AT then ''irq  ''
      else if type = ev_code EV_STOP then ''stop ''
      else ''?    '')"

definition register_name :: "u32 \<Rightarrow> string" where
  "register_name addr =
     (if addr = kSystickCnt then ''SYSTICK.CNT''
      else if addr = kUart0Sr then ''UART0.SR''
      else if addr = kUart0Dr then ''UART0.DR''
      else if addr = kGpio0Odr then ''GPIO0.ODR''
      else '''')"

definition vector_name :: "u32 \<Rightarrow> string" where
  "vector_name vector = (if vector = kIrqUartRx then ''UART_RX'' else '''')"

definition dump_row :: "event \<Rightarrow> string" where
  "dump_row e =
     (let start = pad_left 10 (dec (ev_ts e)) @ ''  '' @ pad_right 5 (cli_event_name (ev_type e)) in
      if ev_type e = ev_code EV_IRQ_ENTER
      then start @ ''  vector '' @ pad_right 3 (dec (ev_addr e)) @ '' '' @ pad_right 13 (vector_name (ev_addr e)) @ nl
      else if ev_type e = ev_code EV_IRQ_AT
      then start @ ''  vector '' @ pad_right 3 (dec (ev_addr e)) @ '' '' @ pad_right 13 (vector_name (ev_addr e)) @
        '' returns to 0x'' @ fmt_hex (ev_value e) @ nl
      else if ev_type e = ev_code EV_STOP then start @ nl
      else start @ ''  0x'' @ fmt_hex (ev_addr e) @ '' '' @ pad_right 13 (register_name (ev_addr e)) @
        '' 0x'' @ fmt_hex (ev_value e) @ nl)"

text \<open>The loop over the events: how many have been shown, and how many there were.\<close>

partial_function (option) dump_loop ::
  "u32 \<Rightarrow> event \<Rightarrow> trace_reader \<Rightarrow> u32 \<Rightarrow> u32 \<Rightarrow> cli_io \<Rightarrow> (trace_reader \<times> u32 \<times> u32 \<times> cli_io) option" where
  "dump_loop limit ev reader shown n_events io = do {
     (got, out, reader) \<leftarrow> tr_next (Some ev) reader;
     if got then do {
       ev \<leftarrow> out;
       if limit \<noteq> 0 \<and> shown \<ge> limit then dump_loop limit ev reader shown (n_events + 1) io
       else dump_loop limit ev reader (shown + 1) (n_events + 1) (say (dump_row ev) io)
     } else Some (reader, shown, n_events, io)
   }"

definition dump_title :: "trace_header \<Rightarrow> nat \<Rightarrow> printed list" where
  "dump_title hdr n_bytes =
     [Text (''build 0x'' @ fmt_hex64 (h_build_id hdr) @ '' ('' @
        (case variant_for_build_id (h_build_id hdr) of
           None \<Rightarrow> ''unknown'' | Some variant \<Rightarrow> if variant = kFixed then ''fixed'' else ''buggy'') @
        '')  seed '' @ dec (h_seed hdr) @ ''  flags 0x'' @ fmt_hex16 (h_flags hdr) @ ''  '' @
        fmt_dec n_bytes @ '' bytes'' @ nl @ nl),
      Text (pad_left 10 ''cycle'' @ ''  '' @ pad_right 5 ''what'' @ ''  '' @ pad_right 10 ''addr'' @ '' '' @
        pad_right 13 ''register'' @ '' value'' @ nl)]"

text \<open>\<^verbatim>\<open>stack\<close> is what the uninitialised event holds.\<close>

definition dump_bytes :: "event \<Rightarrow> cli_args \<Rightarrow> bytes \<Rightarrow> cli_io \<Rightarrow> (nat \<times> cli_io) option" where
  "dump_bytes stack a bytes io = do {
     (opened, reader) \<leftarrow> tr_open (Some bytes) (of_nat (length bytes)) tr_new;
     if \<not> opened then Some (1, complain (''rewind: '' @ tr_error reader) io)
     else do {
       let io = prints (dump_title (tr_hdr reader) (length bytes)) io;
       (reader, shown, n_events, io) \<leftarrow> dump_loop (a_limit a) stack reader 0 0 io;
       if \<not> tr_ok reader then Some (1, complain (nl @ ''rewind: '' @ tr_error reader) io)
       else
         let io = (if a_limit a \<noteq> 0 \<and> n_events > shown
               then say (nl @ ''... '' @ dec (n_events - shown) @ '' more events (raise --limit to see them)'' @ nl) io
               else io)
         in Some (0, say (nl @ dec n_events @ '' events'' @ nl) io)
     }
   }"

definition cmd_dump :: "event \<Rightarrow> cli_args \<Rightarrow> cli_io \<Rightarrow> (nat \<times> cli_io) option" where
  "cmd_dump stack a io =
     (if a_file a = '''' then Some (2, complain ''rewind: dump needs a trace file'' io)
      else case read_file (a_file a) io of
        (None, io) \<Rightarrow> Some (1, io)
      | (Some bytes, io) \<Rightarrow> dump_bytes stack a bytes io)"

section \<open>main\<close>

text \<open>
  What the functions find in memory they have not initialised are the first two arguments.
\<close>

definition dispatch ::
  "(u64 \<Rightarrow> bytes) \<Rightarrow> event \<Rightarrow> string \<Rightarrow> cli_args \<Rightarrow> cli_io \<Rightarrow> 'z tl \<Rightarrow> (nat \<times> cli_io \<times> 'z tl) option" where
  "dispatch blocks ev command args io s =
     (if command = ''hunt'' then cmd_hunt blocks args io s
      else if command = ''record'' then cmd_record blocks args io s
      else if command = ''replay'' then cmd_replay args io s
      else if command = ''dump'' then map_option (\<lambda>(code, io). (code, io, s)) (cmd_dump ev args io)
      else if command = ''sizing'' then cmd_sizing args io s
      else if command = ''inspect'' then cmd_inspect args io s
      else Some (2, usage (complain (''rewind: unknown command '' @ quoted command) io), s))"

text \<open>\<^verbatim>\<open>argv\<close> without the program's own name.\<close>

definition rewind_main ::
  "(u64 \<Rightarrow> bytes) \<Rightarrow> event \<Rightarrow> string list \<Rightarrow> cli_io \<Rightarrow> 'z tl \<Rightarrow> (nat \<times> cli_io \<times> 'z tl) option" where
  "rewind_main blocks ev argv io s =
     (case argv of
        [] \<Rightarrow> Some (2, usage io, s)
      | command # words \<Rightarrow>
          if command = ''-h'' \<or> command = ''--help'' \<or> command = ''help'' then Some (0, usage io, s)
          else case parse_args words of (args, said) \<Rightarrow>
            let io = io\<lparr>io_err := io_err io @ said\<rparr> in
            if a_bad args then Some (2, io, s)
            else dispatch blocks ev command args io s)"

end
