(* ===== verification/Cli_Exit.thy ===== *)
theory Cli_Exit
  imports Cli
begin

text \<open>
  How the commands end: that each does, but for one search that cannot; and what the exit
  codes say. The results on single commands are in the theories after this one.
\<close>

section \<open>Exit codes of the commands\<close>

lemma complain_sel [simp]:
  "io_files (complain t io) = io_files io" "io_out (complain t io) = io_out io" "io_store (complain t io) = io_store io"
  "io_read_error (complain t io) = io_read_error io" "io_err (complain t io) = io_err io @ [t @ nl]"
  by (simp_all add: complain_def)

lemma prints_sel [simp]:
  "io_files (prints t io) = io_files io" "io_err (prints t io) = io_err io" "io_store (prints t io) = io_store io"
  "io_read_error (prints t io) = io_read_error io" "io_out (prints t io) = io_out io @ t"
  by (simp_all add: prints_def)

lemma say_sel [simp]:
  "io_files (say t io) = io_files io" "io_err (say t io) = io_err io" "io_store (say t io) = io_store io"
  "io_read_error (say t io) = io_read_error io" "io_out (say t io) = io_out io @ [Text t]"
  by (simp_all add: say_def)

lemma usage_sel [simp]:
  "io_files (usage io) = io_files io" "io_out (usage io) = io_out io" "io_err (usage io) = io_err io @ [usage_text]"
  by (simp_all add: usage_def)

text \<open>The rest of each command, when it is not refused, answers 0 or 1.\<close>

lemma hunt_report_code: "fst (hunt_report a h io) \<le> 1"
  by (simp add: hunt_report_def Let_def split: prod.split)

lemma cmd_hunt_code:
  "cmd_hunt stack a io s = Some (code, io', s') \<Longrightarrow>
     (if a_to a < a_from a then code = 2 \<and> io' = complain ''rewind: --to must not be below --from'' io \<and> s' = s
      else code \<le> 1)"
  using hunt_report_code
  by (auto simp: cmd_hunt_def bind_Some_iff split_beta simp flip: One_nat_def split: if_splits option.splits)

lemma cmd_record_code:
  "cmd_record stack a io s = Some (code, io', s') \<Longrightarrow>
     (if a_out a = '''' then code = 2 \<and> io' = complain ''rewind: record needs --out FILE'' io \<and> s' = s else code \<le> 1)"
  by (auto simp: cmd_record_def bind_Some_iff Let_def split: if_splits prod.splits)

lemma cmd_replay_code:
  "cmd_replay a io s = Some (code, io', s') \<Longrightarrow>
     (if a_file a = '''' then code = 2 \<and> io' = complain ''rewind: replay needs a trace file'' io \<and> s' = s else code \<le> 1)"
  by (auto simp: cmd_replay_def replay_trace_def bind_Some_iff Let_def split: if_splits prod.splits option.splits)

lemma cmd_dump_code:
  "cmd_dump ev a io = Some (code, io') \<Longrightarrow>
     (if a_file a = '''' then code = 2 \<and> io' = complain ''rewind: dump needs a trace file'' io else code \<le> 1)"
  by (auto simp: cmd_dump_def dump_bytes_def bind_Some_iff Let_def split: if_splits prod.splits option.splits)

lemma cmd_inspect_code:
  "cmd_inspect a io s = Some (code, io', s') \<Longrightarrow>
     (if a_file a = '''' then code = 2 \<and> io' = complain ''rewind: inspect needs a trace file'' io \<and> s' = s else code \<le> 1)"
  by (auto simp: cmd_inspect_def inspect_trace_def inspect_opened_def bind_Some_iff Let_def split: if_splits prod.splits option.splits)

lemma cmd_sizing_code: "cmd_sizing a io s = Some (code, io', s') \<Longrightarrow> code \<le> 1"
  by (auto simp: cmd_sizing_def bind_Some_iff Let_def split: if_splits prod.splits option.splits)

section \<open>The loops\<close>

text \<open>What the loops over runs are compared with: one run after the other, the results kept.\<close>

fun batch :: "('x \<Rightarrow> 's \<Rightarrow> ('r \<times> 's) option) \<Rightarrow> 'x list \<Rightarrow> 's \<Rightarrow> (('x \<times> 'r) list \<times> 's) option" where
  "batch f [] s = Some ([], s)"
| "batch f (x # xs) s = do { (r, s) \<leftarrow> f x s; (rs, s) \<leftarrow> batch f xs s; Some ((x, r) # rs, s) }"

lemma batch_all:
  assumes "\<And>x s. x \<in> set xs \<Longrightarrow> \<exists>r s'. f x s = Some (r, s') \<and> P x r"
  shows "\<exists>rs s'. batch f xs s = Some (rs, s') \<and> map fst rs = xs \<and> (\<forall>run \<in> set rs. P (fst run) (snd run))"
  using assms
proof (induction xs arbitrary: s)
  case (Cons x xs)
  obtain r s1 where r: "f x s = Some (r, s1)" "P x r" using Cons.prems [of x s] by auto
  obtain rs s' where "batch f xs s1 = Some (rs, s')" "map fst rs = xs" "\<forall>run \<in> set rs. P (fst run) (snd run)"
    using Cons.IH [of s1] Cons.prems by auto
  with r show ?case by (intro exI [of _ "(x, r) # rs"] exI [of _ s']) simp
qed simp

text \<open>
  The hunt, while the largest number is not among the seeds: it always ends, and when the runs
  are small enough for the writer not to fail, what it keeps is the tally of the runs of all
  seeds in order.
\<close>

definition seeds :: "u64 \<Rightarrow> u64 \<Rightarrow> u64 list" where
  "seeds a b = map of_nat [unat a ..< unat b + 1]"

definition hunt_run :: "(u64 \<Rightarrow> bytes) \<Rightarrow> cli_args \<Rightarrow> u64 \<Rightarrow> 'z tl \<Rightarrow> (record_result \<times> 'z tl) option" where
  "hunt_run stack a seed s = record_run tl_captures (stack seed) ((to_config a)\<lparr>cfg_seed := seed\<rparr>) s"

definition tally :: "u64 \<times> record_result \<Rightarrow> hunt \<times> cli_io \<Rightarrow> hunt \<times> cli_io" where
  "tally run acc = hunt_tally (fst run) (snd run) (fst acc) (snd acc)"

lemma next_seed:
  assumes "seed \<le> b" "b \<noteq> (- 1 :: u64)"
  shows "unat (seed + 1) = unat seed + 1" "seeds seed b = seed # seeds (seed + 1) b"
proof -
  have "unat b \<noteq> unat (- 1 :: u64)" using assms(2) by (metis word_unat_eq_iff)
  moreover have "unat (- 1 :: u64) = 18446744073709551615"
    by (simp add: unsigned_minus_1_eq_mask mask_eq_exp_minus_1)
  ultimately have "unat seed + 1 < 2 ^ 64" using assms(1) unat_u64_lt [of b] by (simp add: word_le_nat_alt)
  then show n: "unat (seed + 1) = unat seed + 1" by (simp add: unat_word_ariths)
  show "seeds seed b = seed # seeds (seed + 1) b"
    using assms(1) n by (simp add: seeds_def word_le_nat_alt upt_conv_Cons del: upt_Suc)
qed

lemma no_seeds: "\<not> seed \<le> b \<Longrightarrow> seeds seed b = []"
  by (simp add: seeds_def word_le_nat_alt)

lemma hunt_loop_step:
  assumes "seed \<le> a_to a" "hunt_run stack a seed s = Some (r, s1)"
  shows "hunt_loop stack a seed h io s =
    (if \<not> rr_writer_ok r then Some (None, complain (''rewind: trace writer failed: '' @ rr_writer_error r) io, s1)
     else hunt_loop stack a (seed + 1) (fst (tally (seed, r) (h, io))) (snd (tally (seed, r) (h, io))) s1)"
  using assms by (subst (1) hunt_loop.simps) (simp add: tally_def hunt_run_def split: prod.split)

lemma hunt_loop_stop: "\<not> seed \<le> a_to a \<Longrightarrow> hunt_loop stack a seed h io s = Some (Some h, io, s)"
  by (subst hunt_loop.simps) simp

lemma hunt_loop_ends:
  assumes "\<And>x. length (stack x) = 256" "a_to a \<noteq> - 1"
  shows "hunt_loop stack a seed h io s \<noteq> None"
proof (induction "length (seeds seed (a_to a))" arbitrary: seed h io s)
  case 0
  then have "\<not> seed \<le> a_to a" using next_seed(2) [OF _ assms(2), of seed] by auto
  then show ?case by (simp add: hunt_loop_stop)
next
  case (Suc n)
  then have le: "seed \<le> a_to a" using no_seeds [of seed "a_to a"] by fastforce
  obtain r s1 where r: "hunt_run stack a seed s = Some (r, s1)"
    using record_run_total [where block = "stack seed"] assms(1) unfolding hunt_run_def by blast
  have "n = length (seeds (seed + 1) (a_to a))" using Suc.hyps(2) next_seed(2) [OF le assms(2)] by simp
  from Suc.hyps(1) [OF this] show ?case by (simp add: hunt_loop_step [OF le r])
qed

lemma hunt_run_small:
  assumes "\<And>x. length (stack x) = 256" "small_run (to_config a)"
  obtains r s' where "hunt_run stack a seed s = Some (r, s')" "rr_writer_ok r" "rr_trace r \<noteq> []"
proof -
  have "small_run ((to_config a)\<lparr>cfg_seed := seed\<rparr>)" using assms(2) by (simp add: small_run_def)
  from record_run_small [where block = "stack seed" and caps = tl_captures, OF assms(1) this, of s] that show thesis by (auto simp: hunt_run_def)
qed

lemma hunt_loop_batch:
  assumes "\<And>x. length (stack x) = 256" "small_run (to_config a)" "a_to a \<noteq> - 1"
    and "batch (hunt_run stack a) (seeds seed (a_to a)) s = Some (runs, s')"
  shows "hunt_loop stack a seed h io s = Some (Some (fst (fold tally runs (h, io))), snd (fold tally runs (h, io)), s')"
  using assms(4)
proof (induction "length (seeds seed (a_to a))" arbitrary: seed h io s runs)
  case 0
  then have "\<not> seed \<le> a_to a" using next_seed(2) [OF _ assms(3), of seed] by auto
  with "0.prems" show ?case by (simp add: hunt_loop_stop no_seeds)
next
  case (Suc n)
  then have le: "seed \<le> a_to a" using no_seeds [of seed "a_to a"] by fastforce
  note sd = next_seed(2) [OF le assms(3)]
  obtain r s1 where r: "hunt_run stack a seed s = Some (r, s1)" "rr_writer_ok r"
    by (rule hunt_run_small [OF assms(1,2)])
  obtain rs where rs: "batch (hunt_run stack a) (seeds (seed + 1) (a_to a)) s1 = Some (rs, s')" "runs = (seed, r) # rs"
    using Suc.prems r(1) by (auto simp: sd bind_Some_iff)
  have "n = length (seeds (seed + 1) (a_to a))" using Suc.hyps(2) sd by simp
  from Suc.hyps(1) [OF this rs(1)] show ?case using r(2) rs(2) by (simp add: hunt_loop_step [OF le r(1)])
qed

text \<open>With the largest number as the last seed no run is the last: the counter wraps.\<close>

lemma hunt_loop_never_ends:
  assumes "\<And>x. length (stack x) = 256" "small_run (to_config a)" "a_to a = - 1"
  shows "hunt_loop stack a seed h io s = None"
proof -
  have never: "hunt_loop st b sd h io s = Some y \<Longrightarrow> st = stack \<Longrightarrow> b = a \<Longrightarrow> False" for st b sd h io and s :: "'z tl" and y
  proof (induct rule: hunt_loop.raw_induct [rotated, consumes 1, case_names step])
    case (step f st b sd h io s y)
    obtain r s1 where "hunt_run stack a sd s = Some (r, s1)" "rr_writer_ok r"
      by (rule hunt_run_small [OF assms(1,2)])
    moreover have "sd \<le> a_to a" by (simp add: assms(3))
    ultimately have "f stack a (sd + 1) (fst (tally (sd, r) (h, io))) (snd (tally (sd, r) (h, io))) s1 = Some y"
      using step(2-) by (simp add: tally_def hunt_run_def split: prod.splits)
    from step(1) [OF this] show False by simp
  qed
  show ?thesis
    by (cases "hunt_loop stack a seed h io s") (use never [OF _ refl refl] in blast)+
qed

text \<open>The capacities a sizing run goes through.\<close>

definition ring_sizes :: "u32 list" where
  "ring_sizes = [128, 256, 512, 1024, 2048, 4096, 8192, 16384, 32768, 65536]"

fun doubling :: "u32 \<Rightarrow> u32 list \<Rightarrow> bool" where
  "doubling c [] \<longleftrightarrow> \<not> c \<le> 65536"
| "doubling c (d # ds) \<longleftrightarrow> c = d \<and> c \<le> 65536 \<and> doubling (c * 2) ds"

lemma ring_sizes_double: "doubling 128 ring_sizes" "\<forall>c \<in> set ring_sizes. ring_fits c" "\<forall>c \<in> set ring_sizes. c \<noteq> 0"
  by code_simp+

definition sizing_run :: "cli_args \<Rightarrow> u32 \<Rightarrow> 'z tl \<Rightarrow> (buffered_result \<times> 'z tl) option" where
  "sizing_run a capacity s = record_buffered tl_captures (sizing_config a capacity) s"

definition smaller :: "u32 \<times> buffered_result \<Rightarrow> u32 \<Rightarrow> u32" where
  "smaller run c = (if br_healthy (snd run) \<and> c = 0 then fst run else c)"

definition sizing_rows :: "(u32 \<times> buffered_result) list \<Rightarrow> printed list" where
  "sizing_rows runs = map (\<lambda>run. Text (sizing_row (fst run) (snd run))) runs"

lemma sizing_run_began:
  assumes "ring_fits c"
  shows "\<exists>r s'. sizing_run a c s = Some (r, s') \<and> br_began r"
proof -
  have "ring_fits (bc_ring_capacity (sizing_config a c))" using assms by (simp add: sizing_config_def)
  then show ?thesis
    by (rule record_buffered_outcome [of _ tl_captures s]) (auto simp: buffered_run_def sizing_run_def)
qed

lemma prints_prints [simp]: "prints us (prints ts io) = prints (ts @ us) io" "prints [] io = io"
  by (simp_all add: prints_def)

lemma sizing_loop_batch:
  assumes "doubling c cs" "batch (sizing_run a) cs s = Some (runs, s')" "\<forall>run \<in> set runs. br_began (snd run)"
  shows "sizing_loop a c m io s = Some (Some (fold smaller runs m), prints (sizing_rows runs) io, s')"
  using assms
proof (induction cs arbitrary: c m io s runs)
  case Nil
  then show ?case by (subst sizing_loop.simps) (simp add: sizing_rows_def)
next
  case (Cons d ds)
  obtain r s1 rs where r: "sizing_run a d s = Some (r, s1)" "batch (sizing_run a) ds s1 = Some (rs, s')" "runs = (d, r) # rs"
    using Cons.prems(2) by (auto simp: bind_Some_iff)
  have d: "doubling (c * 2) ds" "\<forall>run \<in> set rs. br_began (snd run)" using Cons.prems(1,3) r(3) by auto
  have "sizing_loop a (c * 2) (smaller (d, r) m) (prints [Text (sizing_row d r)] io) s1 =
      Some (Some (fold smaller rs (smaller (d, r) m)), prints (sizing_rows rs) (prints [Text (sizing_row d r)] io), s')"
    using Cons.IH [OF d(1) r(2) d(2)] .
  moreover have "sizing_loop a c m io s = sizing_loop a (c * 2) (smaller (d, r) m) (prints [Text (sizing_row d r)] io) s1"
    using Cons.prems(1,3) r(1,3) by (subst (1) sizing_loop.simps) (auto simp: sizing_run_def smaller_def say_def)
  ultimately show ?case using r(3) by (simp add: sizing_rows_def)
qed

lemma sizing_batch:
  obtains runs s' where "batch (sizing_run a) ring_sizes s = Some (runs, s')" "map fst runs = ring_sizes"
    "\<forall>run \<in> set runs. br_began (snd run)"
  using batch_all [where f = "sizing_run a" and xs = ring_sizes and P = "\<lambda>_ r. br_began r" and s = s]
    sizing_run_began ring_sizes_double(2) by blast

lemma fold_smaller:
  "\<forall>run \<in> set runs. fst run \<noteq> 0 \<Longrightarrow> fold smaller runs m =
     (if m \<noteq> 0 then m else case List.find (\<lambda>run. br_healthy (snd run)) runs of None \<Rightarrow> 0 | Some run \<Rightarrow> fst run)"
  by (induction runs arbitrary: m) (auto simp: smaller_def)

text \<open>The dump shows what the reader delivers, up to the limit.\<close>

definition shown_of :: "u32 \<Rightarrow> u32 \<Rightarrow> event list \<Rightarrow> event list" where
  "shown_of limit shown es = (if limit = 0 then es else take (unat limit - unat shown) es)"

definition dump_rows :: "event list \<Rightarrow> printed list" where
  "dump_rows es = map (\<lambda>e. Text (dump_row e)) es"

lemma tr_next_out: "tr_next (Some e) tr = Some (got, out, tr') \<Longrightarrow> \<exists>e'. out = Some e'"
  by (auto simp: tr_next_def bind_Some_iff split: if_splits)

lemma dump_loop_reads:
  assumes "tr_read_all e tr acc = Some y"
  shows "limit = 0 \<or> shown \<le> limit \<Longrightarrow> \<exists>new. fst y = acc @ new \<and> dump_loop limit e tr shown n io =
    Some (snd y, shown + of_nat (length (shown_of limit shown new)), n + of_nat (length new),
      prints (dump_rows (shown_of limit shown new)) io)"
  using assms
proof (induct arbitrary: shown n io rule: tr_read_all.raw_induct [rotated, consumes 1, case_names step])
  case (step f e tr acc y)
  obtain got out tr1 where n: "tr_next (Some e) tr = Some (got, out, tr1)" "if got then f (the out) tr1 (acc @ [the out]) = Some y
      else y = (acc, tr1)"
    using step(2) by (auto simp: bind_Some_iff split: if_splits)
  show ?case
  proof (cases got)
    case False
    then show ?thesis using n by (subst dump_loop.simps) (simp add: shown_of_def dump_rows_def)
  next
    case True
    obtain e1 where e1: "out = Some e1" using tr_next_out [OF n(1)] by blast
    have run: "f e1 tr1 (acc @ [e1]) = Some y" using n(2) True e1 by simp
    show ?thesis
    proof (cases "limit \<noteq> 0 \<and> shown \<ge> limit")
      case stop: True
      then obtain new where "fst y = (acc @ [e1]) @ new" "dump_loop limit e1 tr1 shown (n + 1) io =
          Some (snd y, shown + of_nat (length (shown_of limit shown new)), n + 1 + of_nat (length new),
            prints (dump_rows (shown_of limit shown new)) io)"
        using step(1) [OF run, of shown "n + 1" io] step(3) by auto
      then show ?thesis using n(1) True e1 stop
        by (subst dump_loop.simps) (simp add: shown_of_def dump_rows_def word_le_nat_alt add.assoc)
    next
      case False
      then have fit: "limit = 0 \<or> unat shown < unat limit" "limit = 0 \<or> unat (shown + 1) = unat shown + 1"
        using step(3) unat_u32_lt [of limit] by (auto simp: word_le_nat_alt unat_word_ariths)
      then have "limit = 0 \<or> shown + 1 \<le> limit" by (auto simp: word_le_nat_alt)
      then obtain new where "fst y = (acc @ [e1]) @ new" "dump_loop limit e1 tr1 (shown + 1) (n + 1) (say (dump_row e1) io) =
          Some (snd y, shown + 1 + of_nat (length (shown_of limit (shown + 1) new)), n + 1 + of_nat (length new),
            prints (dump_rows (shown_of limit (shown + 1) new)) (say (dump_row e1) io))"
        using step(1) [OF run, of "shown + 1" "n + 1" "say (dump_row e1) io"] by auto
      moreover have "shown_of limit shown (e1 # new) = e1 # shown_of limit (shown + 1) new"
        using fit by (auto simp: shown_of_def take_Cons' Suc_diff_Suc)
      ultimately show ?thesis using n(1) True e1 False
        by (subst dump_loop.simps) (auto simp: dump_rows_def say_def add.assoc)
    qed
  qed
qed

section \<open>Searching and walking\<close>

lemma tl_bisect_ends:
  assumes "indexed s" "0 < tl_main_iters (the_timeline s)"
  shows "same_run s t \<Longrightarrow> \<exists>k t'. tl_bisect pred lo hi probe t = Some (True, k, t') \<and> same_run s t'"
proof (induction "hi - lo" arbitrary: lo hi probe t rule: less_induct)
  case less
  show ?case
  proof (cases "lo < hi")
    case False
    then show ?thesis using less.prems by (subst tl_bisect.simps) simp
  next
    case True
    let ?mid = "lo + (hi - lo) div 2"
    have "same_run s (count_seek t)" using less.prems by simp
    then obtain t1 where t1: "tl_seek ?mid (Some probe) (count_seek t) = Some (True, Some (seen s ?mid), t1)" "same_run s t1"
      by (rule tl_seek_seen [OF assms])
    have "?mid - lo < hi - lo" "hi - (?mid + 1) < hi - lo" using True by auto
    then show ?thesis
      using True t1 less.hyps [of ?mid lo t1 "seen s ?mid"] less.hyps [of hi "?mid + 1" t1 "seen s ?mid"]
      by (subst tl_bisect.simps) (simp add: Let_def)
  qed
qed

lemma same_run_seeks [simp]: "same_run s (tl_upd (\<lambda>T. T\<lparr>tl_last_search_seeks := n\<rparr>) t) = same_run s t"
  by (simp add: same_run_def tl_index_def)

lemma tl_find_first_ends:
  assumes "indexed s" "0 < tl_main_iters (the_timeline s)"
  shows "\<exists>found snap t. tl_find_first (Some pred) (Some b) s = Some (found, Some snap, t) \<and> same_run s t \<and>
    tl_position (the_timeline t) \<le> tl_event_count (the_timeline s)"
proof -
  let ?N = "tl_event_count (the_timeline s)"
  define u where "u = tl_upd (\<lambda>T. T\<lparr>tl_last_search_seeks := 0\<rparr>) s"
  have u: "same_run s (count_seek u)" "tl_event_count (the_timeline u) = ?N" "tl_opened (the_timeline s)"
    using assms(1) by (simp_all add: u_def indexed_def Let_def)
  obtain t1 where t1: "tl_seek ?N (Some sn_new) (count_seek u) = Some (True, Some (seen s ?N), t1)" "same_run s t1"
      "tl_position (the_timeline t1) = min ?N (tl_event_count (the_timeline (count_seek u)))"
    by (rule tl_seek_seen [OF assms u(1)])
  have N1: "tl_event_count (the_timeline t1) = ?N" using t1(2) by (simp add: same_run_def tl_index_def)
  obtain k t2 where t2: "tl_bisect pred 0 ?N (seen s ?N) t1 = Some (True, k, t2)" "same_run s t2"
    using tl_bisect_ends [OF assms t1(2)] by blast
  have "same_run s (count_seek t2)" using t2(2) by simp
  then obtain t3 where t3: "tl_seek k (Some b) (count_seek t2) = Some (True, Some (seen s k), t3)" "same_run s t3"
      "tl_position (the_timeline t3) = min k (tl_event_count (the_timeline (count_seek t2)))"
    by (rule tl_seek_seen [OF assms])
  have "tl_event_count (the_timeline (count_seek u)) = ?N" "tl_event_count (the_timeline (count_seek t2)) = ?N"
    using u(1) t2(2) by (simp_all add: same_run_def tl_index_def count_seek_def)
  then have "tl_position (the_timeline t1) \<le> ?N" "tl_position (the_timeline t3) \<le> ?N" using t1(3) t3(3) by simp_all
  then show ?thesis
    using t1(1,2) t2(1) t3(1,2) u(2,3) N1 by (auto simp: tl_find_first_def u_def [symmetric])
qed

text \<open>A timeline opened for no iterations has no checkpoint, and refuses every seek.\<close>

lemma unindexed_seek:
  assumes "indexed s" "tl_main_iters (the_timeline s) = 0"
  shows "\<exists>t. tl_seek k (Some b) s = Some (False, Some b, t)"
proof -
  have "tl_checkpoints (the_timeline s) = []"
    using assms by (cases "tl_checkpoints (the_timeline s)") (auto simp: indexed_def Let_def boundary_def)
  then show ?thesis using assms(1) by (simp add: tl_seek_def Let_def tl_nearest_def indexed_def)
qed

lemma indexed_seeks: "indexed (count_seek (tl_upd (\<lambda>T. T\<lparr>tl_last_search_seeks := n\<rparr>) s)) = indexed s"
proof -
  have "same_run s (count_seek (tl_upd (\<lambda>T. T\<lparr>tl_last_search_seeks := n\<rparr>) s))" by simp
  then show ?thesis using indexed_run same_run_sym by blast
qed

lemma unindexed_find_first:
  assumes "indexed s" "tl_main_iters (the_timeline s) = 0"
  shows "\<exists>t. tl_find_first (Some pred) (Some b) s = Some (False, Some b, t)"
proof -
  let ?u = "count_seek (tl_upd (\<lambda>T. T\<lparr>tl_last_search_seeks := 0\<rparr>) s)"
  have "tl_main_iters (the_timeline ?u) = 0" using assms(2) by (simp add: count_seek_def)
  then obtain t where "tl_seek (tl_event_count (the_timeline s)) (Some sn_new) ?u = Some (False, Some sn_new, t)"
    using unindexed_seek [of ?u] indexed_seeks assms(1) by blast
  then show ?thesis using assms(1) by (simp add: tl_find_first_def indexed_def Let_def)
qed

lemma inspect_start_ends:
  assumes "indexed s"
  shows "\<exists>start io' t. inspect_start a io s = Some (start, io', t) \<and>
    (start \<noteq> None \<longrightarrow> 0 < tl_main_iters (the_timeline s) \<and> same_run s t \<and>
      tl_position (the_timeline t) \<le> tl_event_count (the_timeline s))"
proof (cases "tl_main_iters (the_timeline s) = 0")
  case True
  obtain t1 t2 where "tl_find_first (Some (consumed_at_least (a_find a))) (Some sn_new) s = Some (False, Some sn_new, t1)"
    "tl_seek (if a_has_at a then unat (a_at a) else tl_event_count (the_timeline s)) (Some sn_new) s = Some (False, Some sn_new, t2)"
    using unindexed_find_first [OF assms True] unindexed_seek [OF assms True] by blast
  then show ?thesis by (cases "a_has_find a") (simp_all add: inspect_start_def)
next
  case False
  then have pos: "0 < tl_main_iters (the_timeline s)" by (simp add: word_greater_zero_iff)
  obtain found snap t1 where "tl_find_first (Some (consumed_at_least (a_find a))) (Some sn_new) s = Some (found, Some snap, t1)"
    "same_run s t1" "tl_position (the_timeline t1) \<le> tl_event_count (the_timeline s)"
    using tl_find_first_ends [OF assms pos] by blast
  moreover obtain t2 where "tl_seek (if a_has_at a then unat (a_at a) else tl_event_count (the_timeline s)) (Some sn_new) s =
      Some (True, Some (seen s (if a_has_at a then unat (a_at a) else tl_event_count (the_timeline s))), t2)" "same_run s t2"
      "tl_position (the_timeline t2) = min (if a_has_at a then unat (a_at a) else tl_event_count (the_timeline s))
        (tl_event_count (the_timeline s))"
    by (rule tl_seek_seen [OF assms pos same_run_refl])
  ultimately show ?thesis using pos
    by (cases "a_has_find a"; cases found) (simp_all add: inspect_start_def)
qed

text \<open>Where a walk back stops, from a position: one more row at each.\<close>

fun walk_back :: "nat \<Rightarrow> nat \<Rightarrow> nat \<Rightarrow> nat list" where
  "walk_back 0 stride pos = []"
| "walk_back (Suc n) stride pos = (if pos = 0 then [] else (pos - stride) # walk_back n stride (pos - stride))"

lemma inspect_walk_rows:
  assumes "indexed s" "0 < tl_main_iters (the_timeline s)"
  shows "same_run s t \<Longrightarrow> tl_position (the_timeline t) \<le> tl_event_count (the_timeline s) \<Longrightarrow>
    \<exists>t'. inspect_walk n stride snap io t = Some (True,
      prints (map (\<lambda>k. Text (snapshot_row (seen s k))) (walk_back n (unat stride) (tl_position (the_timeline t)))) io, t')"
proof (induction n arbitrary: snap io t)
  case (Suc n)
  let ?p = "tl_position (the_timeline t)" and ?k = "tl_position (the_timeline t) - unat stride"
  show ?case
  proof (cases "?p = 0")
    case False
    have "tl_event_count (the_timeline t) = tl_event_count (the_timeline s)"
      using Suc.prems(1) by (simp add: same_run_def tl_index_def)
    moreover obtain t1 where t1: "tl_seek ?k (Some snap) t = Some (True, Some (seen s ?k), t1)" "same_run s t1"
      and at: "tl_position (the_timeline t1) = min ?k (tl_event_count (the_timeline t))"
      by (rule tl_seek_seen [OF assms Suc.prems(1), of ?k snap])
    ultimately have at: "tl_position (the_timeline t1) = ?k" using Suc.prems(2) by simp
    have "?k \<le> tl_event_count (the_timeline s)" using Suc.prems(2) by simp
    from Suc.IH [OF t1(2), unfolded at, OF this, of "seen s ?k" "say (snapshot_row (seen s ?k)) io"]
    obtain t' where "inspect_walk n stride (seen s ?k) (say (snapshot_row (seen s ?k)) io) t1 = Some (True,
        prints (map (\<lambda>k. Text (snapshot_row (seen s k))) (walk_back n (unat stride) ?k)) (say (snapshot_row (seen s ?k)) io), t')"
      by blast
    moreover have "tl_step_back (unat stride) (Some snap) t = tl_seek ?k (Some snap) t"
      by (simp add: tl_step_back_def)
    ultimately show ?thesis using t1(1) False by (simp add: say_def)
  qed simp
qed simp

text \<open>Every command ends, the hunt for the largest number excepted.\<close>

lemma cmd_hunt_ends: "(\<And>x. length (stack x) = 256) \<Longrightarrow> a_to a \<noteq> - 1 \<Longrightarrow> cmd_hunt stack a io s \<noteq> None"
  using hunt_loop_ends [of stack a "a_from a" hunt_new io s]
  by (auto simp: cmd_hunt_def split_beta split: option.split)

lemma cmd_record_ends: "(\<And>x. length (stack x) = 256) \<Longrightarrow> cmd_record stack a io s \<noteq> None"
  using record_run_total [where block = "stack (a_seed a)" and cfg = "to_config a" and caps = tl_captures and s = s]
  by (auto simp: cmd_record_def Let_def split_beta)

lemma cmd_replay_ends: "cmd_replay a io s \<noteq> None"
proof -
  have "replay_trace a trace io s \<noteq> None" for trace io
    using replay_run_any [of tl_captures trace "a_iters a" s s] by (auto simp: replay_trace_def Let_def)
  then show ?thesis by (simp add: cmd_replay_def split: option.split prod.split)
qed

lemma cmd_sizing_ends: "cmd_sizing a io s \<noteq> None"
proof -
  obtain runs s' where b: "batch (sizing_run a) ring_sizes s = Some (runs, s')" "\<forall>run \<in> set runs. br_began (snd run)"
    by (rule sizing_batch)
  show ?thesis by (simp add: cmd_sizing_def Let_def sizing_loop_batch [OF ring_sizes_double(1) b])
qed

lemma open_any:
  obtains opened s' where "tl_open trace n every s = Some (opened, s')" "opened \<Longrightarrow> indexed s' \<and> tl_main_iters (the_timeline s') = n"
proof -
  obtain ok rp where load: "rp_load trace (the_replay s) = Some (ok, rp)"
    using rp_load_total [of trace "the_replay s"] by blast
  show thesis
  proof (cases "ok \<and> variant_for_build_id (h_build_id (rp_header rp)) \<noteq> None")
    case True
    then obtain v where v: "ok" "variant_for_build_id (h_build_id (rp_header rp)) = Some v" by blast
    obtain r where "open_passes (unat n) 0 (pass_start (open_start v n every rp s)) = Some r"
      using open_passes_opened by blast
    then have "tl_open trace n every s = Some (True, open_end r)" using tl_open_loaded [OF _ v(2)] load v(1) by simp
    then show thesis using that tl_open_indexed by blast
  next
    case False
    then have "\<exists>s'. tl_open trace n every s = Some (False, s')"
      using load by (cases ok) (auto simp: tl_open_def Let_def)
    then show thesis using that by blast
  qed
qed

lemma cmd_inspect_ends: "cmd_inspect a io s \<noteq> None"
proof -
  have opened: "inspect_opened a io t \<noteq> None" if ix: "indexed t" for io and t :: "'z tl"
  proof -
    let ?io = "say (fmt_dec (tl_event_count (the_timeline t)) @ '' events, '' @
      fmt_dec (length (tl_checkpoints (the_timeline t))) @ '' checkpoints'' @ nl @ nl) io"
    let ?stride = "if a_stride a \<noteq> 0 then a_stride a else 1"
    obtain start io' t' where 1: "inspect_start a ?io t = Some (start, io', t')"
      "start \<noteq> None \<longrightarrow> 0 < tl_main_iters (the_timeline t) \<and> same_run t t' \<and>
        tl_position (the_timeline t') \<le> tl_event_count (the_timeline t)"
      using inspect_start_ends [OF ix] by blast
    show ?thesis
    proof (cases start)
      case None
      then show ?thesis using 1(1) by (simp add: inspect_opened_def Let_def)
    next
      case (Some snap)
      then obtain t2 where "inspect_walk (unat (a_walk a)) ?stride snap (say (snapshot_row snap) (say snapshot_header io')) t' =
          Some (True, prints (map (\<lambda>k. Text (snapshot_row (seen t k)))
            (walk_back (unat (a_walk a)) (unat ?stride) (tl_position (the_timeline t'))))
            (say (snapshot_row snap) (say snapshot_header io')), t2)"
        using inspect_walk_rows [OF ix] 1(2) by blast
      then show ?thesis using 1(1) Some by (simp add: inspect_opened_def Let_def)
    qed
  qed
  have "inspect_trace a trace io s \<noteq> None" for trace io
    by (rule open_any [of trace "a_iters a" "a_ckpt a" "s\<lparr>the_replay := rp_new, the_timeline := tl_new\<rparr>"])
      (use opened in \<open>auto simp: inspect_trace_def Let_def simp del: not_None_eq\<close>)
  then show ?thesis by (simp add: cmd_inspect_def split: option.split prod.split)
qed

text \<open>The dump of any bytes: what the reader makes of them, and the exit code that follows.\<close>

lemma dump_bytes_reads:
  obtains opened tr es tr' where "tr_open (Some d) (of_nat (length d)) tr_new = Some (opened, tr)"
    "tr_read_all ev tr [] = Some (es, tr')"
    "dump_bytes ev a d io = (let title = prints (dump_title (tr_hdr tr) (length d)) io;
        rows = prints (dump_rows (shown_of (a_limit a) 0 es)) title;
        shown = of_nat (length (shown_of (a_limit a) 0 es)); n = of_nat (length es) in
      if \<not> opened then Some (1, complain (''rewind: '' @ tr_error tr) io)
      else if \<not> tr_ok tr' then Some (1, complain (nl @ ''rewind: '' @ tr_error tr') rows)
      else Some (0, say (nl @ dec (n :: u32) @ '' events'' @ nl)
        (if a_limit a \<noteq> 0 \<and> n > shown
         then say (nl @ ''... '' @ dec (n - shown) @ '' more events (raise --limit to see them)'' @ nl) rows
         else rows)))"
proof -
  have "unat (of_nat (length d) :: u32) \<le> length d" by (simp add: unat_of_nat)
  then obtain opened tr where o: "tr_open (Some d) (of_nat (length d)) tr_new = Some (opened, tr)" "tr_inv tr"
    using tr_open_inv by blast
  obtain es tr' where r: "tr_read_all ev tr [] = Some (es, tr')"
    using tr_read_all_total [OF o(2), of "[]" ev] by auto
  have "dump_loop (a_limit a) ev tr 0 0 io' = Some (tr', of_nat (length (shown_of (a_limit a) 0 es)), of_nat (length es),
      prints (dump_rows (shown_of (a_limit a) 0 es)) io')" for io'
    using dump_loop_reads [OF r, of "a_limit a" 0 0 io'] by simp
  then show thesis
    using that [OF o(1) r] o(1) by (simp add: dump_bytes_def Let_def)
qed

lemma cmd_dump_ends: "cmd_dump ev a io \<noteq> None"
proof -
  have "dump_bytes ev a d io \<noteq> None" for d io
    by (rule dump_bytes_reads [of d ev a io]) (simp add: Let_def)
  then show ?thesis by (simp add: cmd_dump_def split: option.split prod.split)
qed

lemma largest_u64: "(18446744073709551615 :: u64) = - 1"
  by code_simp

section \<open>The dispatch\<close>

lemma dispatch_simps [simp]:
  "dispatch blocks ev ''hunt'' a io s = cmd_hunt blocks a io s"
  "dispatch blocks ev ''record'' a io s = cmd_record blocks a io s"
  "dispatch blocks ev ''replay'' a io s = cmd_replay a io s"
  "dispatch blocks ev ''dump'' a io s = map_option (\<lambda>(code, io). (code, io, s)) (cmd_dump ev a io)"
  "dispatch blocks ev ''sizing'' a io s = cmd_sizing a io s"
  "dispatch blocks ev ''inspect'' a io s = cmd_inspect a io s"
  by (simp_all add: dispatch_def)

lemma dispatch_unknown:
  "command \<notin> {''hunt'', ''record'', ''replay'', ''dump'', ''sizing'', ''inspect''} \<Longrightarrow>
     dispatch blocks ev command a io s = Some (2, usage (complain (''rewind: unknown command '' @ quoted command) io), s)"
  by (simp add: dispatch_def)

lemma command_cases:
  obtains "command = ''hunt''" | "command = ''record''" | "command = ''replay''" | "command = ''dump''"
    | "command = ''sizing''" | "command = ''inspect''"
    | "command \<notin> {''hunt'', ''record'', ''replay'', ''dump'', ''sizing'', ''inspect''}"
proof (cases "command \<in> {''hunt'', ''record'', ''replay'', ''dump'', ''sizing'', ''inspect''}")
  case True
  then show thesis by (elim insertE emptyE) (rule that(1-6), assumption)+
qed (rule that(7))

text \<open>A command whose arguments were understood but do not make sense for it.\<close>

definition senseless :: "string \<Rightarrow> cli_args \<Rightarrow> bool" where
  "senseless command a \<longleftrightarrow> command \<notin> {''hunt'', ''record'', ''replay'', ''dump'', ''sizing'', ''inspect''} \<or>
     command = ''hunt'' \<and> a_to a < a_from a \<or> command = ''record'' \<and> a_out a = '''' \<or>
     command \<in> {''replay'', ''dump'', ''inspect''} \<and> a_file a = ''''"

lemma dispatch_code:
  assumes "dispatch blocks ev command a io s = Some (code, io', s')"
  shows "if senseless command a then code = 2 \<and> s' = s \<and> io_files io' = io_files io \<and> io_out io' = io_out io else code \<le> 1"
proof (cases command rule: command_cases)
  case 1
  then show ?thesis using assms cmd_hunt_code [of blocks a io s code io' s'] by (simp add: senseless_def split: if_splits)
next
  case 2
  then show ?thesis using assms cmd_record_code [of blocks a io s code io' s'] by (simp add: senseless_def split: if_splits)
next
  case 3
  then show ?thesis using assms cmd_replay_code [of a io s code io' s'] by (simp add: senseless_def split: if_splits)
next
  case 4
  then show ?thesis using assms cmd_dump_code [of ev a io code io'] by (auto simp: senseless_def split: if_splits)
next
  case 5
  then show ?thesis using assms cmd_sizing_code [of a io s code io' s'] by (simp add: senseless_def)
next
  case 6
  then show ?thesis using assms cmd_inspect_code [of a io s code io' s'] by (simp add: senseless_def split: if_splits)
next
  case 7
  then show ?thesis using assms by (auto simp: dispatch_unknown senseless_def)
qed

lemma dispatch_ends:
  assumes "\<And>seed. length (blocks seed) = 256" "command = ''hunt'' \<Longrightarrow> a_to a \<noteq> - 1"
  shows "dispatch blocks ev command a io s \<noteq> None"
proof (cases command rule: command_cases)
  case 1
  then show ?thesis using assms(2) cmd_hunt_ends [where stack = blocks, OF assms(1), of a io s] by simp
next
  case 2
  then show ?thesis using cmd_record_ends [where stack = blocks, OF assms(1), of a io s] by simp
next
  case 3
  then show ?thesis using cmd_replay_ends [of a io s] by simp
next
  case 4
  then show ?thesis using cmd_dump_ends [of ev a io] by simp
next
  case 5
  then show ?thesis using cmd_sizing_ends [of a io s] by simp
next
  case 6
  then show ?thesis using cmd_inspect_ends [of a io s] by simp
next
  case 7
  then show ?thesis by (simp add: dispatch_unknown)
qed

text \<open>A command line that is refused before anything runs.\<close>

definition misused :: "string list \<Rightarrow> bool" where
  "misused argv = (case argv of
     [] \<Rightarrow> True
   | command # words \<Rightarrow> command \<notin> {''-h'', ''--help'', ''help''} \<and>
       (a_bad (fst (parse_args words)) \<or> senseless command (fst (parse_args words))))"

section \<open>Properties\<close>

text \<open>
  C32. What the exit code says. It is 0, 1 or 2, and it is 2 exactly for a command line the
  program refuses: no or an unknown command, an argument it does not take, a range of seeds
  the wrong way round, or a missing file name. Then nothing has run, nothing has been written,
  and the user has been told why.
\<close>

theorem exit_code_2_is_misuse:
  assumes "rewind_main blocks ev argv io s = Some (code, io', s')"
  shows "code \<le> 2 \<and> (code = 2 \<longleftrightarrow> misused argv) \<and>
    (code = 2 \<longrightarrow> s' = s \<and> io_files io' = io_files io \<and> io_out io' = io_out io)"
proof (cases argv)
  case Nil
  then show ?thesis using assms by (auto simp: rewind_main_def misused_def)
next
  case (Cons command words)
  obtain a said where p: "parse_args words = (a, said)" by (cases "parse_args words")
  consider "command \<in> {''-h'', ''--help'', ''help''}" | "command \<notin> {''-h'', ''--help'', ''help''}" "a_bad a"
    | "command \<notin> {''-h'', ''--help'', ''help''}" "\<not> a_bad a" by blast
  then show ?thesis
  proof cases
    case 3
    then have "dispatch blocks ev command a (io\<lparr>io_err := io_err io @ said\<rparr>) s = Some (code, io', s')"
      using assms Cons p by (simp add: rewind_main_def)
    from dispatch_code [OF this] show ?thesis using 3 Cons p by (auto simp: misused_def split: if_splits)
  qed (use assms Cons p in \<open>auto simp: rewind_main_def misused_def\<close>)
qed

text \<open>
  C31. Every command ends. Whatever the arguments, the files and the static state are, the
  program comes to its exit code without undefined behaviour on the way; only a hunt up to
  the largest 64-bit number may not.
\<close>

theorem main_ends:
  assumes "\<And>seed. length (blocks seed) = 256"
    and "hd argv = ''hunt'' \<longrightarrow> a_to (fst (parse_args (tl argv))) \<noteq> 2 ^ 64 - 1"
  shows "\<exists>code io' s'. rewind_main blocks ev argv io s = Some (code, io', s')"
proof (cases argv)
  case (Cons command words)
  obtain a said where p: "parse_args words = (a, said)" by (cases "parse_args words")
  have "command = ''hunt'' \<Longrightarrow> a_to a \<noteq> - 1" using assms(2) Cons p by (simp add: largest_u64)
  from dispatch_ends [where blocks = blocks and command = command and a = a, OF assms(1) this]
  have "dispatch blocks ev command a (io\<lparr>io_err := io_err io @ said\<rparr>) s \<noteq> None" by blast
  then have "rewind_main blocks ev argv io s \<noteq> None"
    using Cons p by (simp add: rewind_main_def Let_def)
  then show ?thesis by auto
qed (simp add: rewind_main_def)

text \<open>
  C35. A hunt up to the largest 64-bit number never ends: after it the seed wraps to zero and
  the hunt starts again.
\<close>

theorem hunt_to_largest_never_ends:
  assumes "\<And>seed. length (blocks seed) = 256" "parse_args words = (a, said)" "\<not> a_bad a"
    and "a_to a = 2 ^ 64 - 1" "small_run (to_config a)"
  shows "rewind_main blocks ev (''hunt'' # words) io s = None"
proof -
  have "a_to a = - 1" using assms(4) by simp
  moreover from this have "\<not> a_to a < a_from a" by (simp add: word_not_simps)
  ultimately show ?thesis
    using assms(2,3) by (simp add: rewind_main_def cmd_hunt_def hunt_loop_never_ends [where stack = blocks, OF assms(1,5)])
qed

section \<open>The properties on concrete command lines\<close>

text \<open>A disk with room on it, and an event's worth of stack.\<close>

definition demo_io :: cli_io where
  "demo_io = \<lparr>io_files = Map.empty, io_read_error = \<lambda>_. False, io_store = \<lambda>_ bytes. Some (length bytes, bytes),
     io_out = [], io_err = []\<rparr>"

definition demo_event :: event where
  "demo_event = \<lparr>ev_type = 0, ev_ts = 0, ev_addr = 0, ev_value = 0\<rparr>"

definition demo_blocks :: "u64 \<Rightarrow> bytes" where
  "demo_blocks = (\<lambda>_. replicate 256 0)"

lemma length_demo_blocks: "length (demo_blocks seed) = 256"
  by (simp add: demo_blocks_def)

theorem exit_code_2_is_misuse_witness:
  "\<forall>s :: unit tl. rewind_main demo_blocks demo_event [] demo_io s = Some (2, usage demo_io, s) \<and> misused []"
proof
  fix s :: "unit tl"
  have "rewind_main demo_blocks demo_event [] demo_io s = Some (2, usage demo_io, s)" by (simp add: rewind_main_def)
  from this exit_code_2_is_misuse [OF this] show "rewind_main demo_blocks demo_event [] demo_io s = Some (2, usage demo_io, s) \<and> misused []"
    by simp
qed

theorem main_ends_witness:
  "\<forall>s :: unit tl. \<exists>code io' s'.
     rewind_main demo_blocks demo_event [''hunt'', ''--to'', ''20''] demo_io s = Some (code, io', s')"
proof
  fix s :: "unit tl"
  have "strtoull ''20'' = 20" by (simp add: strtoull_def is_space_def is_digit_def)
  then have "hd [''hunt'', ''--to'', ''20''] = ''hunt'' \<longrightarrow> a_to (fst (parse_args (tl [''hunt'', ''--to'', ''20'']))) \<noteq> 2 ^ 64 - 1"
    by (simp add: parse_args_def parse_option)
  from main_ends [where blocks = demo_blocks, OF length_demo_blocks this, of demo_event demo_io s]
  show "\<exists>code io' s'. rewind_main demo_blocks demo_event [''hunt'', ''--to'', ''20''] demo_io s = Some (code, io', s')" .
qed

theorem hunt_to_largest_never_ends_witness:
  "\<forall>s :: unit tl. rewind_main demo_blocks demo_event [''hunt'', ''--to'', ''18446744073709551615''] demo_io s = None"
proof
  fix s :: "unit tl"
  let ?a = "default_args\<lparr>a_to := 18446744073709551615\<rparr>"
  have "strtoull ''18446744073709551615'' = 18446744073709551615" by (simp add: strtoull_def is_space_def is_digit_def)
  then have p: "parse_args [''--to'', ''18446744073709551615''] = (?a, [])"
    by (simp add: parse_args_def parse_option)
  have a: "\<not> a_bad ?a" "a_to ?a = 2 ^ 64 - 1" "small_run (to_config ?a)"
    by (simp_all add: default_args_def to_config_def small_run_def)
  show "rewind_main demo_blocks demo_event [''hunt'', ''--to'', ''18446744073709551615''] demo_io s = None"
    by (rule hunt_to_largest_never_ends [where blocks = demo_blocks, OF length_demo_blocks p a])
qed

end
