(* ===== verification/Cli_Properties.thy ===== *)
theory Cli_Properties
  imports Cli_Exit Timeline_Example
begin

text \<open>
  What the commands do: a recorded file replays, a dump prints what replays, a hunt counts the
  failing seeds and keeps the first, a sizing run names the smallest ring that lost nothing,
  and an inspection walks back through the run.
\<close>

section \<open>Dump\<close>

text \<open>The event the caller's pointer designates does not matter: it is overwritten or left alone.\<close>

definition redirected :: "event \<Rightarrow> (bool \<times> event \<times> trace_reader) option \<Rightarrow> (bool \<times> event \<times> trace_reader) option" where
  "redirected f = map_option (\<lambda>(got, e, tr). (got, if got then e else f, tr))"

lemma redirected_simps:
  "redirected f (Some (got, e, tr)) = Some (got, if got then e else f, tr)"
  "redirected f (Option.bind m k) = Option.bind m (\<lambda>x. redirected f (k x))"
  "redirected f (if b then x else y) = (if b then redirected f x else redirected f y)"
  "redirected f (case_option x1 k1 v1) = case_option (redirected f x1) (\<lambda>x. redirected f (k1 x)) v1"
  "redirected f (case_sum k2 k3 v2) = case_sum (\<lambda>x. redirected f (k2 x)) (\<lambda>x. redirected f (k3 x)) v2"
  "redirected f (case_prod k4 v4) = (case v4 of (x, y) \<Rightarrow> redirected f (k4 x y))"
  by (simp_all add: redirected_def map_option_case split: option.splits sum.splits prod.splits bind_splits)

lemma tr_decode_event_out: "tr_decode_event f tr = redirected f (tr_decode_event e tr)"
  by (simp add: tr_decode_event_def Let_def redirected_simps cong: option.case_cong prod.case_cong sum.case_cong if_cong)

lemma tr_next_out2:
  assumes "tr_next (Some e) tr = Some (got, out, tr')"
  shows "tr_next (Some f) tr = Some (got, if got then out else Some f, tr')"
proof (cases "tr_opened tr \<and> \<not> tr_done tr \<and> tr_err tr = None")
  case False
  then show ?thesis using assms by (auto simp: tr_next_def split: if_splits)
next
  case True
  obtain loaded tr1 where l: "(if tr_pos tr \<ge> tr_block_end tr then tr_load_next_block tr else Some (True, tr)) = Some (loaded, tr1)"
    using assms True by (auto simp: tr_next_def bind_Some_iff)
  then show ?thesis
    using assms True tr_decode_event_out [of f tr1 e]
    by (cases loaded) (auto simp: tr_next_def bind_Some_iff redirected_simps)
qed

lemma tr_read_all_out:
  assumes "tr_read_all e tr acc = Some y"
  shows "tr_read_all f tr acc = Some y"
  using assms
proof (induct arbitrary: f rule: tr_read_all.raw_induct [rotated, consumes 1, case_names step])
  case (step g e tr acc y)
  obtain got out tr1 where n: "tr_next (Some e) tr = Some (got, out, tr1)"
    "(if got then g (the out) tr1 (acc @ [the out]) else Some (acc, tr1)) = Some y"
    using step(2) by (auto simp: bind_Some_iff)
  then show ?case
    using tr_next_out2 [OF n(1), of f] step(1) [of "the out" tr1 "acc @ [the out]" y "the out"]
    by (subst tr_read_all.simps) (auto split: if_splits)
qed


section \<open>Record, then replay\<close>

lemma replay_words:
  "path \<noteq> '''' \<Longrightarrow> hd path \<noteq> CHR ''-'' \<Longrightarrow>
     parse_args [path, ''--iters'', dec n] = (default_args\<lparr>a_file := path, a_iters := n\<rparr>, [])"
  by (simp add: parse_args_def parse_file parse_option default_args_def)


section \<open>Hunt\<close>

lemma fold_tally:
  assumes "\<forall>run \<in> set runs. rr_trace (snd run) \<noteq> []"
  shows "fst (fold tally runs (h, io)) = (let failing = filter (\<lambda>run. rr_bug_triggered (snd run)) runs in
      h\<lparr>hu_runs := hu_runs h + of_nat (length runs), hu_failures := hu_failures h + of_nat (length failing),
        hu_first_failing := (if hu_first_failing h = [] \<and> failing \<noteq> [] then rr_trace (snd (hd failing)) else hu_first_failing h),
        hu_first_seed := (if hu_first_failing h = [] \<and> failing \<noteq> [] then fst (hd failing) else hu_first_seed h)\<rparr>)"
    and "io_files (snd (fold tally runs (h, io))) = io_files io" "io_store (snd (fold tally runs (h, io))) = io_store io"
    "io_err (snd (fold tally runs (h, io))) = io_err io"
  using assms
  by (induction runs arbitrary: h io) (auto simp: tally_def hunt_tally_def Let_def add.assoc)

lemma fold_tally_out: "\<exists>said. io_out (snd (fold tally runs acc)) = io_out (snd acc) @ said"
proof (induction runs arbitrary: acc)
  case (Cons run runs)
  have "\<exists>said. io_out (snd (tally run acc)) = io_out (snd acc) @ said"
    by (simp add: tally_def hunt_tally_def Let_def)
  moreover obtain said where "io_out (snd (fold tally runs (tally run acc))) = io_out (snd (tally run acc)) @ said"
    using Cons.IH by blast
  ultimately show ?case by auto
qed simp

lemma hunt_report_out:
  "hunt_report a h io = (code, io') \<Longrightarrow> \<exists>rest. io_out io' = io_out io @
     Text (nl @ dec (hu_failures h) @ '' of '' @ dec (hu_runs h) @ '' runs failed ('') #
     Per_cent (hu_failures h) (hu_runs h) # rest"
  by (auto simp: hunt_report_def Let_def write_file_def split: if_splits option.splits prod.splits)

lemma hunt_report_stores:
  "hunt_report a h io = (code, io') \<Longrightarrow>
     if hu_failures h = 0 \<or> a_save a = '''' then code = 0 \<and> io_files io' = io_files io
     else case io_store io (a_save a) (hu_first_failing h) of
       None \<Rightarrow> code = 1 \<and> io_files io' = io_files io
     | Some (n, kept) \<Rightarrow> io_files io' = (io_files io)(a_save a \<mapsto> kept) \<and>
         code = (if n = length (hu_first_failing h) then 0 else 1)"
  by (auto simp: hunt_report_def Let_def write_file_def split: if_splits option.splits)

lemma hunt_batch:
  fixes s :: "'z tl"
  assumes "\<And>seed. length (blocks seed) = 256" "small_run (to_config a)" "a_from a \<le> a_to a"
  obtains runs s' where "batch (hunt_run blocks a) (seeds (a_from a) (a_to a)) s = Some (runs, s')"
    "\<forall>run \<in> set runs. rr_trace (snd run) \<noteq> []" "length runs = unat (a_to a) - unat (a_from a) + 1"
proof -
  let ?seeds = "seeds (a_from a) (a_to a)"
  have "\<exists>r s'. hunt_run blocks a x s = Some (r, s') \<and> rr_trace r \<noteq> []" for x and s :: "'z tl"
    by (rule hunt_run_small [where stack = blocks and a = a and seed = x and s = s, OF assms(1,2)]) blast
  then obtain runs s' where b: "batch (hunt_run blocks a) ?seeds s = Some (runs, s')" "map fst runs = ?seeds"
    "\<forall>run \<in> set runs. rr_trace (snd run) \<noteq> []"
    using batch_all [where f = "hunt_run blocks a" and xs = ?seeds and P = "\<lambda>_ r. rr_trace r \<noteq> []" and s = s] by auto
  have "length runs = unat (a_to a) - unat (a_from a) + 1"
    using b(2) assms(3) by (metis length_map seeds_def length_upt add_diff_assoc2 word_le_nat_alt)
  with b show thesis by (intro that) auto
qed


section \<open>Sizing\<close>

text \<open>
  C39. What a sizing run answers. It makes one buffered recording for each of the ten powers of
  two from 128 to 65536, prints a row for each, and answers 0 and names the capacity of the
  first healthy recording; if none is healthy it answers 1.
\<close>

theorem sizing_names_smallest:
  "\<exists>runs s' code io' title verdict. batch (sizing_run a) ring_sizes s = Some (runs, s') \<and>
    cmd_sizing a io s = Some (code, io', s') \<and> map fst runs = map (\<lambda>k. 2 ^ k) [7..<17] \<and>
    io_out io' = io_out io @ title @ sizing_rows runs @ verdict \<and>
    (case List.find (\<lambda>run. br_healthy (snd run)) runs of
       None \<Rightarrow> code = 1
     | Some run \<Rightarrow> code = 0 \<and>
         hd verdict = Text (nl @ ''Smallest ring that loses nothing: '' @ dec (fst run) @ '' bytes.'' @ nl))"
proof -
  obtain runs s' where b: "batch (sizing_run a) ring_sizes s = Some (runs, s')" "map fst runs = ring_sizes"
    "\<forall>run \<in> set runs. br_began (snd run)"
    by (rule sizing_batch)
  have "\<forall>run \<in> set runs. fst run \<noteq> 0" using b(2) ring_sizes_double(3) by (metis imageI list.set_map)
  note smallest = fold_smaller [OF this, of 0]
  have found: "fst run \<noteq> 0" if "List.find (\<lambda>run. br_healthy (snd run)) runs = Some run" for run
    using that \<open>\<forall>run \<in> set runs. fst run \<noteq> 0\<close> by (auto simp: find_Some_iff)
  have sizes: "ring_sizes = map (\<lambda>k. 2 ^ k) [7..<17]" by (simp add: ring_sizes_def upt_rec)
  have run: "cmd_sizing a io s = Some (if fold smaller runs 0 = 0 then 1 else 0,
      prints (sizing_verdict (fold smaller runs 0)) (prints (sizing_rows runs) (prints (sizing_title a) io)), s')"
    using sizing_loop_batch [OF ring_sizes_double(1) b(1,3), of 0] by (simp add: cmd_sizing_def)
  show ?thesis
  proof (intro exI conjI)
    show "batch (sizing_run a) ring_sizes s = Some (runs, s')" by (rule b(1))
    show "cmd_sizing a io s = Some (if fold smaller runs 0 = 0 then 1 else 0,
        prints (sizing_verdict (fold smaller runs 0)) (prints (sizing_rows runs) (prints (sizing_title a) io)), s')" by (rule run)
    show "map fst runs = map (\<lambda>k. 2 ^ k) [7..<17]" by (simp only: b(2) sizes)
    show "io_out (prints (sizing_verdict (fold smaller runs 0)) (prints (sizing_rows runs) (prints (sizing_title a) io))) =
        io_out io @ sizing_title a @ sizing_rows runs @ sizing_verdict (fold smaller runs 0)" by simp
    show "case List.find (\<lambda>run. br_healthy (snd run)) runs of
        None \<Rightarrow> (if fold smaller runs 0 = 0 then 1 else 0 :: nat) = 1
      | Some run \<Rightarrow> (if fold smaller runs 0 = 0 then 1 else 0 :: nat) = 0 \<and> hd (sizing_verdict (fold smaller runs 0)) =
          Text (nl @ ''Smallest ring that loses nothing: '' @ dec (fst run) @ '' bytes.'' @ nl)"
      using found smallest by (simp add: sizing_verdict_def split: option.split)
  qed
qed

section \<open>The properties on concrete files and runs\<close>


lemma demo_record_words:
  "parse_args [''--iters'', dec (50 :: u32), ''--out'', ''t''] = (default_args\<lparr>a_iters := 50, a_out := ''t''\<rparr>, [])"
  by (simp add: parse_args_def parse_option)



end
