(* ===== verification/Cli_Inspect.thy ===== *)
theory Cli_Inspect
  imports Cli_Properties
begin

text \<open>
  Reverse execution from the command line: where an inspection starts, and what each step of
  its walk back shows.
\<close>

section \<open>The start\<close>

definition goal_event :: "cli_args \<Rightarrow> 'z tl \<Rightarrow> nat \<Rightarrow> bool" where
  "goal_event a s k \<longleftrightarrow>
     (if a_has_find a then k \<le> tl_event_count (the_timeline s) \<and> first_at (consumed_at_least (a_find a)) s k
      else k = (if a_has_at a then min (unat (a_at a)) (tl_event_count (the_timeline s)) else tl_event_count (the_timeline s)))"

lemma seen_clamped: "seen s (min k (tl_event_count (the_timeline s))) = seen s k"
  by (simp add: seen_def tl_seek_def Let_def min_def)

lemma inspect_start_goal:
  assumes s: "indexed s" "0 < tl_main_iters (the_timeline s)"
    and find: "a_has_find a \<Longrightarrow> rising (consumed_at_least (a_find a)) s \<and>
      (\<exists>k \<le> tl_event_count (the_timeline s). consumed_at_least (a_find a) (seen s k))"
  shows "\<exists>k said t. goal_event a s k \<and> inspect_start a io s = Some (Some (seen s k), prints said io, t) \<and>
    same_run s t \<and> tl_position (the_timeline t) = k \<and> k \<le> tl_event_count (the_timeline s)"
proof (cases "a_has_find a")
  case True
  obtain m where "tl_event_count (the_timeline s) < 2 ^ m" using less_exp by blast
  from tl_find_first_finds [OF s _ same_run_refl this, of "consumed_at_least (a_find a)" sn_new] find True
  obtain k t where "same_run s t" "k \<le> tl_event_count (the_timeline s)" "first_at (consumed_at_least (a_find a)) s k"
    "tl_find_first (Some (consumed_at_least (a_find a))) (Some sn_new) s = Some (True, Some (seen s k), t)"
    "tl_position (the_timeline t) = k"
    by (auto split: if_splits)
  then show ?thesis using True
    by (intro exI [of _ k] exI conjI) (auto simp: goal_event_def inspect_start_def say_def)
next
  case False
  let ?k = "if a_has_at a then unat (a_at a) else tl_event_count (the_timeline s)"
  obtain t where t: "tl_seek ?k (Some sn_new) s = Some (True, Some (seen s ?k), t)" "same_run s t"
    "tl_position (the_timeline t) = min ?k (tl_event_count (the_timeline s))"
    by (rule tl_seek_seen [OF s same_run_refl])
  have "inspect_start a io s = Some (Some (seen s (min ?k (tl_event_count (the_timeline s)))), prints [] io, t)"
    using t(1) False by (simp add: inspect_start_def seen_clamped)
  then show ?thesis using t(2,3) False
    by (intro exI [of _ "min ?k (tl_event_count (the_timeline s))"] exI [of _ "[]"] exI [of _ t]) (auto simp: goal_event_def)
qed

section \<open>Properties\<close>

text \<open>
  C40. An inspection walks back through the run. On a file that opens as a timeline, for at
  least one iteration, it answers 0 and prints the snapshot at its starting event and then
  one for each step back, stopping at the first event: the rows are what seeks of those
  events show straight after opening. It starts at the event asked for, or the end; or, if
  asked for a number of consumed bytes that is reached and never falls below again, at the
  first event where it is reached.
\<close>

theorem inspect_walks_back:
  assumes "a_file a \<noteq> ''''" "io_files io (a_file a) = Some d" "\<not> io_read_error io (a_file a)"
    and opened: "tl_open d (a_iters a) (a_ckpt a) (s\<lparr>the_replay := rp_new, the_timeline := tl_new\<rparr>) = Some (True, s0)"
    and "0 < a_iters a"
    and find: "a_has_find a \<Longrightarrow> rising (consumed_at_least (a_find a)) s0 \<and>
      (\<exists>k \<le> tl_event_count (the_timeline s0). consumed_at_least (a_find a) (seen s0 k))"
  shows "\<exists>k title summary io' s'. goal_event a s0 k \<and> cmd_inspect a io s = Some (0, io', s') \<and> io_err io' = io_err io \<and>
    io_out io' = io_out io @ title @ map (\<lambda>i. Text (snapshot_row (seen s0 i)))
      (k # walk_back (unat (a_walk a)) (if a_stride a = 0 then 1 else unat (a_stride a)) k) @ summary"
proof -
  have s0: "indexed s0" "0 < tl_main_iters (the_timeline s0)" using tl_open_indexed [OF opened] assms(5) by simp_all
  define title where "title = Text (fmt_dec (tl_event_count (the_timeline s0)) @ '' events, '' @
    fmt_dec (length (tl_checkpoints (the_timeline s0))) @ '' checkpoints'' @ nl @ nl)"
  obtain k said t where k: "goal_event a s0 k" "inspect_start a (prints [title] io) s0 = Some (Some (seen s0 k), prints said (prints [title] io), t)"
    "same_run s0 t" "tl_position (the_timeline t) = k" "k \<le> tl_event_count (the_timeline s0)"
    using inspect_start_goal [OF s0, of a "prints [title] io"] find by blast
  let ?stride = "if a_stride a \<noteq> 0 then a_stride a else 1"
  define shown where "shown = prints ([title] @ said @ [Text snapshot_header, Text (snapshot_row (seen s0 k))]) io"
  obtain t' where walk: "inspect_walk (unat (a_walk a)) ?stride (seen s0 k) shown t = Some (True,
      prints (map (\<lambda>i. Text (snapshot_row (seen s0 i))) (walk_back (unat (a_walk a)) (unat ?stride) k)) shown, t')"
    using inspect_walk_rows [OF s0 k(3)] k(4,5) by blast
  have "cmd_inspect a io s = inspect_opened a io s0"
    using assms(1-3) opened by (simp add: cmd_inspect_def read_file_def inspect_trace_def Let_def)
  then have run: "cmd_inspect a io s = Some (0, prints (if a_walk a > 0
        then [Text (nl @ dec (rp_events_served (the_replay t')) @ '' events replayed to produce that.'' @ nl)] else [])
      (prints (map (\<lambda>i. Text (snapshot_row (seen s0 i))) (walk_back (unat (a_walk a)) (unat ?stride) k)) shown), t')"
    using k(2) walk by (simp add: inspect_opened_def Let_def title_def say_def shown_def)
  define summary where "summary = (if a_walk a > 0
    then [Text (nl @ dec (rp_events_served (the_replay t')) @ '' events replayed to produce that.'' @ nl)] else [])"
  have "unat ?stride = (if a_stride a = 0 then 1 else unat (a_stride a))" by simp
  with run show ?thesis
    unfolding summary_def [symmetric] using k(1)
    by (intro exI [of _ k] exI [of _ "[title] @ said @ [Text snapshot_header]"] exI [of _ summary]
        exI [of _ "prints summary (prints (map (\<lambda>i. Text (snapshot_row (seen s0 i)))
          (walk_back (unat (a_walk a)) (unat ?stride) k)) shown)"] exI [of _ t'] conjI) (simp_all add: shown_def)
qed

section \<open>The property on a concrete trace\<close>

theorem inspect_walks_back_witness:
  "\<forall>s :: unit tl. \<exists>(s0 :: unit tl) title summary io' s'.
    cmd_inspect (default_args\<lparr>a_file := ''t'', a_iters := 3, a_at := 2, a_has_at := True, a_walk := 5\<rparr>)
      (demo_io\<lparr>io_files := [''t'' \<mapsto> demo_trace]\<rparr>) s = Some (0, io', s') \<and>
    io_out io' = title @ map (\<lambda>i. Text (snapshot_row (seen s0 i))) [2, 1, 0] @ summary"
proof
  fix s :: "unit tl"
  let ?a = "default_args\<lparr>a_file := ''t'', a_iters := 3, a_at := 2, a_has_at := True, a_walk := 5\<rparr>"
    and ?io = "demo_io\<lparr>io_files := [''t'' \<mapsto> demo_trace]\<rparr>"
  have "the_replay (s\<lparr>the_replay := rp_new, the_timeline := tl_new\<rparr>) = rp_new" by simp
  from demo_opens [OF this, of 128] obtain s0 where
    o: "tl_open demo_trace 3 128 (s\<lparr>the_replay := rp_new, the_timeline := tl_new\<rparr>) = Some (True, s0)"
    "5 \<le> tl_event_count (the_timeline s0)" by blast
  have a: "a_file ?a \<noteq> ''''" "io_files ?io (a_file ?a) = Some demo_trace" "\<not> io_read_error ?io (a_file ?a)"
    "a_iters ?a = 3" "a_ckpt ?a = 128" "\<not> a_has_find ?a" "0 < a_iters ?a"
    by (simp_all add: demo_io_def default_args_def)
  have "tl_open demo_trace (a_iters ?a) (a_ckpt ?a) (s\<lparr>the_replay := rp_new, the_timeline := tl_new\<rparr>) = Some (True, s0)"
    using o(1) a(4,5) by simp
  from inspect_walks_back [OF a(1-3) this a(7)] a(6) obtain k title summary io' s' where
    r: "goal_event ?a s0 k" "cmd_inspect ?a ?io s = Some (0, io', s')"
    "io_out io' = io_out ?io @ title @ map (\<lambda>i. Text (snapshot_row (seen s0 i)))
      (k # walk_back (unat (a_walk ?a)) (if a_stride ?a = 0 then 1 else unat (a_stride ?a)) k) @ summary"
    by blast
  have "k = 2" using r(1) o(2) a(6) by (simp add: goal_event_def)
  moreover have "walk_back 5 1 2 = [1, 0]" by (simp add: eval_nat_numeral)
  ultimately have "io_out io' = title @ map (\<lambda>i. Text (snapshot_row (seen s0 i))) [2, 1, 0] @ summary"
    using r(3) by (simp add: demo_io_def default_args_def)
  then show "\<exists>(s0 :: unit tl) title summary io' s'. cmd_inspect ?a ?io s = Some (0, io', s') \<and>
      io_out io' = title @ map (\<lambda>i. Text (snapshot_row (seen s0 i))) [2, 1, 0] @ summary"
    using r(2) by blast
qed

end
