(* ===== verification/Spec2Isabelle.thy ===== *)
theory Spec2Isabelle
  imports Prelude Crc32 Varint Ring_Buffer Trace Trace_Writer Trace_Reader Clock Hal Mcu Recorder
    Rx_Pump Replay Session Sink_Frame Record_Replay Faithful_Replay Replay_Determinism Buffered_Replay
    Timeline Timeline_Seek Timeline_Search Timeline_Example Timeline_Properties
    Cortex_M Cli_Args Cli Cli_Exit Cli_Properties Cli_Inspect
begin

text \<open>
  A verification development of rewind-mcu: deterministic record and replay for bare-metal
  firmware. A recording holds everything that crossed the boundary between the firmware and
  the hardware, register accesses and interrupt arrivals, and a replay runs the same firmware
  on the host from the recording alone. The development models the C++ program under
  \<^verbatim>\<open>src/core\<close>, \<^verbatim>\<open>src/target\<close>, \<^verbatim>\<open>src/sim\<close>, \<^verbatim>\<open>src/firmware\<close> and \<^verbatim>\<open>src/host\<close>, its command line
  included; this root theory imports all of it.

  \<^bold>\<open>The parts and how they meet.\<close> The firmware (\<^verbatim>\<open>rx_pump.cpp\<close>) touches the hardware only through
  the shim (\<^verbatim>\<open>hal.cpp\<close>), a file-static state with a backend of function pointers: the
  simulated part (\<^verbatim>\<open>mcu.cpp\<close>), the registers of a Cortex-M (\<^verbatim>\<open>cortex_m.cpp\<close>) or a recorded
  trace (\<^verbatim>\<open>replay.cpp\<close>). After each access of the main loop the shim dispatches the pending
  interrupts. While recording it tells the writer (\<^verbatim>\<open>trace_writer.cpp\<close>) of each access and
  each interrupt; the writer hands blocks to a sink, which is a byte vector on the host, and on
  a device the recorder (\<^verbatim>\<open>recorder.cpp\<close>), which pushes into a ring (\<^verbatim>\<open>ring_buffer.cpp\<close>) that
  a drain loop empties into a link. The reader (\<^verbatim>\<open>trace_reader.cpp\<close>) parses a trace again;
  the sessions (\<^verbatim>\<open>session.cpp\<close>) link and run all this, the timeline (\<^verbatim>\<open>timeline.cpp\<close>) replays to
  any point of a run, and the tool (\<^verbatim>\<open>main.cpp\<close>) offers it as commands.

  \<^bold>\<open>How code is modelled.\<close> Unsigned integers are words of their width. An operation that
  accesses an array, computes on \<^verbatim>\<open>i64\<close>, calls through a function pointer or loops without an
  evident bound returns an option: \<^term>\<open>None\<close> is undefined behaviour or not returning, so that
  every theorem that concludes \<^term>\<open>Some\<close> is one of memory safety and termination. The
  machine state is one record, extended component by component: \<^verbatim>\<open>hal\<close>, \<^verbatim>\<open>recorder_machine\<close>,
  \<^verbatim>\<open>fw_machine\<close>, \<^verbatim>\<open>replay_machine\<close>, \<^verbatim>\<open>world\<close>, \<^verbatim>\<open>timeline_world\<close>. A function pointer is a code
  address, an element of a datatype, and the linkage says what is at each address; \<^verbatim>\<open>link\<close> of
  \<^verbatim>\<open>Rx_Pump\<close> ties the knot between the shim and the handlers it calls, one level deep because
  the shim does not dispatch while a handler runs.

  \<^bold>\<open>The theories, in the order of the code.\<close>
  \<^item> \<^verbatim>\<open>Prelude\<close>: integers, checked arrays, checked \<^verbatim>\<open>i64\<close> arithmetic and the lemmas all share.
  \<^item> \<^verbatim>\<open>Crc32\<close>, \<^verbatim>\<open>Varint\<close>: the codecs of \<^verbatim>\<open>core\<close>. The nibble table computes the bitwise CRC, which
    catches every burst of up to four bytes; varints and zigzag are round trips with exact bounds.
    The locales \<^verbatim>\<open>checksum\<close> and \<^verbatim>\<open>prefix_codec\<close> are what the trace format uses of them.
  \<^item> \<^verbatim>\<open>Ring_Buffer\<close>: the ring refines a bounded byte queue, whatever its free-running indices are;
    the locale \<^verbatim>\<open>byte_fifo\<close> is what the recorder relies on.
  \<^item> \<^verbatim>\<open>Trace\<close>, \<^verbatim>\<open>Trace_Writer\<close>, \<^verbatim>\<open>Trace_Reader\<close>: the format as functions from events to bytes; the
    writer emits it to any sink that keeps the contract of the locale \<^verbatim>\<open>block_sink\<close>, also one
    that refuses blocks; the reader inverts it, stops at a gap, a damaged or a truncated block,
    and is safe on any bytes.
  \<^item> \<^verbatim>\<open>Clock\<close>: the widened counter is exact while it is sampled once per wrap period.
  \<^item> \<^verbatim>\<open>Hal\<close>, \<^verbatim>\<open>Mcu\<close>, \<^verbatim>\<open>Recorder\<close>, \<^verbatim>\<open>Rx_Pump\<close>, \<^verbatim>\<open>Replay\<close>, \<^verbatim>\<open>Session\<close>: the machine. The locale
    \<^verbatim>\<open>transport\<close>, extended by \<^verbatim>\<open>device_link\<close>, is what the drain loop asks of a link, and a
    \<^verbatim>\<open>sublocale\<close> makes a recorder on such a link a \<^verbatim>\<open>block_sink\<close>.
  \<^item> \<^verbatim>\<open>Sink_Frame\<close>, \<^verbatim>\<open>Record_Replay\<close>, \<^verbatim>\<open>Faithful_Replay\<close>: replay follows a recording step by
    step, in the locale \<^verbatim>\<open>host_recording\<close>, for the vector sink and for the recorder alike.
  \<^item> \<^verbatim>\<open>Replay_Determinism\<close>: replay of any events returns and depends on nothing else, in the
    locale \<^verbatim>\<open>replay_client\<close>, with and without a capture function.
  \<^item> \<^verbatim>\<open>Buffered_Replay\<close>: recording through the ring and a slow link, in slices.
  \<^item> \<^verbatim>\<open>Timeline\<close>, \<^verbatim>\<open>Timeline_Seek\<close>, \<^verbatim>\<open>Timeline_Search\<close>, \<^verbatim>\<open>Timeline_Example\<close>,
    \<^verbatim>\<open>Timeline_Properties\<close>: checkpoints, seeks, steps and the search; a seek is re-execution.
  \<^item> \<^verbatim>\<open>Cortex_M\<close>: the port, over any register bus; a device's life is a sequence of accesses with
    interrupts landing between them and nesting, and its recording is true to it.
  \<^item> \<^verbatim>\<open>Cli_Args\<close>, \<^verbatim>\<open>Cli\<close>: the argument parser, every command, files and printed text;
    \<^verbatim>\<open>Cli_Exit\<close>, \<^verbatim>\<open>Cli_Properties\<close>, \<^verbatim>\<open>Cli_Inspect\<close>: that the commands end, what the exit codes
    mean, and what each command does.

  \<^bold>\<open>Bounds and loops.\<close> Whole-run theorems that need a trace below 4 GiB assume
  \<^verbatim>\<open>43 * (iterations + 5 * bytes + 1) + 36 <= 0xFFFFFFFF\<close>: there is at most
  one event for each iteration, five for each received byte, and the stop event; an event
  takes at most 31 bytes, its block 12 more, the header and the terminator 36. No fuel is used. The
  loops without an evident bound are partial functions in the option type, and each is proved
  to end: the dispatch loop by the bytes the simulated UART has yet to deliver, or the events
  not yet replayed; the drain loops by the bytes in the ring; the reader's and the dump's loop
  by the bytes not yet read; the bisection by its interval; the sizing loop by the list of
  capacities; the hunt by the seeds left, except up to the largest number, where it is proved
  not to end.

  \<^bold>\<open>Not modelled, and why.\<close>
  \<^item> The registers of a device are hardware: a parameter, a function on a device state. On a
    device interrupts land between the calls of the shim, not inside one; the two ring indices
    are read and written in one step each, without the memory order of their atomics.
  \<^item> \<^verbatim>\<open>size_t\<close> is a natural number, except where a sum of positions wraps. The pointer of an
    empty vector is not null when a trace is loaded; either way it is refused.
  \<^item> \<^verbatim>\<open>set_cursor\<close> empties the text \<^verbatim>\<open>hal_divergence\<close> points to; the model keeps the text the
    pointer was set to. A search predicate is a pure function of the snapshot.
  \<^item> The tool's printed text is modelled up to the directive \<^verbatim>\<open>%.1f\<close>, which keeps its two operands.
    \<^verbatim>\<open>unsigned long\<close> has 64 bits. What the file system does is read from the state.
  \<^item> Tests, the vendored test framework, scripts and build files are not part of the program.
\<close>

end
